(* ===== verification/Fb_Prelude.thy ===== *)
theory Fb_Prelude
  imports Main "HOL-Library.Sublist"
begin

text \<open>
  Shared by every component: how a C++ call can end (\<open>fault\<close>), the bind that propagates a
  fault the way an exception propagates, the \<^verbatim>\<open>std::string_view\<close> searches the
  sources use, \<^verbatim>\<open>std::getline\<close>, \<^verbatim>\<open>std::to_string\<close>, and the
  generic lemmas on lists they need.  Indices are natural numbers: a C++ string is shorter than
  \<^verbatim>\<open>npos\<close>, so no index computation of the sources that are modelled with these
  functions wraps around, and \<^verbatim>\<open>npos\<close> itself is \<open>None\<close>.
\<close>

named_theorems outcome_simps
  "inversion rules for calls that returned: obind ... = Inr ..."
named_theorems sv_simps
  "string_view operations on in-range positions"


section \<open>How a call can end\<close>

text \<open>
  \<open>Runtime_Error\<close> is a thrown \<^verbatim>\<open>std::runtime_error\<close> (or a class derived from
  it) with its \<^verbatim>\<open>what()\<close> string.  \<open>Out_Of_Range\<close> is the
  \<^verbatim>\<open>std::out_of_range\<close> of \<^verbatim>\<open>substr\<close>, which no handler of the sources
  catches.  \<open>Assert_Failed\<close> is a failing \<^verbatim>\<open>assert\<close>, \<open>Undefined\<close> an access
  the language gives no meaning to.  \<open>Out_Of_Fuel\<close> is not an event of the program: a
  recursion of the model that was given too little fuel ends in it, and the termination theorems
  show that it is never reached.
\<close>

datatype fault =
    Runtime_Error string
  | Out_Of_Range
  | Assert_Failed
  | Undefined
  | Out_Of_Fuel

type_synonym 'a outcome = "fault + 'a"

definition obind :: "'a outcome \<Rightarrow> ('a \<Rightarrow> 'b outcome) \<Rightarrow> 'b outcome" where
  "obind m f = (case m of Inl e \<Rightarrow> Inl e | Inr x \<Rightarrow> f x)"

lemma obind_Inl [simp]: "obind (Inl e) f = Inl e"
  by (simp add: obind_def)

lemma obind_Inr [simp]: "obind (Inr x) f = f x"
  by (simp add: obind_def)

lemma obind_eq_Inr_iff [outcome_simps]:
  "obind m f = Inr y \<longleftrightarrow> (\<exists>x. m = Inr x \<and> f x = Inr y)"
  by (cases m) auto

lemma obind_eq_Inl_iff:
  "obind m f = Inl e \<longleftrightarrow> m = Inl e \<or> (\<exists>x. m = Inr x \<and> f x = Inl e)"
  by (cases m) auto

lemma obind_cong [fundef_cong]:
  assumes "m = m'" and "\<And>x. m' = Inr x \<Longrightarrow> f x = f' x"
  shows "obind m f = obind m' f'"
  using assms by (cases m') (auto simp: obind_def)

text \<open>A call that either returns or throws a \<^verbatim>\<open>std::runtime_error\<close>.\<close>

definition only_runtime :: "'a outcome \<Rightarrow> bool" where
  "only_runtime m = (case m of Inr _ \<Rightarrow> True | Inl (Runtime_Error _) \<Rightarrow> True | Inl _ \<Rightarrow> False)"

lemma only_runtime_Inr [simp]: "only_runtime (Inr x)"
  by (simp add: only_runtime_def)

lemma only_runtime_Inl [simp]: "only_runtime (Inl e) \<longleftrightarrow> (\<exists>msg. e = Runtime_Error msg)"
  by (cases e) (auto simp: only_runtime_def)

lemma only_runtime_obind:
  assumes "only_runtime m" and "\<And>x. m = Inr x \<Longrightarrow> only_runtime (f x)"
  shows "only_runtime (obind m f)"
  using assms by (cases m) auto


section \<open>Characters and messages\<close>

abbreviation dquote :: char where "dquote \<equiv> CHR 0x22"
abbreviation squote :: char where "squote \<equiv> CHR 0x27"
abbreviation bslash :: char where "bslash \<equiv> CHR 0x5C"
abbreviation newline :: char where "newline \<equiv> CHR 0x0A"
abbreviation tab_char :: char where "tab_char \<equiv> CHR 0x09"
abbreviation cr_char :: char where "cr_char \<equiv> CHR 0x0D"

text \<open>A value between double quotes, as the format strings of the error messages put it.\<close>

definition quoted :: "string \<Rightarrow> string" where
  "quoted s = [dquote] @ s @ [dquote]"

text \<open>\<^verbatim>\<open>std::to_string\<close> of an unsigned number (and the \<^verbatim>\<open>{}\<close> of
  \<^verbatim>\<open>std::format\<close>): decimal digits, the most significant first, no leading zero.\<close>

definition digit_char :: "nat \<Rightarrow> char" where
  "digit_char d = char_of (48 + d)"

fun dec_string :: "nat \<Rightarrow> string" where
  "dec_string n =
     (if n < 10 then [digit_char n] else dec_string (n div 10) @ [digit_char (n mod 10)])"

declare dec_string.simps [simp del]

lemma dec_string_small: "n < 10 \<Longrightarrow> dec_string n = [digit_char n]"
  by (simp add: dec_string.simps)

lemma dec_string_step:
  "10 \<le> n \<Longrightarrow> dec_string n = dec_string (n div 10) @ [digit_char (n mod 10)]"
  by (subst dec_string.simps) simp

lemma dec_string_nonempty [simp]: "dec_string n \<noteq> []"
  by (subst dec_string.simps) simp


section \<open>Searching a string view\<close>

text \<open>Position of the first element that satisfies a predicate.\<close>

fun find_idx :: "('a \<Rightarrow> bool) \<Rightarrow> 'a list \<Rightarrow> nat option" where
  "find_idx P [] = None"
| "find_idx P (x # xs) = (if P x then Some 0 else map_option Suc (find_idx P xs))"

lemma find_idx_None_iff: "find_idx P xs = None \<longleftrightarrow> (\<forall>x \<in> set xs. \<not> P x)"
  by (induction xs) auto

lemma find_idx_Some_iff:
  "find_idx P xs = Some k \<longleftrightarrow> k < length xs \<and> P (xs ! k) \<and> (\<forall>i < k. \<not> P (xs ! i))"
proof (induction xs arbitrary: k)
  case Nil
  then show ?case by simp
next
  case (Cons x xs)
  then show ?case by (cases k) (auto simp: less_Suc_eq_0_disj)
qed

lemma find_idx_bound: "find_idx P xs = Some k \<Longrightarrow> k < length xs"
  by (simp add: find_idx_Some_iff)

lemma find_idx_takeWhile:
  "find_idx P xs = Some k \<Longrightarrow> take k xs = takeWhile (\<lambda>x. \<not> P x) xs"
  by (induction xs arbitrary: k) (auto split: if_splits)

lemma find_idx_dropWhile:
  "find_idx P xs = Some k \<Longrightarrow> drop k xs = dropWhile (\<lambda>x. \<not> P x) xs"
  by (induction xs arbitrary: k) (auto split: if_splits)

lemma find_idx_append_skip:
  "\<forall>x \<in> set xs. \<not> P x \<Longrightarrow> find_idx P (xs @ ys) = map_option ((+) (length xs)) (find_idx P ys)"
  by (induction xs) (auto simp: option.map_comp comp_def option.map_ident
      map_option_case split: option.splits)

lemma find_idx_append_hit:
  "\<forall>x \<in> set xs. \<not> P x \<Longrightarrow> P y \<Longrightarrow> find_idx P (xs @ y # ys) = Some (length xs)"
  by (simp add: find_idx_append_skip)

text \<open>
  \<^verbatim>\<open>find_first_of\<close>, \<^verbatim>\<open>find_first_not_of\<close> and \<^verbatim>\<open>find\<close> of one
  character from a position on, and \<^verbatim>\<open>find_last_not_of\<close>.
\<close>

definition find_from :: "('a \<Rightarrow> bool) \<Rightarrow> 'a list \<Rightarrow> nat \<Rightarrow> nat option" where
  "find_from P s pos = map_option ((+) pos) (find_idx P (drop pos s))"

definition find_first_of :: "string \<Rightarrow> string \<Rightarrow> nat \<Rightarrow> nat option" where
  "find_first_of s cs pos = find_from (\<lambda>c. c \<in> set cs) s pos"

definition find_first_not_of :: "string \<Rightarrow> string \<Rightarrow> nat \<Rightarrow> nat option" where
  "find_first_not_of s cs pos = find_from (\<lambda>c. c \<notin> set cs) s pos"

definition find_char :: "string \<Rightarrow> char \<Rightarrow> nat \<Rightarrow> nat option" where
  "find_char s c pos = find_from (\<lambda>x. x = c) s pos"

definition find_last_not_of :: "string \<Rightarrow> string \<Rightarrow> nat option" where
  "find_last_not_of s cs =
     map_option (\<lambda>k. length s - Suc k) (find_idx (\<lambda>c. c \<notin> set cs) (rev s))"

lemmas find_defs = find_first_of_def find_first_not_of_def find_char_def

lemma find_from_bounds: "find_from P s pos = Some k \<Longrightarrow> pos \<le> k \<and> k < length s"
  by (auto simp: find_from_def dest: find_idx_bound)

lemma find_from_holds: "find_from P s pos = Some k \<Longrightarrow> P (s ! k)"
  by (auto simp: find_from_def find_idx_Some_iff)

lemma find_from_past_end: "length s \<le> pos \<Longrightarrow> find_from P s pos = None"
  by (simp add: find_from_def)

text \<open>
  \<^verbatim>\<open>substr\<close> throws \<^verbatim>\<open>std::out_of_range\<close> when its position is past the end,
  \<^verbatim>\<open>operator[]\<close> out of range is undefined.
\<close>

definition sv_substr :: "string \<Rightarrow> nat \<Rightarrow> nat \<Rightarrow> string outcome" where
  "sv_substr s pos n = (if pos \<le> length s then Inr (take n (drop pos s)) else Inl Out_Of_Range)"

definition sv_suffix :: "string \<Rightarrow> nat \<Rightarrow> string outcome" where
  "sv_suffix s pos = (if pos \<le> length s then Inr (drop pos s) else Inl Out_Of_Range)"

definition sv_at :: "string \<Rightarrow> nat \<Rightarrow> char outcome" where
  "sv_at s i = (if i < length s then Inr (s ! i) else Inl Undefined)"

lemma sv_substr_in_range [sv_simps]:
  "pos \<le> length s \<Longrightarrow> sv_substr s pos n = Inr (take n (drop pos s))"
  by (simp add: sv_substr_def)

lemma sv_suffix_in_range [sv_simps]: "pos \<le> length s \<Longrightarrow> sv_suffix s pos = Inr (drop pos s)"
  by (simp add: sv_suffix_def)

lemma sv_at_in_range [sv_simps]: "i < length s \<Longrightarrow> sv_at s i = Inr (s ! i)"
  by (simp add: sv_at_def)


section \<open>Lines of a stream, pieces of a list\<close>

text \<open>
  \<^verbatim>\<open>std::getline\<close> on the characters a stream has left: \<open>None\<close> when nothing is
  left (the call fails), otherwise the line without its newline and the rest.
\<close>

definition getline :: "string \<Rightarrow> (string \<times> string) option" where
  "getline s =
     (if s = [] then None
      else Some (takeWhile (\<lambda>c. c \<noteq> newline) s, drop 1 (dropWhile (\<lambda>c. c \<noteq> newline) s)))"

lemma getline_decreases: "getline s = Some (l, r) \<Longrightarrow> length r < length s"
proof -
  assume a: "getline s = Some (l, r)"
  then have "s \<noteq> []" and "r = drop 1 (dropWhile (\<lambda>c. c \<noteq> newline) s)"
    by (auto simp: getline_def split: if_splits)
  moreover have "length (dropWhile (\<lambda>c. c \<noteq> newline) s) \<le> length s"
    by (rule length_dropWhile_le)
  ultimately show ?thesis by (cases s) auto
qed

lemma getline_Nil [simp]: "getline [] = None"
  by (simp add: getline_def)

lemma getline_line:
  "newline \<notin> set l \<Longrightarrow> getline (l @ newline # rest) = Some (l, rest)"
  by (induction l) (auto simp: getline_def)

text \<open>The pieces of a list between the occurrences of a separator; \<open>join\<close> puts it back.\<close>

fun split_on :: "'a \<Rightarrow> 'a list \<Rightarrow> 'a list list" where
  "split_on d [] = [[]]"
| "split_on d (x # xs) =
     (if x = d then [] # split_on d xs
      else (case split_on d xs of [] \<Rightarrow> [[x]] | y # ys \<Rightarrow> (x # y) # ys))"

fun join :: "'a list \<Rightarrow> 'a list list \<Rightarrow> 'a list" where
  "join d [] = []"
| "join d [x] = x"
| "join d (x # y # zs) = x @ d @ join d (y # zs)"

lemma split_on_nonempty [simp]: "split_on d xs \<noteq> []"
  by (cases xs) (auto split: list.splits)

lemma split_on_no_sep: "d \<notin> set xs \<Longrightarrow> split_on d xs = [xs]"
  by (induction xs) auto

lemma split_on_append_sep:
  "d \<notin> set xs \<Longrightarrow> split_on d (xs @ d # ys) = xs # split_on d ys"
  by (induction xs) auto

lemma split_on_join:
  "xss \<noteq> [] \<Longrightarrow> \<forall>xs \<in> set xss. d \<notin> set xs \<Longrightarrow> split_on d (join [d] xss) = xss"
  by (induction "[d]" xss rule: join.induct) (auto simp: split_on_no_sep split_on_append_sep)

lemma dropWhile_takeWhile_split:
  "d \<in> set xs \<Longrightarrow> xs = takeWhile (\<lambda>x. x \<noteq> d) xs @ d # tl (dropWhile (\<lambda>x. x \<noteq> d) xs)"
  by (induction xs) auto

lemma takeWhile_upto [simp]:
  "d \<notin> set xs \<Longrightarrow> takeWhile (\<lambda>x. x \<noteq> d) xs = xs"
  "d \<notin> set xs \<Longrightarrow> takeWhile (\<lambda>x. x \<noteq> d) (xs @ d # ys) = xs"
  by (induction xs) auto

lemma dropWhile_upto [simp]:
  "d \<notin> set xs \<Longrightarrow> dropWhile (\<lambda>x. x \<noteq> d) xs = []"
  "d \<notin> set xs \<Longrightarrow> dropWhile (\<lambda>x. x \<noteq> d) (xs @ d # ys) = d # ys"
  by (induction xs) auto

lemma drop_eq_ConsD: "drop n xs = y # ys \<Longrightarrow> n < length xs \<and> xs ! n = y \<and> drop (Suc n) xs = ys"
proof -
  assume a: "drop n xs = y # ys"
  then have "n < length xs" by (metis drop_all list.distinct(1) not_le)
  with a show ?thesis by (metis Cons_nth_drop_Suc list.inject)
qed

lemma hd_dropWhile_not: "dropWhile P xs \<noteq> [] \<Longrightarrow> \<not> P (hd (dropWhile P xs))"
  by (rule hd_dropWhile)

end
