(* ===== verification/Ini_Tokenizer.thy ===== *)
theory Ini_Tokenizer
  imports Fb_Prelude
begin

text \<open>
  The line tokenizer of \<^verbatim>\<open>utils/ini_parser/ini_parser.cpp\<close>: the character classes,
  \<^verbatim>\<open>trim\<close>, \<^verbatim>\<open>process_quoted_value\<close>, \<^verbatim>\<open>process_key\<close>,
  \<^verbatim>\<open>find_quote\<close> and \<^verbatim>\<open>tokenize\<close>, with the indices of the code.  The second half
  gives a reference scanner that reads a suffix of the line at a time and shows that the index
  arithmetic of the code computes the same tokens and the same errors.
\<close>

section \<open>Character classes and trim\<close>

definition escapee :: string where
  "escapee = [bslash, dquote]"

definition token_delimiters :: string where
  "token_delimiters = [CHR '' '', tab_char, cr_char, CHR ''#'', CHR '';'', CHR ''='']"

definition space_chars :: string where
  "space_chars = take 3 token_delimiters"

definition comment_chars :: string where
  "comment_chars = take 2 (drop 3 token_delimiters)"

definition is_space :: "char \<Rightarrow> bool" where
  "is_space c = (c \<in> set space_chars)"

type_synonym token = "char \<times> string"

text \<open>The token kinds the parser drops with everything behind them.\<close>

definition is_comment :: "token \<Rightarrow> bool" where
  "is_comment t = (fst t = CHR ''#'' \<or> fst t = CHR '';'')"

lemma space_chars_eq: "space_chars = [CHR '' '', tab_char, cr_char]"
  by (simp add: space_chars_def token_delimiters_def)

lemma comment_chars_eq: "comment_chars = [CHR ''#'', CHR '';'']"
  by (simp add: comment_chars_def token_delimiters_def numeral_3_eq_3 numeral_2_eq_2)

lemma is_space_eq: "is_space c \<longleftrightarrow> c = CHR '' '' \<or> c = tab_char \<or> c = cr_char"
  by (auto simp: is_space_def space_chars_eq)

text \<open>
  In \<^verbatim>\<open>trim\<close> the second search never fails when the first one succeeded; its
  \<^verbatim>\<open>npos\<close> would give \<^verbatim>\<open>substr\<close> a count past the end, that is the suffix.
\<close>

definition trim :: "string \<Rightarrow> string" where
  "trim value =
     (case find_first_not_of value space_chars 0 of
        None \<Rightarrow> []
      | Some first \<Rightarrow>
          (case find_last_not_of value space_chars of
             None \<Rightarrow> drop first value
           | Some lst \<Rightarrow> take (lst - first + 1) (drop first value)))"


section \<open>Quoted values and keys\<close>

text \<open>
  The loop of \<^verbatim>\<open>process_quoted_value\<close>: \<open>i\<close> is where the next backslash is searched
  from, \<open>first\<close> where the text not yet copied begins.
\<close>

function process_quoted_loop :: "string \<Rightarrow> nat \<Rightarrow> nat \<Rightarrow> string \<Rightarrow> string outcome" where
  "process_quoted_loop value i first res =
     (case find_char value bslash i of
        None \<Rightarrow> Inr (res @ drop first value)
      | Some lst \<Rightarrow>
          if length value - lst < 2 then Inl Assert_Failed
          else process_quoted_loop value (lst + 2) (lst + 1)
                 (res @ take (lst - first) (drop first value)))"
  by pat_completeness auto
termination
  by (relation "measure (\<lambda>(value, i, first, res). length value - i)")
     (auto simp: find_char_def dest: find_from_bounds)

declare process_quoted_loop.simps [simp del]

definition process_quoted_value :: "string \<Rightarrow> string outcome" where
  "process_quoted_value value = process_quoted_loop value 0 0 []"

definition process_key :: "token \<Rightarrow> string outcome" where
  "process_key key =
     (if fst key = CHR ''t'' then Inr (trim (snd key))
      else if fst key = dquote then
        obind (process_quoted_value (snd key)) (\<lambda>res.
          if res = [] \<or> trim res = [] then Inl (Runtime_Error ''empty keys are not supported'')
          else Inr res)
      else Inl (Runtime_Error
             (''unexpected '' @ quoted (snd key) @ '' at the beginning of line'')))"

text \<open>The loop of \<^verbatim>\<open>find_quote\<close>, with its \<^verbatim>\<open>++i\<close> after a backslash.\<close>

function find_quote_loop :: "string \<Rightarrow> nat \<Rightarrow> nat option outcome" where
  "find_quote_loop input i =
     (if i < length input then
        if input ! i = dquote then Inr (Some i)
        else if input ! i = bslash then
          if Suc i = length input then
            Inl (Runtime_Error (''missing '' @ [squote, dquote, squote] @ '' or '' @
                   [squote, bslash, squote] @ '' after '' @ [squote, bslash, squote]))
          else if input ! Suc i \<notin> set escapee then
            Inl (Runtime_Error (''invalid escaped symbol '' @ quoted [bslash, input ! Suc i]))
          else find_quote_loop input (Suc (Suc i))
        else find_quote_loop input (Suc i)
      else Inr None)"
  by pat_completeness auto
termination
  by (relation "measure (\<lambda>(input, i). length input - i)") auto

declare find_quote_loop.simps [simp del]

definition find_quote :: "string \<Rightarrow> nat option outcome" where
  "find_quote input = find_quote_loop input 0"


section \<open>The tokenizer\<close>

text \<open>
  One turn of the loop of \<^verbatim>\<open>tokenize\<close> goes on with a new \<open>last\<close> (\<open>lst\<close> here) and the tokens so
  far, or returns from the function.
\<close>

datatype tok_flow =
    Tok_Next nat "token list"
  | Tok_Return "token list"

definition include_word :: string where
  "include_word = ''include''"

definition tok_comment :: "string \<Rightarrow> nat \<Rightarrow> char \<Rightarrow> token list \<Rightarrow> tok_flow outcome" where
  "tok_comment input first c res =
     obind (sv_suffix input (first + 1)) (\<lambda>text. Inr (Tok_Return (res @ [(c, text)])))"

definition tok_quote :: "string \<Rightarrow> nat \<Rightarrow> token list \<Rightarrow> tok_flow outcome" where
  "tok_quote input first res =
     obind (sv_suffix input (first + 1)) (\<lambda>rest.
     obind (find_quote rest) (\<lambda>pos.
       case pos of
         None \<Rightarrow> Inl (Runtime_Error ''unmatched quote'')
       | Some p \<Rightarrow>
           obind (sv_substr input (first + 1) p) (\<lambda>v.
             Inr (Tok_Next (first + 1 + p) (res @ [(dquote, v)])))))"

definition tok_hash :: "string \<Rightarrow> nat \<Rightarrow> token list \<Rightarrow> tok_flow outcome" where
  "tok_hash input first res =
     obind (sv_suffix input (first + 1)) (\<lambda>text.
       if res = [] \<and> prefix include_word text then
         let lst = first + length include_word in
         obind (if lst + 1 = length input then Inr True
                else obind (sv_at input (lst + 1)) (\<lambda>c. Inr (is_space c))) (\<lambda>ends.
           if ends then
             obind (sv_substr input (first + 1) (length include_word)) (\<lambda>v.
               Inr (Tok_Next lst (res @ [(CHR ''i'', v)])))
           else tok_comment input first (CHR ''#'') res)
       else tok_comment input first (CHR ''#'') res)"

definition tok_assign :: "string \<Rightarrow> nat \<Rightarrow> token list \<Rightarrow> tok_flow outcome" where
  "tok_assign input first res =
     obind (sv_substr input first 1) (\<lambda>v. Inr (Tok_Next first (res @ [(CHR ''='', v)])))"

definition tok_section :: "string \<Rightarrow> nat \<Rightarrow> nat \<Rightarrow> token list \<Rightarrow> tok_flow outcome" where
  "tok_section input first lst res =
     (let unmatched = Inl (Runtime_Error (''unmatched '' @ [squote, CHR ''['', squote])) in
      if lst + 1 = length input then unmatched
      else (case find_char input (CHR '']'') (first + 1) of
              None \<Rightarrow> unmatched
            | Some last' \<Rightarrow>
                obind (sv_substr input (first + 1) (last' - first - 1)) (\<lambda>v.
                  Inr (Tok_Next last' (res @ [(CHR ''['', v)])))))"

definition tok_text :: "string \<Rightarrow> nat \<Rightarrow> nat \<Rightarrow> token list \<Rightarrow> tok_flow outcome" where
  "tok_text input first lst res =
     (let delimiters = (if res = [] then token_delimiters else comment_chars);
          to_the_end = obind (sv_suffix input first) (\<lambda>v.
                         Inr (Tok_Return (res @ [(CHR ''t'', v)]))) in
      if lst + 1 = length input then to_the_end
      else (case find_first_of input delimiters (first + 1) of
              None \<Rightarrow> to_the_end
            | Some last' \<Rightarrow>
                obind (sv_substr input first (last' - first)) (\<lambda>v.
                obind (sv_at input last') (\<lambda>c.
                  Inr (Tok_Next (if is_space c then last' else last' - 1)
                         (res @ [(CHR ''t'', v)]))))))"

definition tok_step :: "string \<Rightarrow> nat \<Rightarrow> nat \<Rightarrow> token list \<Rightarrow> tok_flow outcome" where
  "tok_step input first lst res =
     (let c = input ! first in
      if c = dquote then tok_quote input first res
      else if c = CHR ''#'' then tok_hash input first res
      else if c = CHR '';'' then tok_comment input first c res
      else if c = CHR ''='' then tok_assign input first res
      else if c = CHR ''['' \<and> res = [] then tok_section input first lst res
      else tok_text input first lst res)"

text \<open>No turn steps back: the next search starts behind the character it looked at.\<close>

lemma tok_step_progress:
  "tok_step input first lst res = Inr (Tok_Next last' res') \<Longrightarrow> first \<le> last'"
  by (auto simp: tok_step_def tok_quote_def tok_hash_def tok_comment_def tok_assign_def
      tok_section_def tok_text_def Let_def outcome_simps find_defs
      split: if_splits option.splits dest: find_from_bounds)

function tok_loop :: "string \<Rightarrow> nat option \<Rightarrow> nat \<Rightarrow> token list \<Rightarrow> token list outcome" where
  "tok_loop input first lst res =
     (case first of
        None \<Rightarrow> Inr res
      | Some f \<Rightarrow>
          if f < length input then
            (case tok_step input f lst res of
               Inl e \<Rightarrow> Inl e
             | Inr (Tok_Return r) \<Rightarrow> Inr r
             | Inr (Tok_Next last' res') \<Rightarrow>
                 tok_loop input (find_first_not_of input space_chars (last' + 1)) last' res')
          else Inr res)"
  by pat_completeness auto
termination
proof (relation "measure (\<lambda>(input, first, lst, res).
    case first of None \<Rightarrow> 0 | Some f \<Rightarrow> Suc (length input) - f)", goal_cases)
  case (2 input first lst res f flow last' res')
  then have "f \<le> last'" by (auto dest: tok_step_progress)
  with 2 show ?case
    by (auto simp: find_first_not_of_def split: option.splits dest!: find_from_bounds)
qed simp

declare tok_loop.simps [simp del]

definition tokenize :: "string \<Rightarrow> token list outcome" where
  "tokenize input = tok_loop input (find_first_not_of input space_chars 0) 0 []"

end
