(* ===== verification/Ini_Scanner.thy ===== *)
theory Ini_Scanner
  imports Ini_Tokenizer
begin

text \<open>
  A reference for the tokenizer that reads suffixes of the line instead of indices into it, and
  the proofs that \<^verbatim>\<open>find_quote\<close>, \<^verbatim>\<open>process_quoted_value\<close>, \<^verbatim>\<open>trim\<close>
  and \<^verbatim>\<open>tokenize\<close> agree with it.
\<close>

section \<open>Reference definitions\<close>

definition skip_space :: "string \<Rightarrow> string" where
  "skip_space = dropWhile is_space"

text \<open>The raw text of a quoted string whose opening quote was read, and what follows it.\<close>

fun scan_quoted :: "string \<Rightarrow> (string \<times> string) option outcome" where
  "scan_quoted [] = Inr None"
| "scan_quoted (c # cs) =
     (if c = dquote then Inr (Some ([], cs))
      else if c = bslash then
        (case cs of
           [] \<Rightarrow> Inl (Runtime_Error (''missing '' @ [squote, dquote, squote] @ '' or '' @
                   [squote, bslash, squote] @ '' after '' @ [squote, bslash, squote]))
         | d # ds \<Rightarrow>
             if d \<notin> set escapee then
               Inl (Runtime_Error (''invalid escaped symbol '' @ quoted [bslash, d]))
             else obind (scan_quoted ds)
                    (\<lambda>r. Inr (map_option (\<lambda>(v, s). (c # d # v, s)) r)))
      else obind (scan_quoted cs) (\<lambda>r. Inr (map_option (\<lambda>(v, s). (c # v, s)) r)))"

text \<open>Dropping the backslash of every escape; no backslash may be the last character.\<close>

fun unescape :: "string \<Rightarrow> string" where
  "unescape [] = []"
| "unescape (c # cs) =
     (if c = bslash then (case cs of [] \<Rightarrow> [] | d # ds \<Rightarrow> d # unescape ds)
      else c # unescape cs)"

fun dangling :: "string \<Rightarrow> bool" where
  "dangling [] = False"
| "dangling (c # cs) =
     (if c = bslash then (case cs of [] \<Rightarrow> True | d # ds \<Rightarrow> dangling ds) else dangling cs)"

text \<open>The text between quotes that stands for a given value.\<close>

definition escape :: "string \<Rightarrow> string" where
  "escape s = concat (map (\<lambda>c. if c \<in> set escapee then [bslash, c] else [c]) s)"

lemma scan_quoted_shorter:
  "scan_quoted s = Inr (Some (v, r)) \<Longrightarrow> length v + length r < length s"
  by (induction s arbitrary: v r rule: scan_quoted.induct)
     (fastforce simp: outcome_simps split: if_splits list.splits)+

lemma skip_space_le: "length (skip_space s) \<le> length s"
  by (simp add: skip_space_def length_dropWhile_le)

lemma skip_space_Cons: "skip_space s = c # cs \<Longrightarrow> length cs < length s \<and> \<not> is_space c"
  using skip_space_le [of s] hd_dropWhile [of is_space s] by (auto simp: skip_space_def)

definition text_ends :: "bool \<Rightarrow> char \<Rightarrow> bool" where
  "text_ends start c = (c \<in> set (if start then token_delimiters else comment_chars))"

text \<open>The tokens of what is left of a line; \<open>start\<close> says that no token was found yet.\<close>

function lex :: "bool \<Rightarrow> string \<Rightarrow> token list outcome" where
  "lex start s =
     (case skip_space s of
        [] \<Rightarrow> Inr []
      | c # cs \<Rightarrow>
          if c = dquote then
            (case scan_quoted cs of
               Inl e \<Rightarrow> Inl e
             | Inr None \<Rightarrow> Inl (Runtime_Error ''unmatched quote'')
             | Inr (Some (v, r)) \<Rightarrow> obind (lex False r) (\<lambda>ts. Inr ((dquote, v) # ts)))
          else if c = CHR ''#'' \<and> start \<and> prefix include_word cs \<and>
                  (case drop (length include_word) cs of [] \<Rightarrow> True | d # _ \<Rightarrow> is_space d) then
            obind (lex False (drop (length include_word) cs))
              (\<lambda>ts. Inr ((CHR ''i'', include_word) # ts))
          else if c = CHR ''#'' \<or> c = CHR '';'' then Inr [(c, cs)]
          else if c = CHR ''='' then obind (lex False cs) (\<lambda>ts. Inr ((CHR ''='', [c]) # ts))
          else if c = CHR ''['' \<and> start then
            (if CHR '']'' \<in> set cs then
               obind (lex False (tl (dropWhile (\<lambda>x. x \<noteq> CHR '']'') cs)))
                 (\<lambda>ts. Inr ((CHR ''['', takeWhile (\<lambda>x. x \<noteq> CHR '']'') cs) # ts))
             else Inl (Runtime_Error (''unmatched '' @ [squote, CHR ''['', squote])))
          else
            obind (lex False (dropWhile (\<lambda>x. \<not> text_ends start x) cs))
              (\<lambda>ts. Inr ((CHR ''t'', c # takeWhile (\<lambda>x. \<not> text_ends start x) cs) # ts)))"
  by pat_completeness auto
termination
proof (relation "measure (\<lambda>(start, s). length s)", goal_cases)
  case (2 start s c cs a y v r)
  then have "length r < length cs" using scan_quoted_shorter by fastforce
  with 2 show ?case by (auto dest: skip_space_Cons)
next
  case (3 start s c cs)
  then show ?case by (auto dest: skip_space_Cons)
next
  case (4 start s c cs)
  then show ?case by (auto dest: skip_space_Cons)
next
  case (5 start s c cs)
  have "length (tl (dropWhile (\<lambda>x. x \<noteq> CHR '']'') cs)) \<le> length cs"
    using length_dropWhile_le [of "\<lambda>x. x \<noteq> CHR '']''" cs] by simp
  with 5 show ?case by (auto dest!: skip_space_Cons)
next
  case (6 start s c cs)
  have "length (dropWhile (\<lambda>x. \<not> text_ends start x) cs) \<le> length cs"
    by (rule length_dropWhile_le)
  with 6 show ?case by (auto dest!: skip_space_Cons)
qed simp

declare lex.simps [simp del]


section \<open>trim\<close>

lemma find_last_not_of_Some:
  "find_last_not_of s cs = Some k \<Longrightarrow>
     k < length s \<and> take (Suc k) s = rev (dropWhile (\<lambda>c. c \<in> set cs) (rev s))"
proof -
  assume a: "find_last_not_of s cs = Some k"
  then obtain j where j: "find_idx (\<lambda>c. c \<notin> set cs) (rev s) = Some j" and k: "k = length s - Suc j"
    by (auto simp: find_last_not_of_def)
  then have jl: "j < length s" using find_idx_bound by fastforce
  have "rev (drop j (rev s)) = take (length s - j) s" by (simp add: drop_rev)
  moreover have "drop j (rev s) = dropWhile (\<lambda>c. c \<in> set cs) (rev s)"
    using find_idx_dropWhile [OF j] by simp
  moreover have "Suc k = length s - j" using k jl by simp
  ultimately show ?thesis using k jl by simp
qed

lemma is_space_fun: "is_space = (\<lambda>c. c \<in> set space_chars)"
  by (rule ext) (simp add: is_space_def)

lemma trim_eq: "trim s = rev (dropWhile is_space (rev (skip_space s)))"
proof (cases "find_first_not_of s space_chars 0")
  case None
  then have all: "\<forall>c \<in> set s. is_space c"
    by (simp add: find_first_not_of_def find_from_def find_idx_None_iff is_space_def)
  then have "skip_space s = []" by (simp add: skip_space_def)
  then show ?thesis using None by (simp add: trim_def)
next
  case (Some k)
  then have k: "find_idx (\<lambda>c. c \<notin> set space_chars) s = Some k"
    by (simp add: find_first_not_of_def find_from_def option.map_ident)
  then have kl: "k < length s" and nk: "\<not> is_space (s ! k)" and lk: "\<forall>i < k. is_space (s ! i)"
    by (auto simp: find_idx_Some_iff is_space_def)
  have skip: "skip_space s = drop k s"
    using find_idx_dropWhile [OF k] by (simp add: skip_space_def is_space_fun)
  have "\<exists>c \<in> set (rev s). c \<notin> set space_chars"
    using kl nk by (auto simp: is_space_def)
  then obtain j where "find_idx (\<lambda>c. c \<notin> set space_chars) (rev s) = Some j"
    using find_idx_None_iff by (metis not_None_eq)
  then obtain l where l: "find_last_not_of s space_chars = Some l"
    by (simp add: find_last_not_of_def)
  have tl: "take (Suc l) s = rev (dropWhile is_space (rev s))" and ll: "l < length s"
    using find_last_not_of_Some [OF l] by (simp_all add: is_space_fun)
  have split: "rev s = rev (drop k s) @ rev (take k s)"
    by (metis append_take_drop_id rev_append)
  have hit: "\<exists>c \<in> set (rev (drop k s)). \<not> is_space c"
    using kl nk by (metis Cons_nth_drop_Suc list.set_intros(1) set_rev)
  then have "dropWhile is_space (rev s) = dropWhile is_space (rev (drop k s)) @ rev (take k s)"
    by (subst split) (meson dropWhile_append1)
  then have "take (Suc l) s = take k s @ rev (dropWhile is_space (rev (drop k s)))"
    using tl by simp
  moreover have "k \<le> l"
  proof (rule ccontr)
    assume "\<not> k \<le> l"
    then have "length (take (Suc l) s) \<le> k" by simp
    then have "dropWhile is_space (rev (drop k s)) = []"
      using calculation kl by auto
    with hit show False by (simp add: dropWhile_eq_Nil_conv)
  qed
  then have "take (Suc l) s = take k s @ take (l - k + 1) (drop k s)"
    by (metis Suc_diff_le Suc_eq_plus1 le_SucI le_add_diff_inverse take_add)
  ultimately show ?thesis using Some l skip by (simp add: trim_def)
qed

lemma all_dropWhile_iff: "(\<forall>x \<in> set (dropWhile P xs). P x) \<longleftrightarrow> (\<forall>x \<in> set xs. P x)"
  by (induction xs) auto

lemma trim_eq_Nil_iff: "trim s = [] \<longleftrightarrow> (\<forall>c \<in> set s. is_space c)"
  by (simp add: trim_eq skip_space_def dropWhile_eq_Nil_conv all_dropWhile_iff)


section \<open>find_quote and process_quoted_value\<close>

lemma scan_quoted_split:
  "scan_quoted s = Inr (Some (v, r)) \<Longrightarrow> s = v @ dquote # r \<and> \<not> dangling v"
proof (induction s arbitrary: v r rule: scan_quoted.induct)
  case 1
  then show ?case by simp
next
  case (2 c cs)
  consider "c = dquote" | "c = bslash" | "c \<noteq> dquote" "c \<noteq> bslash" by blast
  then show ?case
  proof cases
    case 1
    then show ?thesis using "2.prems" by simp
  next
    case 2
    then obtain d ds where cs: "cs = d # ds"
      using "2.prems" by (cases cs) simp_all
    with 2 "2.prems" have d: "d \<in> set escapee" by (cases "d \<in> set escapee") simp_all
    with 2 cs "2.prems" obtain v' where "scan_quoted ds = Inr (Some (v', r))" and "v = c # d # v'"
      by (auto simp: outcome_simps)
    moreover from this have "ds = v' @ dquote # r \<and> \<not> dangling v'"
      using 2 cs d "2.IH"(1) by blast
    ultimately show ?thesis using 2 cs by simp
  next
    case 3
    then obtain v' where "scan_quoted cs = Inr (Some (v', r))" and "v = c # v'"
      using "2.prems" by (auto simp: outcome_simps)
    moreover from this have "cs = v' @ dquote # r \<and> \<not> dangling v'"
      using 3 "2.IH"(2) by blast
    ultimately show ?thesis using 3 by simp
  qed
qed

lemma only_runtime_map [simp]: "only_runtime (obind m (\<lambda>r. Inr (f r))) \<longleftrightarrow> only_runtime m"
  by (cases m) auto

lemma scan_quoted_only_runtime: "only_runtime (scan_quoted s)"
proof (induction s rule: scan_quoted.induct)
  case 1
  then show ?case by simp
next
  case (2 c cs)
  show ?case
  proof (cases cs)
    case Nil
    then show ?thesis by simp
  next
    case (Cons d ds)
    show ?thesis
      using "2.IH" Cons
      by (simp add: scan_quoted.simps(2) [of c "d # ds"] del: scan_quoted.simps)
  qed
qed

definition at_offset :: "nat \<Rightarrow> (string \<times> string) option outcome \<Rightarrow> nat option outcome" where
  "at_offset i m = obind m (\<lambda>r. Inr (map_option (\<lambda>(v, _). i + length v) r))"

lemma at_offset_shift:
  "at_offset i (obind m (\<lambda>r. Inr (map_option (\<lambda>(v, s). (c # v, s)) r))) = at_offset (Suc i) m"
  "at_offset i (obind m (\<lambda>r. Inr (map_option (\<lambda>(v, s). (c # d # v, s)) r))) =
     at_offset (Suc (Suc i)) m"
  by (cases m; auto simp: at_offset_def option.map_comp comp_def split_def)+

lemma at_offset_simps [simp]:
  "at_offset i (Inl e) = Inl e"
  "at_offset i (Inr None) = Inr None"
  "at_offset i (Inr (Some (v, r))) = Inr (Some (i + length v))"
  by (simp_all add: at_offset_def)

lemma find_quote_loop_scan:
  "i \<le> length input \<Longrightarrow> find_quote_loop input i = at_offset i (scan_quoted (drop i input))"
proof (induction input i rule: find_quote_loop.induct)
  case (1 input i)
  show ?case
  proof (cases "i < length input")
    case False
    then show ?thesis by (subst find_quote_loop.simps) simp
  next
    case in_range: True
    then have split: "drop i input = input ! i # drop (Suc i) input"
      by (simp add: Cons_nth_drop_Suc)
    consider "input ! i = dquote" | "input ! i = bslash" | "input ! i \<noteq> dquote" "input ! i \<noteq> bslash"
      by blast
    then show ?thesis
    proof cases
      case 1
      then show ?thesis using in_range split by (subst find_quote_loop.simps) simp
    next
      case 2
      show ?thesis
      proof (cases "Suc i = length input")
        case True
        then show ?thesis using 2 in_range split by (subst find_quote_loop.simps) simp
      next
        case False
        with in_range have "Suc i < length input" by simp
        then have "drop (Suc i) input = input ! Suc i # drop (Suc (Suc i)) input"
          by (simp add: Cons_nth_drop_Suc)
        then show ?thesis using 2 in_range split False "1.IH"(1)
          by (subst find_quote_loop.simps) (auto simp: at_offset_shift)
      qed
    next
      case 3
      then show ?thesis using in_range split "1.IH"(2)
        by (subst find_quote_loop.simps) (auto simp: at_offset_shift)
    qed
  qed
qed

lemma find_quote_scan: "find_quote input = at_offset 0 (scan_quoted input)"
  by (simp add: find_quote_def find_quote_loop_scan)

lemma dangling_skip: "bslash \<notin> set xs \<Longrightarrow> dangling (xs @ ys) = dangling ys"
  by (induction xs) auto

lemma unescape_skip: "bslash \<notin> set xs \<Longrightarrow> unescape (xs @ ys) = xs @ unescape ys"
  by (induction xs) auto

lemma dangling_none: "bslash \<notin> set xs \<Longrightarrow> \<not> dangling xs"
  by (induction xs) auto

lemma unescape_none: "bslash \<notin> set xs \<Longrightarrow> unescape xs = xs"
  by (induction xs) auto

lemma find_char_None: "find_char s c i = None \<longleftrightarrow> c \<notin> set (drop i s)"
  by (auto simp: find_char_def find_from_def find_idx_None_iff)

lemma find_char_Some:
  "find_char s c i = Some k \<Longrightarrow>
     i \<le> k \<and> k < length s \<and> c \<notin> set (take (k - i) (drop i s)) \<and>
     drop i s = take (k - i) (drop i s) @ c # drop (Suc k) s"
proof -
  assume "find_char s c i = Some k"
  then obtain j where j: "find_idx (\<lambda>x. x = c) (drop i s) = Some j" and k: "k = i + j"
    by (auto simp: find_char_def find_from_def)
  then have jl: "j < length s - i" and hit: "drop i s ! j = c"
    using find_idx_Some_iff [of "\<lambda>x. x = c" "drop i s" j] by auto
  have "take j (drop i s) = takeWhile (\<lambda>x. x \<noteq> c) (drop i s)"
    using find_idx_takeWhile [OF j] by simp
  then have "c \<notin> set (take j (drop i s))" by (metis set_takeWhileD)
  moreover have "drop i s = take j (drop i s) @ drop i s ! j # drop (Suc j) (drop i s)"
    by (rule id_take_nth_drop) (use jl in simp)
  then have "drop i s = take j (drop i s) @ c # drop (Suc k) s"
    using hit k by (simp add: add.commute)
  ultimately show ?thesis using k jl by auto
qed

lemma take_between:
  "first \<le> i \<Longrightarrow> i \<le> k \<Longrightarrow>
     take (k - first) (drop first v) = take (i - first) (drop first v) @ take (k - i) (drop i v)"
proof -
  assume "first \<le> i" "i \<le> k"
  then have "k - first = (i - first) + (k - i)" and "drop (i - first) (drop first v) = drop i v"
    by simp_all
  then show ?thesis by (simp only: take_add)
qed

lemma quoted_at_backslash:
  assumes "find_char v bslash i = Some k" and "Suc k < length v"
  shows "dangling (drop i v) = dangling (drop (k + 2) v)"
    and "unescape (drop i v) = take (k - i) (drop i v) @ v ! Suc k # unescape (drop (k + 2) v)"
    and "take (k + 2 - (k + 1)) (drop (k + 1) v) = [v ! Suc k]"
proof -
  note found = find_char_Some [OF assms(1)]
  have sk: "drop (Suc k) v = v ! Suc k # drop (k + 2) v"
    using assms(2) by (simp add: Cons_nth_drop_Suc)
  have pre: "bslash \<notin> set (take (k - i) (drop i v))"
    and di: "drop i v = take (k - i) (drop i v) @ bslash # drop (Suc k) v"
    using found by simp_all
  show "dangling (drop i v) = dangling (drop (k + 2) v)"
    by (subst di) (simp only: sk dangling_skip [OF pre], simp)
  show "unescape (drop i v) = take (k - i) (drop i v) @ v ! Suc k # unescape (drop (k + 2) v)"
    by (subst di) (simp only: sk unescape_skip [OF pre], simp)
  show "take (k + 2 - (k + 1)) (drop (k + 1) v) = [v ! Suc k]" using sk by simp
qed

lemma process_quoted_loop_unescape:
  assumes "first \<le> i" and "i \<le> length value"
  shows "process_quoted_loop value i first res =
           (if dangling (drop i value) then Inl Assert_Failed
            else Inr (res @ take (i - first) (drop first value) @ unescape (drop i value)))"
  using assms
proof (induction "value" i first res rule: process_quoted_loop.induct)
  case (1 v i first res)
  show ?case
  proof (cases "find_char v bslash i")
    case None
    then have "bslash \<notin> set (drop i v)" by (simp add: find_char_None)
    moreover have "take (i - first) (drop first v) @ drop i v = drop first v"
      using "1.prems" by (metis append_take_drop_id drop_drop le_add_diff_inverse2)
    ultimately show ?thesis using None
      by (subst process_quoted_loop.simps) (simp add: dangling_none unescape_none)
  next
    case (Some k)
    note found = find_char_Some [OF Some]
    show ?thesis
    proof (cases "length v - k < 2")
      case True
      then have "drop (Suc k) v = []" by simp
      then have "drop i v = take (k - i) (drop i v) @ [bslash]" using found by simp
      then have "dangling (drop i v)"
        using found dangling_skip [of "take (k - i) (drop i v)" "[bslash]"] by simp
      then show ?thesis using True Some by (subst process_quoted_loop.simps) simp
    next
      case False
      then have k: "Suc k < length v" by simp
      have "process_quoted_loop v i first res =
          process_quoted_loop v (k + 2) (k + 1) (res @ take (k - first) (drop first v))"
        using False Some by (subst process_quoted_loop.simps) simp
      also have "\<dots> = (if dangling (drop (k + 2) v) then Inl Assert_Failed
           else Inr ((res @ take (k - first) (drop first v)) @
                 take (k + 2 - (k + 1)) (drop (k + 1) v) @ unescape (drop (k + 2) v)))"
        using "1.IH" [OF Some] False by simp
      finally show ?thesis
        using quoted_at_backslash [OF Some k] take_between [OF "1.prems"(1), of k v] found by simp
    qed
  qed
qed

lemma process_quoted_value_unescape:
  "process_quoted_value v = (if dangling v then Inl Assert_Failed else Inr (unescape v))"
  by (simp add: process_quoted_value_def process_quoted_loop_unescape)

section \<open>Escaping\<close>

lemma escape_Nil [simp]: "escape [] = []"
  by (simp add: escape_def)

lemma escape_Cons [simp]:
  "escape (c # s) = (if c \<in> set escapee then [bslash, c] else [c]) @ escape s"
  by (simp add: escape_def)

lemma unescape_escape: "unescape (escape s) = s"
  by (induction s) (auto simp: escapee_def)

lemma dangling_escape: "\<not> dangling (escape s)"
  by (induction s) (auto simp: escapee_def)

lemma scan_quoted_escape: "scan_quoted (escape s @ dquote # r) = Inr (Some (escape s, r))"
  by (induction s) (auto simp: escapee_def)

lemma process_quoted_escape: "process_quoted_value (escape s) = Inr s"
  by (simp add: process_quoted_value_unescape dangling_escape unescape_escape)


section \<open>The tokenizer agrees with the reference\<close>

lemma find_from_SomeD:
  assumes "find_from P s pos = Some k"
  shows "pos \<le> k" and "k < length s" and "P (s ! k)"
    and "take (k - pos) (drop pos s) = takeWhile (\<lambda>x. \<not> P x) (drop pos s)"
    and "drop k s = dropWhile (\<lambda>x. \<not> P x) (drop pos s)"
proof -
  obtain j where j: "find_idx P (drop pos s) = Some j" and k: "k = pos + j"
    using assms by (auto simp: find_from_def)
  show "pos \<le> k" and "k < length s"
    using assms by (auto dest: find_from_bounds)
  show "P (s ! k)" by (rule find_from_holds [OF assms])
  show "take (k - pos) (drop pos s) = takeWhile (\<lambda>x. \<not> P x) (drop pos s)"
    using find_idx_takeWhile [OF j] k by simp
  show "drop k s = dropWhile (\<lambda>x. \<not> P x) (drop pos s)"
    using find_idx_dropWhile [OF j] k by (simp add: add.commute)
qed

lemma find_from_NoneD: "find_from P s pos = None \<Longrightarrow> \<forall>x \<in> set (drop pos s). \<not> P x"
  by (auto simp: find_from_def find_idx_None_iff)

lemma lex_Nil [simp]: "lex start [] = Inr []"
  by (subst lex.simps) (simp add: skip_space_def)

lemma lex_space: "is_space x \<Longrightarrow> lex start (x # s) = lex start s"
  by (subst (1 2) lex.simps) (simp add: skip_space_def)

text \<open>
  What one turn of the loop contributes: the error, the rest of the line as one token, or one
  token and the position the next turn starts from.
\<close>

definition step_agrees :: "bool \<Rightarrow> string \<Rightarrow> string \<Rightarrow> token list \<Rightarrow> tok_flow outcome \<Rightarrow> bool" where
  "step_agrees start input s res m =
     (case m of
        Inl e \<Rightarrow> lex start s = Inl e
      | Inr (Tok_Return r) \<Rightarrow> (\<exists>t. r = res @ [t] \<and> lex start s = Inr [t])
      | Inr (Tok_Next l r) \<Rightarrow>
          (\<exists>t. r = res @ [t] \<and>
               lex start s = obind (lex False (drop (l + 1) input)) (\<lambda>ts. Inr (t # ts))))"

lemma lex_at_token:
  assumes "skip_space s = c # cs"
  shows "lex start s =
     (if c = dquote then
        (case scan_quoted cs of
           Inl e \<Rightarrow> Inl e
         | Inr None \<Rightarrow> Inl (Runtime_Error ''unmatched quote'')
         | Inr (Some (v, r)) \<Rightarrow> obind (lex False r) (\<lambda>ts. Inr ((dquote, v) # ts)))
      else if c = CHR ''#'' \<and> start \<and> prefix include_word cs \<and>
              (case drop (length include_word) cs of [] \<Rightarrow> True | d # _ \<Rightarrow> is_space d) then
        obind (lex False (drop (length include_word) cs))
          (\<lambda>ts. Inr ((CHR ''i'', include_word) # ts))
      else if c = CHR ''#'' \<or> c = CHR '';'' then Inr [(c, cs)]
      else if c = CHR ''='' then obind (lex False cs) (\<lambda>ts. Inr ((CHR ''='', [c]) # ts))
      else if c = CHR ''['' \<and> start then
        (if CHR '']'' \<in> set cs then
           obind (lex False (tl (dropWhile (\<lambda>x. x \<noteq> CHR '']'') cs)))
             (\<lambda>ts. Inr ((CHR ''['', takeWhile (\<lambda>x. x \<noteq> CHR '']'') cs) # ts))
         else Inl (Runtime_Error (''unmatched '' @ [squote, CHR ''['', squote])))
      else
        obind (lex False (dropWhile (\<lambda>x. \<not> text_ends start x) cs))
          (\<lambda>ts. Inr ((CHR ''t'', c # takeWhile (\<lambda>x. \<not> text_ends start x) cs) # ts)))"
  by (subst lex.simps) (simp only: assms list.case)

lemma step_quote:
  assumes first: "skip_space s = dquote # cs"
    and cs: "cs = drop (f + 1) input" and f: "f < length input"
  shows "step_agrees start input s res (tok_quote input f res)"
proof -
  have "sv_suffix input (f + 1) = Inr cs" using f cs by (simp add: sv_simps)
  moreover have "find_quote cs = at_offset 0 (scan_quoted cs)" by (rule find_quote_scan)
  moreover have "sv_substr input (f + 1) (length v) = Inr v \<and> drop (f + 1 + length v + 1) input = r"
    if "scan_quoted cs = Inr (Some (v, r))" for v r
  proof -
    from that have split: "cs = v @ dquote # r" using scan_quoted_split by blast
    then have "take (length v) (drop (f + 1) input) = v" and "drop (length v + 1) cs = r"
      using cs by simp_all
    then show ?thesis using f cs by (simp add: sv_simps add.commute)
  qed
  ultimately show ?thesis
    unfolding tok_quote_def step_agrees_def
    by (auto simp: lex_at_token [OF first] split: sum.splits option.splits prod.splits)
qed

lemma step_comment:
  assumes first: "skip_space s = c # cs"
    and cs: "cs = drop (f + 1) input" and f: "f < length input"
    and c: "c = CHR '';'' \<or> c = CHR ''#'' \<and>
             \<not> (start \<and> prefix include_word cs \<and>
                (case drop (length include_word) cs of [] \<Rightarrow> True | d # _ \<Rightarrow> is_space d))"
  shows "step_agrees start input s res (tok_comment input f c res)"
  using f c unfolding tok_comment_def step_agrees_def cs
  by (auto simp: lex_at_token [OF first [unfolded cs]] sv_simps)

lemma include_ends:
  assumes "drop (n + 1) input = rest" and "length input = n + 1 + length rest"
  shows "(if n + 1 = length input then Inr True
          else obind (sv_at input (n + 1)) (\<lambda>c. Inr (is_space c))) =
         Inr (case rest of [] \<Rightarrow> True | d # _ \<Rightarrow> is_space d)"
proof (cases rest)
  case Nil
  then show ?thesis using assms(2) by simp
next
  case (Cons d ds)
  then have "input ! (n + 1) = d" using drop_eq_ConsD [of "n + 1" input d ds] assms(1) by simp
  then show ?thesis using Cons assms(2) by (simp add: sv_simps)
qed

lemma step_hash:
  assumes first: "skip_space s = CHR ''#'' # cs"
    and cs: "cs = drop (f + 1) input" and f: "f < length input"
    and res: "start \<longleftrightarrow> res = []"
  shows "step_agrees start input s res (tok_hash input f res)"
proof (cases "res = [] \<and> prefix include_word cs")
  case False
  then show ?thesis
    using step_comment [OF first cs f, of start res] f res cs
    by (auto simp: tok_hash_def sv_simps)
next
  case True
  then obtain rest where rest: "cs = include_word @ rest" by (auto simp: prefix_def)
  let ?n = "f + length include_word"
  have drop_rest: "drop (?n + 1) input = rest"
    using rest cs by (metis add.commute add.left_commute append_eq_conv_conj drop_drop)
  have lens: "length input = ?n + 1 + length rest"
    using f cs rest by (metis Suc_eq_plus1 Suc_leI add.assoc add.commute le_add_diff_inverse length_append length_drop)
  have pre: "sv_substr input (f + 1) (length include_word) = Inr include_word"
    using rest f unfolding cs by (simp add: sv_simps)
  have suf: "sv_suffix input (f + 1) = Inr cs" using f cs by (simp add: sv_simps)
  have hash: "tok_hash input f res =
      (if case rest of [] \<Rightarrow> True | d # _ \<Rightarrow> is_space d
       then Inr (Tok_Next ?n (res @ [(CHR ''i'', include_word)]))
       else tok_comment input f (CHR ''#'') res)"
    unfolding tok_hash_def suf using True include_ends [OF drop_rest lens] pre
    by (simp add: Let_def)
  show ?thesis
    using hash True res rest drop_rest step_comment [OF first cs f, of start res]
    by (cases "case rest of [] \<Rightarrow> True | d # _ \<Rightarrow> is_space d")
       (simp_all add: step_agrees_def lex_at_token [OF first])
qed

lemma step_assign:
  assumes first: "skip_space s = CHR ''='' # cs"
    and cs: "cs = drop (f + 1) input" and f: "f < length input" and c: "input ! f = CHR ''=''"
  shows "step_agrees start input s res (tok_assign input f res)"
  using f c cs
  by (simp add: tok_assign_def step_agrees_def lex_at_token [OF first] sv_simps
      Cons_nth_drop_Suc [symmetric])

lemma step_section:
  assumes first: "skip_space s = CHR ''['' # cs"
    and cs: "cs = drop (f + 1) input" and f: "f < length input"
    and start: "start"
    and lst: "lst + 1 = length input \<Longrightarrow> cs = []"
  shows "step_agrees start input s res (tok_section input f lst res)"
proof (cases "find_char input (CHR '']'') (f + 1)")
  case None
  then have "CHR '']'' \<notin> set cs" using cs find_char_None by blast
  then show ?thesis
    using None start
    by (simp add: tok_section_def step_agrees_def lex_at_token [OF first] Let_def)
next
  case (Some k)
  then have "find_from (\<lambda>x. x = CHR '']'') input (f + 1) = Some k" by (simp add: find_char_def)
  note k = find_from_SomeD [OF this]
  have "input ! k = CHR '']''" using k(3) .
  then have hit: "CHR '']'' \<in> set cs"
    using k(1,2) unfolding cs by (auto simp: in_set_conv_nth intro!: exI [of _ "k - (f + 1)"])
  have "tl (drop k input) = drop (k + 1) input" by (simp add: drop_Suc tl_drop)
  then have rest: "drop (k + 1) input = tl (dropWhile (\<lambda>x. x \<noteq> CHR '']'') cs)"
    using k(5) cs by simp
  have "sv_substr input (f + 1) (k - f - 1) = Inr (takeWhile (\<lambda>x. x \<noteq> CHR '']'') cs)"
    using k(4) cs f by (simp add: sv_simps)
  moreover have "lst + 1 \<noteq> length input" using hit lst by auto
  ultimately show ?thesis
    using Some start hit rest
    by (simp add: tok_section_def step_agrees_def lex_at_token [OF first])
qed

lemma lex_text:
  assumes first: "skip_space s = c # cs"
    and other: "c \<noteq> dquote" "c \<noteq> CHR ''#''" "c \<noteq> CHR '';''" "c \<noteq> CHR ''=''"
      "\<not> (c = CHR ''['' \<and> start)"
  shows "lex start s = obind (lex False (dropWhile (\<lambda>x. \<not> text_ends start x) cs))
    (\<lambda>ts. Inr ((CHR ''t'', c # takeWhile (\<lambda>x. \<not> text_ends start x) cs) # ts))"
  using other by (auto simp: lex_at_token [OF first])

lemma step_text_end:
  assumes first: "skip_space s = c # cs" and whole: "drop f input = c # cs" and f: "f < length input"
    and other: "c \<noteq> dquote" "c \<noteq> CHR ''#''" "c \<noteq> CHR '';''" "c \<noteq> CHR ''=''"
      "\<not> (c = CHR ''['' \<and> start)"
    and none: "\<forall>x \<in> set cs. \<not> text_ends start x"
  shows "step_agrees start input s res
      (obind (sv_suffix input f) (\<lambda>v. Inr (Tok_Return (res @ [(CHR ''t'', v)]))))"
proof -
  have tw: "takeWhile (\<lambda>x. \<not> text_ends start x) cs = cs"
    using none by (simp add: takeWhile_eq_all_conv)
  have dw: "dropWhile (\<lambda>x. \<not> text_ends start x) cs = []"
    using none by (simp add: dropWhile_eq_Nil_conv)
  show ?thesis
    using lex_text [OF first other] f unfolding tw dw by (simp add: step_agrees_def sv_simps whole)
qed

lemma step_text:
  assumes first: "skip_space s = c # cs"
    and cs: "cs = drop (f + 1) input" and f: "f < length input" and c: "input ! f = c"
    and res: "start \<longleftrightarrow> res = []"
    and lst: "lst + 1 = length input \<Longrightarrow> cs = []"
    and other: "c \<noteq> dquote" "c \<noteq> CHR ''#''" "c \<noteq> CHR '';''" "c \<noteq> CHR ''=''"
      "\<not> (c = CHR ''['' \<and> start)"
  shows "step_agrees start input s res (tok_text input f lst res)"
proof -
  let ?delims = "if res = [] then token_delimiters else comment_chars"
  have ends: "text_ends start = (\<lambda>x. x \<in> set ?delims)"
    using res by (intro ext) (simp add: text_ends_def)
  have whole: "drop f input = c # cs" using cs Cons_nth_drop_Suc [OF f] c by simp
  note to_end = step_text_end [OF first whole f other]
  show ?thesis
  proof (cases "lst + 1 = length input \<or> find_first_of input ?delims (f + 1) = None")
    case True
    then have "\<forall>x \<in> set cs. \<not> text_ends start x"
      using lst find_from_NoneD cs ends by (metis (no_types, lifting) find_first_of_def list.set(1) empty_iff)
    moreover have "tok_text input f lst res =
        obind (sv_suffix input f) (\<lambda>v. Inr (Tok_Return (res @ [(CHR ''t'', v)])))"
      using True by (auto simp: tok_text_def Let_def)
    ultimately show ?thesis using to_end by simp
  next
    case False
    then obtain k where Some: "find_first_of input ?delims (f + 1) = Some k" by blast
    then have "find_from (text_ends start) input (f + 1) = Some k"
      unfolding ends find_first_of_def .
    note k = find_from_SomeD [OF this]
    have "k - f = Suc (k - (f + 1))" using k(1) by simp
    then have token: "sv_substr input f (k - f) =
        Inr (c # takeWhile (\<lambda>x. \<not> text_ends start x) cs)"
      using k(4) f whole cs by (simp add: sv_simps)
    have "drop k input = input ! k # drop (k + 1) input"
      using k(2) by (simp add: Cons_nth_drop_Suc)
    then have rest: "lex False (dropWhile (\<lambda>x. \<not> text_ends start x) cs) =
        lex False (drop ((if is_space (input ! k) then k else k - 1) + 1) input)"
      using k(1,5) cs by (auto simp: lex_space)
    show ?thesis
      using Some False token k(2) rest lex_text [OF first other]
      by (auto simp: tok_text_def step_agrees_def Let_def sv_simps)
  qed
qed

lemma tok_step_agrees:
  assumes first: "skip_space s = c # cs"
    and cs: "cs = drop (f + 1) input" and f: "f < length input" and c: "input ! f = c"
    and res: "start \<longleftrightarrow> res = []"
    and lst: "lst + 1 = length input \<Longrightarrow> cs = []"
  shows "step_agrees start input s res (tok_step input f lst res)"
proof -
  consider "c = dquote" | "c = CHR ''#''" | "c = CHR '';''" | "c = CHR ''=''"
    | "c = CHR ''[''" "start"
    | "c \<noteq> dquote" "c \<noteq> CHR ''#''" "c \<noteq> CHR '';''" "c \<noteq> CHR ''=''" "\<not> (c = CHR ''['' \<and> start)"
    by blast
  then show ?thesis
  proof cases
    case 1
    with first c show ?thesis using step_quote [OF _ cs f] by (simp add: tok_step_def)
  next
    case 2
    with first c show ?thesis using step_hash [OF _ cs f res] by (simp add: tok_step_def)
  next
    case 3
    with first c show ?thesis using step_comment [OF first cs f] by (simp add: tok_step_def)
  next
    case 4
    with first c show ?thesis using step_assign [OF _ cs f] by (simp add: tok_step_def)
  next
    case 5
    with first c res show ?thesis using step_section [OF _ cs f _ lst] by (simp add: tok_step_def)
  next
    case 6
    then show ?thesis
      using step_text [OF first cs f c res lst] c res by (auto simp: tok_step_def Let_def)
  qed
qed

lemma tok_loop_step:
  "f < length input \<Longrightarrow> tok_loop input (Some f) lst res =
      (case tok_step input f lst res of
         Inl e \<Rightarrow> Inl e
       | Inr (Tok_Return r) \<Rightarrow> Inr r
       | Inr (Tok_Next l r) \<Rightarrow> tok_loop input (find_first_not_of input space_chars (l + 1)) l r)"
  by (subst tok_loop.simps) simp

lemma skip_space_found:
  "find_first_not_of input space_chars pos = None \<Longrightarrow> skip_space (drop pos input) = []"
  "find_first_not_of input space_chars pos = Some f \<Longrightarrow>
     pos \<le> f \<and> f < length input \<and> skip_space (drop pos input) = input ! f # drop (f + 1) input"
proof -
  assume "find_first_not_of input space_chars pos = None"
  then have "\<forall>x \<in> set (drop pos input). is_space x"
    unfolding find_first_not_of_def is_space_def by (blast dest: find_from_NoneD)
  then show "skip_space (drop pos input) = []" by (simp add: skip_space_def)
next
  assume "find_first_not_of input space_chars pos = Some f"
  then have "find_from (\<lambda>c. c \<notin> set space_chars) input pos = Some f"
    by (simp add: find_first_not_of_def)
  note f = find_from_SomeD [OF this]
  then show "pos \<le> f \<and> f < length input \<and> skip_space (drop pos input) = input ! f # drop (f + 1) input"
    by (simp add: skip_space_def is_space_fun Cons_nth_drop_Suc)
qed

lemma tok_loop_lex:
  assumes "if start then res = [] \<and> lst = 0 \<and> pos = 0 else res \<noteq> [] \<and> pos = lst + 1"
  shows "tok_loop input (find_first_not_of input space_chars pos) lst res =
           obind (lex start (drop pos input)) (\<lambda>ts. Inr (res @ ts))"
  using assms
proof (induction "length input - pos" arbitrary: start pos lst res rule: less_induct)
  case less
  show ?case
  proof (cases "find_first_not_of input space_chars pos")
    case None
    then have "lex start (drop pos input) = Inr []" by (subst lex.simps) (simp add: skip_space_found)
    then show ?thesis using None by (subst tok_loop.simps) simp
  next
    case (Some f)
    note f = skip_space_found(2) [OF Some]
    then have at_end: "lst + 1 = length input \<Longrightarrow> drop (f + 1) input = []"
      using less.prems by (auto split: if_splits)
    have start: "start \<longleftrightarrow> res = []" using less.prems by (auto split: if_splits)
    have agrees: "step_agrees start input (drop pos input) res (tok_step input f lst res)"
      using f tok_step_agrees [OF _ refl _ refl start at_end] by blast
    note loop = tok_loop_step [of f input lst res]
    show ?thesis
    proof (cases "\<exists>l r. tok_step input f lst res = Inr (Tok_Next l r)")
      case False
      then show ?thesis using Some loop agrees f
        by (auto simp: step_agrees_def split: sum.splits tok_flow.splits)
    next
      case True
      then obtain l r where Next: "tok_step input f lst res = Inr (Tok_Next l r)" by blast
      with agrees obtain t where r: "r = res @ [t]"
        and lx: "lex start (drop pos input) = obind (lex False (drop (l + 1) input)) (\<lambda>ts. Inr (t # ts))"
        by (auto simp: step_agrees_def)
      have "length input - (l + 1) < length input - pos"
        using tok_step_progress [OF Next] f by auto
      then have "tok_loop input (find_first_not_of input space_chars (l + 1)) l r =
          obind (lex False (drop (l + 1) input)) (\<lambda>ts. Inr (r @ ts))"
        by (rule less.hyps) (simp add: r)
      then show ?thesis using Some loop Next lx r f
        by (cases "lex False (drop (l + 1) input)") simp_all
    qed
  qed
qed

lemma tokenize_lex: "tokenize input = lex True input"
  using tok_loop_lex [of True "[]" 0 0 input]
  by (cases "lex True input") (simp_all add: tokenize_def)

end
