(* ===== verification/Ini_Tokens.thy ===== *)
theory Ini_Tokens
  imports Ini_Scanner
begin

text \<open>
  What \<^verbatim>\<open>tokenize\<close> promises its caller: it ends in a token list or in a
  \<^verbatim>\<open>std::runtime_error\<close>, never in an out-of-range access, and a token list it returns has
  the shape the parser relies on.
\<close>

section \<open>The shape of a token list\<close>

definition token_ok :: "bool \<Rightarrow> token \<Rightarrow> bool" where
  "token_ok start t =
     (let k = fst t; v = snd t in
      if k = CHR ''t'' then
        v \<noteq> [] \<and> \<not> is_space (hd v) \<and> hd v \<noteq> dquote \<and> hd v \<noteq> CHR ''='' \<and>
        (\<forall>c \<in> set (tl v). \<not> text_ends start c)
      else if k = dquote then \<not> dangling v
      else if k = CHR ''='' then v = ''=''
      else if k = CHR ''i'' then start \<and> v = include_word
      else if k = CHR ''['' then start \<and> CHR '']'' \<notin> set v
      else k = CHR ''#'' \<or> k = CHR '';'')"

text \<open>A comment is the last token; behind an unquoted value there is at most a comment.\<close>

fun wf_tokens :: "bool \<Rightarrow> token list \<Rightarrow> bool" where
  "wf_tokens start [] = True"
| "wf_tokens start (t # ts) =
     (token_ok start t \<and> (is_comment t \<longrightarrow> ts = []) \<and>
      (fst t = CHR ''t'' \<and> \<not> start \<longrightarrow> ts = [] \<or> is_comment (hd ts)) \<and>
      wf_tokens False ts)"

lemma lex_only_runtime: "only_runtime (lex start s)"
proof (induction start s rule: lex.induct)
  case (1 start s)
  show ?case
  proof (cases "skip_space s")
    case Nil
    then show ?thesis by (subst lex.simps) simp
  next
    case (Cons c cs)
    note IH = "1.IH" [OF Cons]
    show ?thesis
    proof (cases "c = dquote")
      case True
      then show ?thesis
        using scan_quoted_only_runtime [of cs] IH(1)
        by (cases "scan_quoted cs") (auto simp: lex_at_token [OF Cons] split: option.splits)
    next
      case False
      then show ?thesis using IH(2-) by (auto simp: lex_at_token [OF Cons])
    qed
  qed
qed

text \<open>What follows a value that ends at a comment character is that comment, or nothing.\<close>

lemma lex_comment_head:
  assumes "s = [] \<or> hd s \<in> set comment_chars" and "lex False s = Inr ts"
  shows "ts = [] \<or> is_comment (hd ts)"
proof (cases s)
  case Nil
  with assms(2) show ?thesis by simp
next
  case (Cons c cs)
  with assms(1) have c: "c = CHR ''#'' \<or> c = CHR '';''" by (simp add: comment_chars_eq)
  then have "skip_space s = c # cs"
    using Cons by (auto simp: skip_space_def is_space_eq)
  then have "lex False s = Inr [(c, cs)]" using c by (auto simp: lex_at_token)
  with assms(2) c show ?thesis by (auto simp: is_comment_def)
qed

lemma dropWhile_comment_head:
  "dropWhile (\<lambda>x. \<not> text_ends False x) s = [] \<or>
   hd (dropWhile (\<lambda>x. \<not> text_ends False x) s) \<in> set comment_chars"
  using hd_dropWhile [of "\<lambda>x. \<not> text_ends False x" s] by (auto simp: text_ends_def)

text \<open>The reference lexer by the kind of its first token.\<close>

definition include_ahead :: "string \<Rightarrow> bool" where
  "include_ahead cs \<longleftrightarrow> prefix include_word cs \<and>
     (case drop (length include_word) cs of [] \<Rightarrow> True | d # _ \<Rightarrow> is_space d)"

lemma lex_first:
  assumes "skip_space s = c # cs" and "lex start s = Inr ts"
  obtains (quoted) v r ts' where "c = dquote" "scan_quoted cs = Inr (Some (v, r))"
      "lex False r = Inr ts'" "ts = (dquote, v) # ts'"
  | (incl) ts' where "c = CHR ''#''" "start" "include_ahead cs"
      "lex False (drop (length include_word) cs) = Inr ts'" "ts = (CHR ''i'', include_word) # ts'"
  | (comment) "c = CHR '';'' \<or> c = CHR ''#''" "ts = [(c, cs)]"
  | (assign) ts' where "c = CHR ''=''" "lex False cs = Inr ts'" "ts = (CHR ''='', ''='') # ts'"
  | (header) ts' where "c = CHR ''[''" "start" "CHR '']'' \<in> set cs"
      "lex False (tl (dropWhile (\<lambda>x. x \<noteq> CHR '']'') cs)) = Inr ts'"
      "ts = (CHR ''['', takeWhile (\<lambda>x. x \<noteq> CHR '']'') cs) # ts'"
  | (plain) ts' where "c \<notin> {dquote, CHR ''#'', CHR '';'', CHR ''=''}" "\<not> (c = CHR ''['' \<and> start)"
      "lex False (dropWhile (\<lambda>x. \<not> text_ends start x) cs) = Inr ts'"
      "ts = (CHR ''t'', c # takeWhile (\<lambda>x. \<not> text_ends start x) cs) # ts'"
proof -
  note lexed = assms(2) [unfolded lex_at_token [OF assms(1)]]
  consider "c = dquote" | "c = CHR ''#''" "start \<and> include_ahead cs"
    | "c = CHR '';'' \<or> c = CHR ''#''" "\<not> (c = CHR ''#'' \<and> start \<and> include_ahead cs)"
    | "c = CHR ''=''" | "c = CHR ''['' \<and> start"
    | "c \<notin> {dquote, CHR ''#'', CHR '';'', CHR ''=''}" "\<not> (c = CHR ''['' \<and> start)" by blast
  then show thesis
  proof cases
    case 1
    with lexed quoted show ?thesis by (auto simp: outcome_simps split: sum.splits option.splits)
  next
    case 2
    with lexed incl show ?thesis by (auto simp: outcome_simps include_ahead_def)
  next
    case 3
    with lexed comment show ?thesis by (auto simp: include_ahead_def)
  next
    case 4
    with lexed assign show ?thesis by (auto simp: outcome_simps)
  next
    case 5
    with lexed header show ?thesis by (auto simp: outcome_simps split: if_splits)
  next
    case 6
    with lexed plain show ?thesis by (auto simp: outcome_simps)
  qed
qed

lemma lex_wf: "lex start s = Inr ts \<Longrightarrow> wf_tokens start ts"
proof (induction start s arbitrary: ts rule: lex.induct)
  case (1 start s)
  show ?case
  proof (cases "skip_space s")
    case Nil
    then show ?thesis using "1.prems" by (subst (asm) lex.simps) simp
  next
    case (Cons c cs)
    note IH = "1.IH" [OF Cons]
    from Cons "1.prems" show ?thesis
    proof (cases rule: lex_first)
      case (quoted v r ts')
      have "wf_tokens False ts'" by (rule IH(1) [OF quoted(1,2) refl refl quoted(3)])
      then show ?thesis
        using quoted scan_quoted_split [OF quoted(2)] by (simp add: token_ok_def is_comment_def)
    next
      case (incl ts')
      then show ?thesis using IH(2) by (simp add: token_ok_def is_comment_def include_ahead_def)
    next
      case comment
      then show ?thesis by (auto simp: token_ok_def is_comment_def)
    next
      case (assign ts')
      then show ?thesis using IH(3) by (simp add: token_ok_def is_comment_def)
    next
      case (header ts')
      moreover have "CHR '']'' \<notin> set (takeWhile (\<lambda>x. x \<noteq> CHR '']'') cs)"
        by (auto dest: set_takeWhileD)
      ultimately show ?thesis using IH(4) by (simp add: token_ok_def is_comment_def)
    next
      case (plain ts')
      then have "wf_tokens False ts'" using IH(5) by auto
      moreover have "\<not> is_space c" using Cons skip_space_Cons by blast
      moreover have "\<forall>x \<in> set (takeWhile (\<lambda>x. \<not> text_ends start x) cs). \<not> text_ends start x"
        by (auto dest: set_takeWhileD)
      moreover have "\<not> start \<longrightarrow> ts' = [] \<or> is_comment (hd ts')"
        using lex_comment_head [OF dropWhile_comment_head [of cs]] plain(3) by (cases start) auto
      ultimately show ?thesis using plain by (auto simp: token_ok_def is_comment_def)
    qed
  qed
qed

lemma tokenize_only_runtime: "only_runtime (tokenize input)"
  by (simp add: tokenize_lex lex_only_runtime)

lemma tokenize_wf: "tokenize input = Inr ts \<Longrightarrow> wf_tokens True ts"
  by (simp add: tokenize_lex lex_wf)

end
