(* ===== verification/Fs_Path.thy ===== *)
theory Fs_Path
  imports Fb_Prelude
begin

text \<open>
  The part of \<^verbatim>\<open>std::filesystem\<close> the ini parser uses.  A path is its POSIX string; the
  lexical operations (\<^verbatim>\<open>is_absolute\<close>, \<^verbatim>\<open>parent_path\<close>, \<^verbatim>\<open>operator/\<close>,
  \<^verbatim>\<open>operator==\<close>) are the standard library's.  What the file system holds is not part
  of the program: a \<open>filesystem\<close> record carries the answers of the queries, and the
  theorems about a property of those answers name it as a hypothesis.
\<close>

type_synonym path = string

abbreviation slash :: char where "slash \<equiv> CHR ''/''"

section \<open>Lexical operations\<close>

definition is_absolute :: "path \<Rightarrow> bool" where
  "is_absolute p = (p \<noteq> [] \<and> hd p = slash)"

text \<open>\<^verbatim>\<open>p / q\<close>: an absolute right operand replaces the left one; otherwise a separator is
  put between them when the left one ends in a file name.\<close>

definition path_append :: "path \<Rightarrow> path \<Rightarrow> path" where
  "path_append p q =
     (if is_absolute q then q
      else if p \<noteq> [] \<and> last p \<noteq> slash then p @ [slash] @ q
      else p @ q)"

text \<open>The longest prefix with one element less: the file name (or the empty name behind a trailing
  separator) and the separators before it are removed, the root directory stays.\<close>

definition parent_path :: "path \<Rightarrow> path" where
  "parent_path p =
     (let root = takeWhile (\<lambda>c. c = slash) p; rel = dropWhile (\<lambda>c. c = slash) p in
      if rel = [] then p
      else root @ rev (dropWhile (\<lambda>c. c = slash) (dropWhile (\<lambda>c. c \<noteq> slash) (rev rel))))"

text \<open>The elements a path iterates over behind its root directory; equality of paths compares them
  and whether there is a root directory.\<close>

definition path_elements :: "path \<Rightarrow> string list" where
  "path_elements p =
     (let rel = dropWhile (\<lambda>c. c = slash) p in
      if rel = [] then []
      else filter (\<lambda>e. e \<noteq> []) (split_on slash rel) @ (if last rel = slash then [[]] else []))"

definition path_eq :: "path \<Rightarrow> path \<Rightarrow> bool" where
  "path_eq p q = (is_absolute p = is_absolute q \<and> path_elements p = path_elements q)"

lemma path_eq_refl [simp]: "path_eq p p"
  by (simp add: path_eq_def)

lemma path_eq_sym: "path_eq p q \<Longrightarrow> path_eq q p"
  by (simp add: path_eq_def)

lemma path_append_absolute: "is_absolute p \<Longrightarrow> is_absolute (path_append p q)"
  by (auto simp: path_append_def is_absolute_def)

lemma parent_path_absolute: "is_absolute p \<Longrightarrow> is_absolute (parent_path p)"
  by (cases p) (auto simp: is_absolute_def parent_path_def Let_def)

section \<open>The file system\<close>

text \<open>
  \<open>open_file\<close> is the content an \<^verbatim>\<open>ifstream\<close> would read, \<open>None\<close> when it cannot be
  opened.  The queries that throw carry the \<^verbatim>\<open>what()\<close> of the
  \<^verbatim>\<open>filesystem_error\<close>, which is a \<^verbatim>\<open>std::runtime_error\<close>.
\<close>

record filesystem =
  open_file :: "path \<Rightarrow> string option"
  canonical :: "path \<Rightarrow> string + path"
  weakly_canonical :: "path \<Rightarrow> string + path"
  is_directory :: "path \<Rightarrow> string + bool"

definition fs_call :: "string + 'a \<Rightarrow> 'a outcome" where
  "fs_call m = (case m of Inl msg \<Rightarrow> Inl (Runtime_Error msg) | Inr x \<Rightarrow> Inr x)"

lemma fs_call_Inr_iff [outcome_simps]: "fs_call m = Inr x \<longleftrightarrow> m = Inr x"
  by (cases m) (auto simp: fs_call_def)

lemma fs_call_simps [simp]: "fs_call (Inr x) = Inr x" "fs_call (Inl msg) = Inl (Runtime_Error msg)"
  by (simp_all add: fs_call_def)

lemma only_runtime_fs_call [simp]: "only_runtime (fs_call m)"
  by (cases m) auto

text \<open>Every path \<^verbatim>\<open>canonical\<close> can answer with.\<close>

definition canonical_paths :: "filesystem \<Rightarrow> path set" where
  "canonical_paths fs = {q. \<exists>p. canonical fs p = Inr q}"

text \<open>Documented of \<^verbatim>\<open>canonical\<close>: the path it returns is absolute.\<close>

definition canonical_absolute :: "filesystem \<Rightarrow> bool" where
  "canonical_absolute fs \<longleftrightarrow> (\<forall>q \<in> canonical_paths fs. is_absolute q)"

end
