(* ===== verification/Ini_Parser.thy ===== *)
theory Ini_Parser
  imports Ini_Tokens Fs_Path
begin

text \<open>
  The parser class of \<^verbatim>\<open>utils/ini_parser/ini_parser.cpp\<close>: its state, the handling of
  \<^verbatim>\<open>#include\<close>, sections and assignments, the loop over the lines of a stream and the two
  entry points \<^verbatim>\<open>utils::v1::ini::parse\<close>.  The recursion of \<^verbatim>\<open>operator()\<close> through
  \<^verbatim>\<open>process_include\<close> takes a fuel; the termination theorem bounds it by the number of files.
\<close>

section \<open>State\<close>

type_synonym pairs = "(string \<times> string) list"

record ini_state =
  ini_values :: pairs
  ini_includes :: "path list"

definition empty_state :: ini_state where
  "empty_state = \<lparr>ini_values = [], ini_includes = []\<rparr>"

text \<open>The recursive call \<^verbatim>\<open>(*this)(f, path)\<close>: the characters of the stream, its file
  name, and the state before and after.\<close>

type_synonym nested_call = "string \<Rightarrow> path \<Rightarrow> ini_state \<Rightarrow> ini_state outcome"


section \<open>#include\<close>

definition filename_expected :: "ini_state outcome" where
  "filename_expected = Inl (Runtime_Error (''filename expected after '' @ quoted ''#include''))"

definition include_filename :: "token \<Rightarrow> path outcome" where
  "include_filename t =
     (if fst t = CHR ''t'' then Inr (trim (snd t))
      else if fst t = dquote then
        obind (process_quoted_value (snd t)) (\<lambda>unquoted. Inr (trim unquoted))
      else Inl (Runtime_Error
        (''filename expected after '' @ quoted ''#include'' @ '', '' @ quoted (snd t) @ '' - found'')))"

text \<open>The message of an include cycle lists the stack from the first occurrence on.\<close>

definition cycle_message :: "path list \<Rightarrow> path \<Rightarrow> path \<Rightarrow> string" where
  "cycle_message cycle filename file_path =
     ''include cycle : '' @ concat (map (\<lambda>p. [newline, tab_char] @ p) cycle) @
     [newline, tab_char] @ ''-->'' @ filename @ '' ['' @ file_path @ '']''"

definition include_file :: "filesystem \<Rightarrow> nested_call \<Rightarrow> path \<Rightarrow> ini_state \<Rightarrow> ini_state outcome" where
  "include_file fs rec filename st =
     obind (if is_absolute filename then Inr filename
            else if ini_includes st = [] then Inl Undefined
            else Inr (path_append (parent_path (last (ini_includes st))) filename)) (\<lambda>file_path.
       case open_file fs file_path of
         None \<Rightarrow> Inl (Runtime_Error (''can'' @ [squote] @ ''t open #include file '' @
                   quoted filename @ '' -> '' @ quoted file_path))
       | Some content \<Rightarrow>
           obind (fs_call (canonical fs file_path)) (\<lambda>canon.
             let cycle = dropWhile (\<lambda>p. \<not> path_eq p canon) (ini_includes st) in
             if cycle \<noteq> [] then Inl (Runtime_Error (cycle_message cycle filename canon))
             else rec content canon st))"

definition process_include ::
  "filesystem \<Rightarrow> nested_call \<Rightarrow> token list \<Rightarrow> ini_state \<Rightarrow> ini_state outcome" where
  "process_include fs rec tokens st =
     (case tokens of
        [] \<Rightarrow> Inl Assert_Failed
      | [_] \<Rightarrow> filename_expected
      | [_, t1] \<Rightarrow>
          obind (include_filename t1) (\<lambda>filename.
            if filename \<noteq> [] then include_file fs rec filename st else filename_expected)
      | _ # t1 # t2 # _ \<Rightarrow>
          Inl (Runtime_Error (quoted (snd t2) @ '' - unexpected after '' @ quoted (snd t1))))"


section \<open>Sections and assignments\<close>

text \<open>\<^verbatim>\<open>if (!prefix.ends_with('.')) prefix += '.';\<close>\<close>

definition with_dot :: "string \<Rightarrow> string" where
  "with_dot p = (if p \<noteq> [] \<and> last p = CHR ''.'' then p else p @ ''.'')"

definition parse_section :: "token list \<Rightarrow> string outcome" where
  "parse_section tokens =
     (case tokens of
        [] \<Rightarrow> Inl Undefined
      | t0 # others \<Rightarrow>
          let name = trim (snd t0) in
          if name = [] then Inl (Runtime_Error ''empty section'')
          else if others \<noteq> [] then
            Inl (Runtime_Error (''unexpected token found after section ['' @ snd t0 @ '']''))
          else if hd name = dquote then
            obind (sv_suffix name 1) (\<lambda>quoted_name.
            obind (find_quote quoted_name) (\<lambda>pos.
              if pos = None \<or> pos \<noteq> Some (length name - 2) then
                Inl (Runtime_Error (''inconsistent quotes in section ['' @ snd t0 @ '']''))
              else
                obind (sv_substr name 1 (length name - 2)) (\<lambda>inner.
                obind (process_quoted_value inner) (\<lambda>prefix'.
                  if trim prefix' = [] then Inl (Runtime_Error ''empty section'')
                  else Inr (with_dot prefix')))))
          else Inr (with_dot name))"

text \<open>\<^verbatim>\<open>switch (size)\<close> of an assignment, on the tokens behind the key.\<close>

definition unexpected_token :: "token \<Rightarrow> (string \<times> string) outcome" where
  "unexpected_token t = Inl (Runtime_Error (quoted (snd t) @ '' - unexpected''))"

definition assign_value :: "string \<Rightarrow> token list \<Rightarrow> (string \<times> string) outcome" where
  "assign_value key others =
     (case others of
        [] \<Rightarrow> Inl (Runtime_Error ''missing value'')
      | [t1] \<Rightarrow> if fst t1 \<noteq> CHR ''='' then unexpected_token t1 else Inr (key, [])
      | t1 # t2 # rest \<Rightarrow>
          if fst t1 \<noteq> CHR ''='' then unexpected_token t1
          else if fst t2 = CHR ''t'' then
            (case rest of [] \<Rightarrow> Inr (key, trim (snd t2)) | t3 # _ \<Rightarrow> unexpected_token t3)
          else if fst t2 = dquote then
            (case rest of
               [] \<Rightarrow> obind (process_quoted_value (snd t2)) (\<lambda>v. Inr (key, v))
             | t3 # _ \<Rightarrow> unexpected_token t3)
          else Inl (Runtime_Error (quoted (snd t2) @ '' - unexpected after '' @ quoted ''='')))"

definition parse_assignment :: "token list \<Rightarrow> string \<Rightarrow> (string \<times> string) outcome" where
  "parse_assignment tokens pre =
     (case tokens of
        [] \<Rightarrow> Inl Undefined
      | t0 # others \<Rightarrow> obind (process_key t0) (\<lambda>k. assign_value (pre @ k) others))"


section \<open>Lines and streams\<close>

text \<open>The body of the loop for one line: the new section prefix and the new state.
  \<open>process_tokens\<close> is the \<^verbatim>\<open>switch\<close> over the first token.\<close>

definition process_tokens ::
  "filesystem \<Rightarrow> nested_call \<Rightarrow> string \<Rightarrow> token list \<Rightarrow> ini_state \<Rightarrow> (string \<times> ini_state) outcome" where
  "process_tokens fs rec pre tokens st =
     (case tokens of
        [] \<Rightarrow> Inr (pre, st)
      | t0 # _ \<Rightarrow>
          if fst t0 = CHR ''i'' then
            obind (process_include fs rec tokens st) (\<lambda>st'. Inr (pre, st'))
          else if fst t0 = CHR ''['' then
            obind (parse_section tokens) (\<lambda>pre'. Inr (pre', st))
          else
            obind (parse_assignment tokens pre) (\<lambda>kv.
              Inr (pre, st\<lparr>ini_values := ini_values st @ [kv]\<rparr>)))"

definition parse_line ::
  "filesystem \<Rightarrow> nested_call \<Rightarrow> string \<Rightarrow> string \<Rightarrow> ini_state \<Rightarrow> (string \<times> ini_state) outcome" where
  "parse_line fs rec pre line st =
     obind (tokenize line) (\<lambda>tokens.
       process_tokens fs rec pre (takeWhile (\<lambda>t. \<not> is_comment t) tokens) st)"

text \<open>The handler around the body: a runtime error is thrown again with the line number.\<close>

definition at_line :: "nat \<Rightarrow> 'a outcome \<Rightarrow> 'a outcome" where
  "at_line line_n m =
     (case m of
        Inl (Runtime_Error msg) \<Rightarrow>
          Inl (Runtime_Error (''('' @ dec_string line_n @ ''): '' @ msg))
      | _ \<Rightarrow> m)"

function parse_lines ::
  "filesystem \<Rightarrow> nested_call \<Rightarrow> string \<Rightarrow> nat \<Rightarrow> string \<Rightarrow> ini_state \<Rightarrow> ini_state outcome" where
  "parse_lines fs rec pre line_n input st =
     (case getline input of
        None \<Rightarrow> Inr st
      | Some (line, rest) \<Rightarrow>
          obind (at_line line_n (parse_line fs rec pre line st)) (\<lambda>(pre', st').
            parse_lines fs rec pre' (Suc line_n) rest st'))"
  by pat_completeness auto
termination
  by (relation "measure (\<lambda>(fs, rec, pre, line_n, input, st). length input)")
     (auto dest: getline_decreases)

declare parse_lines.simps [simp del]

text \<open>
  \<^verbatim>\<open>ini_parser::operator()\<close>: the sentry pushes the file name, and pops the last entry when
  the call ends.  Each nested call takes one unit of fuel.
\<close>

fun ini_parse :: "nat \<Rightarrow> filesystem \<Rightarrow> string \<Rightarrow> path \<Rightarrow> ini_state \<Rightarrow> ini_state outcome" where
  "ini_parse 0 fs input filename st = Inl Out_Of_Fuel"
| "ini_parse (Suc fuel) fs input filename st =
     (if \<not> is_absolute filename then Inl Assert_Failed
      else
        obind (parse_lines fs (ini_parse fuel fs) [] 1 input
                 (st\<lparr>ini_includes := ini_includes st @ [filename]\<rparr>)) (\<lambda>st'.
          Inr (st'\<lparr>ini_includes := butlast (ini_includes st')\<rparr>)))"


section \<open>Entry points\<close>

definition parse_impl :: "nat \<Rightarrow> filesystem \<Rightarrow> string \<Rightarrow> path \<Rightarrow> pairs outcome" where
  "parse_impl fuel fs input filename =
     obind (ini_parse fuel fs input filename empty_state) (\<lambda>st. Inr (ini_values st))"

definition parse_stream :: "nat \<Rightarrow> filesystem \<Rightarrow> string \<Rightarrow> path \<Rightarrow> pairs outcome" where
  "parse_stream fuel fs input filename =
     obind (fs_call (is_directory fs filename)) (\<lambda>dir.
     obind (fs_call (weakly_canonical fs
              (if dir then path_append filename ''this.ini'' else filename))) (\<lambda>canon.
       parse_impl fuel fs input canon))"

definition parse_file :: "nat \<Rightarrow> filesystem \<Rightarrow> path \<Rightarrow> pairs outcome" where
  "parse_file fuel fs filename =
     (case open_file fs filename of
        None \<Rightarrow> Inl (Runtime_Error (''unable open file '' @ quoted filename))
      | Some content \<Rightarrow>
          (case obind (fs_call (canonical fs filename)) (parse_impl fuel fs content) of
             Inl (Runtime_Error msg) \<Rightarrow> Inl (Runtime_Error (filename @ msg))
           | m \<Rightarrow> m))"

end
