(* ===== verification/Ini_Contract.thy ===== *)
theory Ini_Contract
  imports Ini_Parser
begin

text \<open>
  The interface between the line handling and the nested call of an \<^verbatim>\<open>#include\<close>: what the
  callee promises is what the lines of the caller need, and running the lines of a file gives the
  same promises again.  The locale states the contract; the recursive \<^verbatim>\<open>operator()\<close> meets it
  at every depth.
\<close>

section \<open>Promises\<close>

text \<open>A call that does not end in an event the program must not have: an uncaught
  \<^verbatim>\<open>out_of_range\<close>, a failing assert, an undefined access.\<close>

definition no_internal :: "'a outcome \<Rightarrow> bool" where
  "no_internal m \<longleftrightarrow> m \<noteq> Inl Out_Of_Range \<and> m \<noteq> Inl Assert_Failed \<and> m \<noteq> Inl Undefined"

lemma no_internal_Inr [simp]: "no_internal (Inr x)"
  by (simp add: no_internal_def)

lemma no_internal_Inl [simp]: "no_internal (Inl e) \<longleftrightarrow> (\<exists>msg. e = Runtime_Error msg) \<or> e = Out_Of_Fuel"
  by (cases e) (auto simp: no_internal_def)

lemma no_internal_runtime [intro]: "only_runtime m \<Longrightarrow> no_internal m"
  by (cases m) auto

lemma no_internal_obind:
  assumes "no_internal m" and "\<And>x. m = Inr x \<Longrightarrow> no_internal (f x)"
  shows "no_internal (obind m f)"
  using assms by (cases m) auto

lemma only_runtime_iff: "only_runtime m \<longleftrightarrow> no_internal m \<and> m \<noteq> Inl Out_Of_Fuel"
  by (cases m) auto

lemma no_internal_at_line [simp]: "no_internal (at_line n m) \<longleftrightarrow> no_internal m"
  by (cases m) (auto simp: at_line_def split: fault.splits)

lemma at_line_Inr_iff [outcome_simps]: "at_line n m = Inr x \<longleftrightarrow> m = Inr x"
  by (cases m) (auto simp: at_line_def split: fault.splits)

lemma at_line_fuel_iff [simp]: "at_line n m = Inl Out_Of_Fuel \<longleftrightarrow> m = Inl Out_Of_Fuel"
  by (cases m) (auto simp: at_line_def split: fault.splits)

text \<open>A pair with a key that is not blank, and a call that kept the include stack and only added such
  pairs at the end of the values.\<close>

definition keyed :: "string \<times> string \<Rightarrow> bool" where
  "keyed kv \<longleftrightarrow> (\<exists>c \<in> set (fst kv). \<not> is_space c)"

definition extends :: "ini_state \<Rightarrow> ini_state \<Rightarrow> bool" where
  "extends st st' \<longleftrightarrow>
     ini_includes st' = ini_includes st \<and>
     (\<exists>ys. ini_values st' = ini_values st @ ys \<and> (\<forall>kv \<in> set ys. keyed kv))"

lemma extends_refl [simp]: "extends st st"
  by (simp add: extends_def)

lemma extends_trans: "extends a b \<Longrightarrow> extends b c \<Longrightarrow> extends a c"
  by (fastforce simp: extends_def)

lemma extends_includes: "extends st st' \<Longrightarrow> ini_includes st' = ini_includes st"
  by (simp add: extends_def)

lemma extends_add: "keyed kv \<Longrightarrow> extends st (st\<lparr>ini_values := ini_values st @ [kv]\<rparr>)"
  by (simp add: extends_def)


section \<open>Tokens of a line\<close>

lemma wf_takeWhile: "wf_tokens start ts \<Longrightarrow> wf_tokens start (takeWhile (\<lambda>t. \<not> is_comment t) ts)"
proof (induction ts arbitrary: start)
  case (Cons t ts)
  then show ?case by (cases ts) auto
qed simp

lemma no_comment_takeWhile: "t \<in> set (takeWhile (\<lambda>t. \<not> is_comment t) ts) \<Longrightarrow> \<not> is_comment t"
  by (auto dest: set_takeWhileD)

lemma wf_tokens_mem: "wf_tokens start ts \<Longrightarrow> t \<in> set ts \<Longrightarrow> \<exists>b. token_ok b t"
  by (induction ts arbitrary: start) auto

lemma quoted_token_value:
  "token_ok b t \<Longrightarrow> fst t = dquote \<Longrightarrow> process_quoted_value (snd t) = Inr (unescape (snd t))"
  by (auto simp: token_ok_def Let_def process_quoted_value_unescape)

lemma text_token_trim: "token_ok b t \<Longrightarrow> fst t = CHR ''t'' \<Longrightarrow> trim (snd t) \<noteq> []"
  by (cases "snd t") (auto simp: token_ok_def Let_def trim_eq_Nil_iff)

lemma process_key_runtime: "token_ok b t \<Longrightarrow> only_runtime (process_key t)"
  by (simp add: process_key_def quoted_token_value)

lemma trim_nonspace: "trim s \<noteq> [] \<Longrightarrow> \<exists>c \<in> set (trim s). \<not> is_space c"
proof (rule ccontr)
  assume "trim s \<noteq> []" and "\<not> (\<exists>c \<in> set (trim s). \<not> is_space c)"
  then have "\<forall>c \<in> set (dropWhile is_space (rev (skip_space s))). is_space c"
    by (simp add: trim_eq)
  then have "dropWhile is_space (rev (skip_space s)) = []"
    by (metis hd_dropWhile hd_in_set)
  then show False using \<open>trim s \<noteq> []\<close> by (simp add: trim_eq)
qed

lemma process_key_nonspace:
  "token_ok b t \<Longrightarrow> process_key t = Inr k \<Longrightarrow> \<exists>c \<in> set k. \<not> is_space c"
  by (auto simp: process_key_def outcome_simps trim_eq_Nil_iff split: if_splits
      dest: text_token_trim trim_nonspace)

lemma parse_assignment_runtime:
  assumes "wf_tokens True ts" and "ts \<noteq> []"
  shows "only_runtime (parse_assignment ts pre)"
proof -
  from assms obtain t0 rest where ts: "ts = t0 # rest" by (cases ts) auto
  have ok: "\<And>t. t \<in> set ts \<Longrightarrow> \<exists>b. token_ok b t" using wf_tokens_mem assms(1) by blast
  have quoted: "only_runtime (process_quoted_value (snd t))" if "t \<in> set ts" "fst t = dquote" for t
    using ok [OF that(1)] that(2) by (auto simp: quoted_token_value)
  have "token_ok True t0" using assms(1) ts by simp
  then have key: "only_runtime (process_key t0)" by (rule process_key_runtime)
  have "only_runtime (assign_value key rest)" for key
    using quoted ts unfolding assign_value_def unexpected_token_def
    by (auto split: list.splits)
  then show ?thesis
    using key ts by (auto simp: parse_assignment_def intro: only_runtime_obind)
qed

lemma assign_value_key: "assign_value key others = Inr kv \<Longrightarrow> fst kv = key"
  by (auto simp: assign_value_def unexpected_token_def outcome_simps split: list.splits if_splits)

lemma parse_assignment_keyed:
  assumes "wf_tokens True ts" and "parse_assignment ts pre = Inr kv"
  shows "keyed kv"
proof -
  from assms obtain t0 rest where ts: "ts = t0 # rest"
    by (cases ts) (auto simp: parse_assignment_def)
  with assms obtain k where k: "process_key t0 = Inr k" and "fst kv = pre @ k"
    by (auto simp: parse_assignment_def outcome_simps dest: assign_value_key)
  moreover have "token_ok True t0" using assms(1) ts by simp
  then have "\<exists>c \<in> set k. \<not> is_space c" using k by (rule process_key_nonspace)
  ultimately show ?thesis by (auto simp: keyed_def)
qed

lemma find_quote_value:
  assumes "find_quote s = Inr (Some p)"
  shows "p < length s \<and> s ! p = dquote \<and> \<not> dangling (take p s)"
proof -
  from assms obtain v r where sc: "scan_quoted s = Inr (Some (v, r))" and p: "p = length v"
    by (auto simp: find_quote_scan at_offset_def outcome_simps)
  from scan_quoted_split [OF sc] have "s = v @ dquote # r" and "\<not> dangling v" by auto
  then show ?thesis using p by simp
qed

lemma find_quote_runtime: "only_runtime (find_quote s)"
  using scan_quoted_only_runtime [of s] by (simp add: find_quote_scan at_offset_def)

lemma parse_section_runtime: "ts \<noteq> [] \<Longrightarrow> only_runtime (parse_section ts)"
proof -
  assume "ts \<noteq> []"
  then obtain t0 rest where ts: "ts = t0 # rest" by (cases ts) auto
  define name where "name = trim (snd t0)"
  have inner: "only_runtime
      (obind (sv_substr name 1 (length name - 2)) (\<lambda>inner.
         obind (process_quoted_value inner) (\<lambda>p.
           if trim p = [] then Inl (Runtime_Error ''empty section'') else Inr (with_dot p))))"
    if "find_quote (drop 1 name) = Inr (Some (length name - 2))" "name \<noteq> []"
    using find_quote_value [OF that(1)] that(2)
    by (cases name) (simp_all add: sv_simps process_quoted_value_unescape)
  have "only_runtime (sv_suffix name 1)" if "name \<noteq> []"
    using that by (cases name) (simp_all add: sv_simps)
  then show ?thesis
    using inner find_quote_runtime [of "drop 1 name"]
    unfolding ts parse_section_def list.case Let_def name_def [symmetric]
    by (cases "name = []") (auto simp: sv_suffix_def intro!: only_runtime_obind)
qed



text \<open>A line ends in an error of the tokenizer, or in the handling of a well-formed token list.\<close>

lemma parse_line_cases:
  obtains (error) msg where "parse_line fs rec pre line st = Inl (Runtime_Error msg)"
  | (tokens) ts where "wf_tokens True ts"
      "parse_line fs rec pre line st = process_tokens fs rec pre ts st"
proof (cases "tokenize line")
  case (Inl e)
  then obtain msg where "tokenize line = Inl (Runtime_Error msg)"
    using tokenize_only_runtime [of line] by auto
  then show thesis using error by (simp add: parse_line_def)
next
  case (Inr ts)
  have "wf_tokens True (takeWhile (\<lambda>t. \<not> is_comment t) ts)"
    by (rule wf_takeWhile [OF tokenize_wf [OF Inr]])
  then show thesis by (rule tokens) (simp add: parse_line_def Inr)
qed

text \<open>Enough fuel below a stack of open files: no nested call on a file that is not on the stack
  runs out.\<close>

definition has_fuel :: "filesystem \<Rightarrow> nested_call \<Rightarrow> path list \<Rightarrow> bool" where
  "has_fuel fs rec stack \<longleftrightarrow>
     (\<forall>content p st. ini_includes st = stack \<longrightarrow> p \<in> canonical_paths fs \<longrightarrow> p \<notin> set stack \<longrightarrow>
        rec content p st \<noteq> Inl Out_Of_Fuel)"


section \<open>The contract of the nested call\<close>

locale nested_parser =
  fixes fs :: filesystem and rec :: nested_call
  assumes rec_extends: "rec content p st = Inr st' \<Longrightarrow> extends st st'"
    and rec_internal: "canonical_absolute fs \<Longrightarrow> is_absolute p \<Longrightarrow> no_internal (rec content p st)"
begin

lemma include_file_extends: "include_file fs rec filename st = Inr st' \<Longrightarrow> extends st st'"
  by (auto simp: include_file_def outcome_simps Let_def split: option.splits if_splits
      dest: rec_extends)

lemma process_include_extends: "process_include fs rec ts st = Inr st' \<Longrightarrow> extends st st'"
  by (auto simp: process_include_def filename_expected_def outcome_simps
      split: list.splits if_splits dest: include_file_extends)

lemma process_tokens_extends:
  assumes "wf_tokens True ts" and r: "process_tokens fs rec pre ts st = Inr (pre', st')"
  shows "extends st st'"
proof (cases ts)
  case Nil
  then show ?thesis using r by (simp add: process_tokens_def)
next
  case (Cons t0 rest)
  consider "fst t0 = CHR ''i''" | "fst t0 = CHR ''[''" | "fst t0 \<noteq> CHR ''i''" "fst t0 \<noteq> CHR ''[''"
    by blast
  then show ?thesis
  proof cases
    case 1
    then show ?thesis using r Cons
      by (auto simp: process_tokens_def outcome_simps dest: process_include_extends)
  next
    case 2
    then show ?thesis using r Cons by (auto simp: process_tokens_def outcome_simps)
  next
    case 3
    then obtain kv where "parse_assignment ts pre = Inr kv"
      and "st' = st\<lparr>ini_values := ini_values st @ [kv]\<rparr>"
      using r Cons by (auto simp: process_tokens_def outcome_simps)
    then show ?thesis using parse_assignment_keyed [OF assms(1)] extends_add by simp
  qed
qed

lemma parse_line_extends: "parse_line fs rec pre line st = Inr (pre', st') \<Longrightarrow> extends st st'"
  by (rule parse_line_cases [of fs rec pre line st]) (auto dest: process_tokens_extends)

lemma parse_lines_extends: "parse_lines fs rec pre n input st = Inr st' \<Longrightarrow> extends st st'"
proof (induction "length input" arbitrary: input pre n st rule: less_induct)
  case less
  show ?case
  proof (cases "getline input")
    case None
    then show ?thesis using less.prems by (subst (asm) parse_lines.simps) simp
  next
    case (Some lr)
    obtain line rest where lr: "lr = (line, rest)" by (cases lr)
    with Some less.prems obtain pre' st1 where "parse_line fs rec pre line st = Inr (pre', st1)"
      and r: "parse_lines fs rec pre' (Suc n) rest st1 = Inr st'"
      by (subst (asm) parse_lines.simps) (auto simp: outcome_simps)
    then have "extends st st1" by (simp add: parse_line_extends)
    moreover have "extends st1 st'"
      by (rule less.hyps [OF _ r]) (use Some lr getline_decreases in blast)
    ultimately show ?thesis by (rule extends_trans)
  qed
qed

lemma include_file_internal:
  assumes "canonical_absolute fs" and "ini_includes st \<noteq> []"
  shows "no_internal (include_file fs rec filename st)"
proof -
  have "no_internal (fs_call (canonical fs p))" for p by (rule no_internal_runtime) simp
  moreover have "no_internal (rec content q st)" if "canonical fs p = Inr q" for content p q
    using assms that by (auto intro!: rec_internal simp: canonical_absolute_def canonical_paths_def)
  ultimately show ?thesis
    using assms(2) unfolding include_file_def
    by (auto intro!: no_internal_obind simp: outcome_simps Let_def split: option.splits)
qed

lemma process_include_internal:
  assumes "canonical_absolute fs" and "ini_includes st \<noteq> []"
    and ts: "ts \<noteq> []" "wf_tokens True ts"
  shows "no_internal (process_include fs rec ts st)"
proof -
  have "no_internal (include_filename t)" if "t \<in> set ts" for t
    using wf_tokens_mem [OF ts(2) that] by (auto simp: include_filename_def quoted_token_value)
  then show ?thesis
    using ts(1) include_file_internal [OF assms(1,2)] unfolding process_include_def
    by (auto intro!: no_internal_obind simp: filename_expected_def split: list.splits)
qed

lemma process_tokens_internal:
  assumes "canonical_absolute fs" and "ini_includes st \<noteq> []" and wf: "wf_tokens True ts"
  shows "no_internal (process_tokens fs rec pre ts st)"
proof (cases ts)
  case Nil
  then show ?thesis by (simp add: process_tokens_def)
next
  case (Cons t0 rest)
  then have ne: "ts \<noteq> []" by simp
  note parts = process_include_internal [OF assms(1,2) ne wf]
    no_internal_runtime [OF parse_section_runtime [OF ne]]
    no_internal_runtime [OF parse_assignment_runtime [OF wf ne, of pre]]
  show ?thesis
    using parts unfolding process_tokens_def Cons list.case
    by (auto intro!: no_internal_obind)
qed

lemma parse_line_internal:
  assumes "canonical_absolute fs" and "ini_includes st \<noteq> []"
  shows "no_internal (parse_line fs rec pre line st)"
  by (rule parse_line_cases [of fs rec pre line st])
     (simp_all add: process_tokens_internal [OF assms])

lemma parse_lines_internal:
  assumes "canonical_absolute fs" and "ini_includes st \<noteq> []"
  shows "no_internal (parse_lines fs rec pre n input st)"
  using assms(2)
proof (induction "length input" arbitrary: input pre n st rule: less_induct)
  case less
  show ?case
  proof (cases "getline input")
    case None
    then show ?thesis by (subst parse_lines.simps) simp
  next
    case (Some lr)
    obtain line rest where lr: "lr = (line, rest)" by (cases lr)
    have shorter: "length rest < length input" using Some lr getline_decreases by blast
    have "no_internal (parse_lines fs rec pre' (Suc n) rest st1)"
      if "parse_line fs rec pre line st = Inr (pre', st1)" for pre' st1
      using less.hyps [OF shorter] less.prems extends_includes [OF parse_line_extends [OF that]]
      by simp
    then show ?thesis
      using Some lr parse_line_internal [OF assms(1) less.prems]
      by (subst parse_lines.simps)
         (auto intro!: no_internal_obind simp: outcome_simps)
  qed
qed

text \<open>
  Fuel: if the nested call has enough for every file that is not on the include stack, the lines
  of the current file never run out of it.
\<close>

lemma include_file_fuel:
  assumes "has_fuel fs rec (ini_includes st)"
  shows "include_file fs rec filename st \<noteq> Inl Out_Of_Fuel"
proof -
  have "rec content q st \<noteq> Inl Out_Of_Fuel"
    if "canonical fs p = Inr q" "dropWhile (\<lambda>p. \<not> path_eq p q) (ini_includes st) = []"
    for content p q
  proof -
    have "q \<notin> set (ini_includes st)"
      using that(2) path_eq_refl [of q] by (auto simp: dropWhile_eq_Nil_conv)
    moreover have "q \<in> canonical_paths fs" using that(1) by (auto simp: canonical_paths_def)
    ultimately show ?thesis using assms by (simp add: has_fuel_def)
  qed
  moreover have "fs_call (canonical fs p) \<noteq> Inl Out_Of_Fuel" for p
    by (cases "canonical fs p") simp_all
  ultimately show ?thesis
    unfolding include_file_def
    by (auto simp: obind_eq_Inl_iff outcome_simps Let_def split: option.splits)
qed

lemma process_tokens_fuel:
  assumes "has_fuel fs rec (ini_includes st)" and wf: "wf_tokens True ts"
  shows "process_tokens fs rec pre ts st \<noteq> Inl Out_Of_Fuel"
proof (cases ts)
  case Nil
  then show ?thesis by (simp add: process_tokens_def)
next
  case (Cons t0 rest)
  then have ne: "ts \<noteq> []" by simp
  have "include_filename t \<noteq> Inl Out_Of_Fuel" if "t \<in> set ts" for t
    using wf_tokens_mem [OF wf that] by (auto simp: include_filename_def quoted_token_value)
  then have "process_include fs rec ts st \<noteq> Inl Out_Of_Fuel"
    using include_file_fuel [OF assms(1)] unfolding process_include_def
    by (auto simp: obind_eq_Inl_iff filename_expected_def split: list.splits)
  moreover have "parse_section ts \<noteq> Inl Out_Of_Fuel" "parse_assignment ts pre \<noteq> Inl Out_Of_Fuel"
    using parse_section_runtime [OF ne] parse_assignment_runtime [OF wf ne]
    by (auto simp: only_runtime_iff)
  ultimately show ?thesis
    unfolding process_tokens_def Cons list.case by (auto simp: obind_eq_Inl_iff)
qed

lemma parse_line_fuel:
  assumes "has_fuel fs rec (ini_includes st)"
  shows "parse_line fs rec pre line st \<noteq> Inl Out_Of_Fuel"
  by (rule parse_line_cases [of fs rec pre line st])
     (simp_all add: process_tokens_fuel [OF assms])

lemma parse_lines_fuel:
  "has_fuel fs rec (ini_includes st) \<Longrightarrow> parse_lines fs rec pre n input st \<noteq> Inl Out_Of_Fuel"
proof (induction "length input" arbitrary: input pre n st rule: less_induct)
  case less
  show ?case
  proof (cases "getline input")
    case None
    then show ?thesis by (subst parse_lines.simps) simp
  next
    case (Some lr)
    obtain line rest where lr: "lr = (line, rest)" by (cases lr)
    have shorter: "length rest < length input" using Some lr getline_decreases by blast
    have "parse_lines fs rec pre' (Suc n) rest st1 \<noteq> Inl Out_Of_Fuel"
      if "parse_line fs rec pre line st = Inr (pre', st1)" for pre' st1
      using less.hyps [OF shorter] less.prems extends_includes [OF parse_line_extends [OF that]]
      by simp
    then show ?thesis
      using Some lr parse_line_fuel [OF less.prems]
      by (subst parse_lines.simps) (auto simp: obind_eq_Inl_iff outcome_simps)
  qed
qed

end


section \<open>The parser meets the contract at every depth\<close>

lemma nested_parser_ini_parse: "nested_parser fs (ini_parse fuel fs)"
proof (induction fuel)
  case 0
  show ?case by unfold_locales simp_all
next
  case (Suc fuel)
  show ?case
  proof unfold_locales
    fix content p st st'
    assume "ini_parse (Suc fuel) fs content p st = Inr st'"
    then obtain st1 where l: "parse_lines fs (ini_parse fuel fs) [] 1 content
          (st\<lparr>ini_includes := ini_includes st @ [p]\<rparr>) = Inr st1"
      and st': "st' = st1\<lparr>ini_includes := butlast (ini_includes st1)\<rparr>"
      by (auto simp: outcome_simps split: if_splits)
    from nested_parser.parse_lines_extends [OF Suc.IH l]
    show "extends st st'" by (auto simp: extends_def st')
  next
    fix content p and st :: ini_state
    assume "canonical_absolute fs" "is_absolute p"
    then show "no_internal (ini_parse (Suc fuel) fs content p st)"
      using nested_parser.parse_lines_internal [OF Suc.IH]
      by (auto intro!: no_internal_obind)
  qed
qed

interpretation ini: nested_parser fs "ini_parse fuel fs" for fs fuel
  by (rule nested_parser_ini_parse)

lemma ini_parse_fuel:
  assumes "finite (canonical_paths fs)"
    and "card (canonical_paths fs - insert filename (set (ini_includes st))) < fuel"
  shows "ini_parse fuel fs input filename st \<noteq> Inl Out_Of_Fuel"
  using assms(2)
proof (induction fuel arbitrary: input filename st)
  case (Suc fuel)
  let ?st = "st\<lparr>ini_includes := ini_includes st @ [filename]\<rparr>"
  have "has_fuel fs (ini_parse fuel fs) (ini_includes ?st)"
    unfolding has_fuel_def
  proof (intro allI impI)
    fix content p and st' :: ini_state
    assume inc: "ini_includes st' = ini_includes ?st" and p: "p \<in> canonical_paths fs"
      and new: "p \<notin> set (ini_includes ?st)"
    have "canonical_paths fs - insert p (set (ini_includes st')) \<subset>
        canonical_paths fs - insert filename (set (ini_includes st))"
      using inc p new by auto
    then have "card (canonical_paths fs - insert p (set (ini_includes st'))) <
        card (canonical_paths fs - insert filename (set (ini_includes st)))"
      using assms(1) by (intro psubset_card_mono) auto
    then show "ini_parse fuel fs content p st' \<noteq> Inl Out_Of_Fuel"
      using Suc.prems by (intro Suc.IH) simp
  qed
  then have "parse_lines fs (ini_parse fuel fs) [] 1 input ?st \<noteq> Inl Out_Of_Fuel"
    by (rule ini.parse_lines_fuel)
  then show ?case by (auto simp: obind_eq_Inl_iff)
qed simp

end
