(* ===== verification/Ini_Document.thy ===== *)
theory Ini_Document
  imports Ini_Contract
begin

text \<open>
  An abstract view of an ini file: a list of sections, assignments, comments and included
  documents, what it means (the pairs in file order, keys with their section prefix, an included
  document in the place of its \<^verbatim>\<open>#include\<close>), and a printer.  The parser is shown to give
  every printed document its meaning.
\<close>

section \<open>Lines of a stream\<close>

definition lines_of :: "string \<Rightarrow> string list" where
  "lines_of s = (let ps = split_on newline s in if last ps = [] then butlast ps else ps)"

fun run_lines ::
  "filesystem \<Rightarrow> nested_call \<Rightarrow> string \<Rightarrow> nat \<Rightarrow> string list \<Rightarrow> ini_state \<Rightarrow> (string \<times> ini_state) outcome"
where
  "run_lines fs rec pre n [] st = Inr (pre, st)"
| "run_lines fs rec pre n (l # ls) st =
     obind (at_line n (parse_line fs rec pre l st)) (\<lambda>(pre', st'). run_lines fs rec pre' (Suc n) ls st')"

lemma lines_of_Nil [simp]: "lines_of [] = []"
  by (simp add: lines_of_def)

lemma lines_of_getline:
  "getline s = Some (l, r) \<Longrightarrow> lines_of s = l # lines_of r"
proof (cases "newline \<in> set s")
  case True
  assume g: "getline s = Some (l, r)"
  then have l: "l = takeWhile (\<lambda>c. c \<noteq> newline) s" and r: "r = tl (dropWhile (\<lambda>c. c \<noteq> newline) s)"
    using True by (auto simp: getline_def drop_Suc split: if_splits)
  have s: "s = l @ newline # r" using dropWhile_takeWhile_split [OF True] l r by simp
  have "newline \<notin> set l" using l by (auto dest: set_takeWhileD)
  then have "split_on newline s = l # split_on newline r" using s split_on_append_sep by metis
  then show ?thesis by (simp add: lines_of_def Let_def)
next
  case False
  assume g: "getline s = Some (l, r)"
  then have "l = s" "r = []" "s \<noteq> []"
    using False by (auto simp: getline_def split: if_splits)
  then show ?thesis using split_on_no_sep [OF False] by (simp add: lines_of_def)
qed

lemma parse_lines_run:
  "parse_lines fs rec pre n input st =
     obind (run_lines fs rec pre n (lines_of input) st) (\<lambda>(pre', st'). Inr st')"
proof (induction "length input" arbitrary: input pre n st rule: less_induct)
  case less
  show ?case
  proof (cases "getline input")
    case None
    then have "input = []" by (simp add: getline_def split: if_splits)
    then show ?thesis by (subst parse_lines.simps) simp
  next
    case (Some lr)
    obtain line rest where lr: "lr = (line, rest)" by (cases lr)
    note IH = less.hyps [OF getline_decreases [OF Some [unfolded lr]]]
    show ?thesis
      using Some lr lines_of_getline [of input line rest]
      by (subst parse_lines.simps)
         (cases "at_line n (parse_line fs rec pre line st)"; auto simp: IH)
  qed
qed

lemma lines_of_join: "\<forall>l \<in> set ls. newline \<notin> set l \<Longrightarrow> lines_of (concat (map (\<lambda>l. l @ [newline]) ls)) = ls"
proof (induction ls)
  case (Cons l ls)
  have "getline (concat (map (\<lambda>l. l @ [newline]) (l # ls))) =
      Some (l, concat (map (\<lambda>l. l @ [newline]) ls))"
    using Cons.prems getline_line [of l] by simp
  then show ?case using Cons lines_of_getline by simp
qed simp

text \<open>A runtime error of a run names the first line that failed, and what it failed with.\<close>

lemma run_lines_error:
  assumes "run_lines fs rec pre n ls st = Inl (Runtime_Error msg)"
  shows "\<exists>i < length ls. \<exists>pre' st' why.
           run_lines fs rec pre n (take i ls) st = Inr (pre', st') \<and>
           parse_line fs rec pre' (ls ! i) st' = Inl (Runtime_Error why) \<and>
           msg = ''('' @ dec_string (n + i) @ ''): '' @ why"
  using assms
proof (induction ls arbitrary: pre n st)
  case Nil
  then show ?case by simp
next
  case (Cons l ls)
  show ?case
  proof (cases "parse_line fs rec pre l st")
    case (Inl e)
    with Cons.prems obtain why where "e = Runtime_Error why"
      and "msg = ''('' @ dec_string n @ ''): '' @ why"
      by (cases e) (auto simp: at_line_def)
    with Inl show ?thesis by (intro exI [of _ 0]) simp
  next
    case (Inr r)
    obtain pre1 st1 where r: "r = (pre1, st1)" by (cases r)
    with Inr Cons.prems have "run_lines fs rec pre1 (Suc n) ls st1 = Inl (Runtime_Error msg)"
      by (simp add: at_line_def)
    from Cons.IH [OF this] obtain i pre' st' why where i: "i < length ls"
      and p: "run_lines fs rec pre1 (Suc n) (take i ls) st1 = Inr (pre', st')"
      and q: "parse_line fs rec pre' (ls ! i) st' = Inl (Runtime_Error why)"
      and m: "msg = ''('' @ dec_string (Suc n + i) @ ''): '' @ why"
      by blast
    have "run_lines fs rec pre n (take (Suc i) (l # ls)) st = Inr (pre', st')"
      using Inr r p by (simp add: at_line_def)
    with i q m show ?thesis by (intro exI [of _ "Suc i"]) auto
  qed
qed


section \<open>Documents\<close>

datatype ini_item =
    Section string
  | Entry string string
  | Note string
  | Include path "ini_item list"

fun doc_pairs :: "string \<Rightarrow> ini_item list \<Rightarrow> pairs" where
  "doc_pairs pre [] = []"
| "doc_pairs pre (Section n # ds) = doc_pairs (with_dot n) ds"
| "doc_pairs pre (Entry k v # ds) = (pre @ k, v) # doc_pairs pre ds"
| "doc_pairs pre (Note c # ds) = doc_pairs pre ds"
| "doc_pairs pre (Include p sub # ds) = doc_pairs [] sub @ doc_pairs pre ds"

fun doc_depth :: "ini_item list \<Rightarrow> nat" where
  "doc_depth [] = 0"
| "doc_depth (Include p sub # ds) = max (Suc (doc_depth sub)) (doc_depth ds)"
| "doc_depth (d # ds) = doc_depth ds"

definition quote :: "string \<Rightarrow> string" where
  "quote s = dquote # escape s @ [dquote]"

fun item_line :: "ini_item \<Rightarrow> string" where
  "item_line (Section n) = ''['' @ quote n @ '']''"
| "item_line (Entry k v) = quote k @ ''='' @ quote v"
| "item_line (Note c) = '';'' @ c"
| "item_line (Include p sub) = ''#include '' @ quote p"

definition print_doc :: "ini_item list \<Rightarrow> string" where
  "print_doc ds = concat (map (\<lambda>l. l @ [newline]) (map item_line ds))"

text \<open>
  The documents the printer can express: names and values without a newline, section names and
  keys that are not blank, section names without \<^verbatim>\<open>']'\<close> (the tokenizer ends a section at
  the first one, also between quotes), and included files that the file system has, in canonical
  form, and that are not open already.
\<close>

fun doc_ok :: "filesystem \<Rightarrow> path list \<Rightarrow> ini_item list \<Rightarrow> bool" where
  "doc_ok fs stack [] = True"
| "doc_ok fs stack (Section n # ds) =
     (newline \<notin> set n \<and> CHR '']'' \<notin> set n \<and> trim n \<noteq> [] \<and> doc_ok fs stack ds)"
| "doc_ok fs stack (Entry k v # ds) =
     (newline \<notin> set k \<and> newline \<notin> set v \<and> trim k \<noteq> [] \<and> doc_ok fs stack ds)"
| "doc_ok fs stack (Note c # ds) = (newline \<notin> set c \<and> doc_ok fs stack ds)"
| "doc_ok fs stack (Include p sub # ds) =
     (newline \<notin> set p \<and> is_absolute p \<and> trim p = p \<and>
      open_file fs p = Some (print_doc sub) \<and> canonical fs p = Inr p \<and>
      list_all (\<lambda>q. \<not> path_eq q p) stack \<and> doc_ok fs (stack @ [p]) sub \<and> doc_ok fs stack ds)"


section \<open>Tokens of the printed lines\<close>

lemma skip_space_nonspace: "\<not> is_space c \<Longrightarrow> skip_space (c # cs) = c # cs"
  by (simp add: skip_space_def)

lemma skip_space_prefix: "\<forall>c \<in> set ws. is_space c \<Longrightarrow> skip_space (ws @ s) = skip_space s"
  by (induction ws) (auto simp: skip_space_def)

lemma lex_skip: "\<forall>c \<in> set ws. is_space c \<Longrightarrow> lex b (ws @ s) = lex b s"
  by (subst (1 2) lex.simps) (simp add: skip_space_prefix)

lemma nonspace_chars [simp]:
  "\<not> is_space dquote" "\<not> is_space (CHR ''='')" "\<not> is_space (CHR ''['')" "\<not> is_space (CHR ''#'')"
  "\<not> is_space (CHR '';'')" "is_space (CHR '' '')"
  by (simp_all add: is_space_eq)

lemma lex_quote: "lex b (quote s @ r) = obind (lex False r) (\<lambda>ts. Inr ((dquote, escape s) # ts))"
proof -
  have "skip_space (quote s @ r) = dquote # escape s @ dquote # r"
    by (simp add: quote_def skip_space_nonspace)
  then show ?thesis by (simp add: lex_at_token scan_quoted_escape)
qed

lemma lex_assign: "lex b (CHR ''='' # r) = obind (lex False r) (\<lambda>ts. Inr ((CHR ''='', ''='') # ts))"
  by (simp add: lex_at_token skip_space_nonspace)

lemma set_escape: "set (escape s) \<subseteq> set s \<union> {bslash}"
  by (induction s) auto

lemma tokenize_entry:
  "tokenize (item_line (Entry k v)) =
     Inr [(dquote, escape k), (CHR ''='', ''=''), (dquote, escape v)]"
  using lex_quote [of False v "[]"] by (simp add: tokenize_lex lex_quote lex_assign)

lemma tokenize_note: "tokenize (item_line (Note c)) = Inr [(CHR '';'', c)]"
  by (simp add: tokenize_lex lex_at_token skip_space_nonspace)

lemma tokenize_section:
  assumes "CHR '']'' \<notin> set n"
  shows "tokenize (item_line (Section n)) = Inr [(CHR ''['', quote n)]"
proof -
  have no: "CHR '']'' \<notin> set (quote n)" using assms set_escape [of n] by (auto simp: quote_def)
  then have "takeWhile (\<lambda>x. x \<noteq> CHR '']'') (quote n @ '']'') = quote n"
    and "tl (dropWhile (\<lambda>x. x \<noteq> CHR '']'') (quote n @ '']'')) = []"
    by simp_all
  then show ?thesis
    by (simp add: tokenize_lex lex_at_token skip_space_nonspace)
qed

lemma tokenize_include:
  "tokenize (item_line (Include p sub)) = Inr [(CHR ''i'', include_word), (dquote, escape p)]"
proof -
  have pre: "prefix include_word (''include '' @ quote p)"
    by (simp add: include_word_def)
  have rest: "drop (length include_word) (''include '' @ quote p) = CHR '' '' # quote p"
    by (simp add: include_word_def)
  have "lex False (CHR '' '' # quote p) = Inr [(dquote, escape p)]"
    using lex_quote [of False p "[]"] by (simp add: lex_space)
  then show ?thesis
    using pre rest by (simp add: tokenize_lex lex_at_token skip_space_nonspace)
qed


declare item_line.simps [simp del]


section \<open>What the printed lines do\<close>

definition add_values :: "pairs \<Rightarrow> ini_state \<Rightarrow> ini_state" where
  "add_values kvs st = st\<lparr>ini_values := ini_values st @ kvs\<rparr>"

lemma add_values_simps [simp]:
  "add_values [] st = st"
  "add_values ys (add_values xs st) = add_values (xs @ ys) st"
  "ini_includes (add_values xs st) = ini_includes st"
  "ini_values (add_values xs st) = ini_values st @ xs"
  by (simp_all add: add_values_def)

lemma trim_Nil [simp]: "trim [] = []"
  by (simp add: trim_eq_Nil_iff)

lemma parse_line_tokens:
  "tokenize line = Inr ts \<Longrightarrow>
     parse_line fs rec pre line st = process_tokens fs rec pre (takeWhile (\<lambda>t. \<not> is_comment t) ts) st"
  by (simp add: parse_line_def)

lemma parse_line_entry:
  assumes "trim k \<noteq> []"
  shows "parse_line fs rec pre (item_line (Entry k v)) st = Inr (pre, add_values [(pre @ k, v)] st)"
proof -
  have "k \<noteq> []" using assms by auto
  then show ?thesis
    using assms
    by (simp add: parse_line_tokens [OF tokenize_entry] is_comment_def process_tokens_def
        parse_assignment_def assign_value_def process_key_def process_quoted_escape add_values_def)
qed

lemma parse_line_note: "parse_line fs rec pre (item_line (Note c)) st = Inr (pre, st)"
  by (simp add: parse_line_tokens [OF tokenize_note] is_comment_def process_tokens_def)

lemma trim_quote: "trim (quote n) = quote n"
  by (simp add: trim_eq skip_space_def quote_def)

lemma parse_section_quote:
  assumes "trim n \<noteq> []"
  shows "parse_section [(CHR ''['', quote n)] = Inr (with_dot n)"
proof -
  have "find_quote (escape n @ [dquote]) = Inr (Some (length (escape n)))"
    using scan_quoted_escape [of n "[]"] by (simp add: find_quote_scan)
  moreover have "sv_suffix (quote n) 1 = Inr (escape n @ [dquote])"
    and "sv_substr (quote n) 1 (length (quote n) - 2) = Inr (escape n)"
    and "length (quote n) - 2 = length (escape n)" and "quote n \<noteq> []" and "hd (quote n) = dquote"
    by (simp_all add: quote_def sv_suffix_def sv_substr_def)
  ultimately show ?thesis
    using assms by (simp add: parse_section_def trim_quote Let_def process_quoted_escape)
qed

lemma parse_line_section:
  "CHR '']'' \<notin> set n \<Longrightarrow> trim n \<noteq> [] \<Longrightarrow>
     parse_line fs rec pre (item_line (Section n)) st = Inr (with_dot n, st)"
  by (simp add: parse_line_tokens [OF tokenize_section] is_comment_def process_tokens_def
      parse_section_quote)

lemma parse_line_include:
  "trim p = p \<Longrightarrow> p \<noteq> [] \<Longrightarrow>
     parse_line fs rec pre (item_line (Include p sub)) st =
       obind (include_file fs rec p st) (\<lambda>st'. Inr (pre, st'))"
  by (simp add: parse_line_tokens [OF tokenize_include] is_comment_def process_tokens_def
      process_include_def include_filename_def process_quoted_escape)

lemma include_file_new:
  "is_absolute p \<Longrightarrow> open_file fs p = Some content \<Longrightarrow> canonical fs p = Inr q \<Longrightarrow>
     list_all (\<lambda>r. \<not> path_eq r q) (ini_includes st) \<Longrightarrow> include_file fs rec p st = rec content q st"
  by (simp add: include_file_def dropWhile_eq_Nil_conv list_all_iff Let_def)

lemma item_line_no_newline: "doc_ok fs stack ds \<Longrightarrow> d \<in> set ds \<Longrightarrow> newline \<notin> set (item_line d)"
proof (induction ds)
  case (Cons e ds)
  have esc: "newline \<notin> set s \<Longrightarrow> newline \<notin> set (escape s)" for s
    using set_escape [of s] by auto
  from Cons show ?case by (cases e) (auto simp: quote_def esc item_line.simps)
qed simp

text \<open>\<open>ok\<close> says what the nested call does with an included document.\<close>

lemma run_items:
  assumes ok: "\<And>p sub st. ini_includes st = stack \<Longrightarrow> is_absolute p \<Longrightarrow>
      doc_ok fs (stack @ [p]) sub \<Longrightarrow> doc_depth sub < fuel \<Longrightarrow>
      rec (print_doc sub) p st = Inr (add_values (doc_pairs [] sub) st)"
    and "ini_includes st = stack" and "doc_ok fs stack ds" and "doc_depth ds \<le> fuel"
  shows "\<exists>pre'. run_lines fs rec pre n (map item_line ds) st =
           Inr (pre', add_values (doc_pairs pre ds) st)"
  using assms(2-)
proof (induction ds arbitrary: pre n st)
  case Nil
  then show ?case by simp
next
  case (Cons d ds)
  show ?case
  proof (cases d)
    case (Section m)
    with Cons.prems Cons.IH [of st] show ?thesis
      by (simp add: parse_line_section at_line_def)
  next
    case (Entry k v)
    with Cons.prems Cons.IH [of "add_values [(pre @ k, v)] st"] show ?thesis
      by (simp add: parse_line_entry at_line_def)
  next
    case (Note c)
    with Cons.prems Cons.IH [of st] show ?thesis
      by (simp add: parse_line_note at_line_def)
  next
    case (Include p sub)
    then have p: "is_absolute p" "trim p = p" "open_file fs p = Some (print_doc sub)"
        "canonical fs p = Inr p" "list_all (\<lambda>q. \<not> path_eq q p) stack" "doc_ok fs (stack @ [p]) sub"
      and d: "doc_depth sub < fuel"
      using Cons.prems by auto
    then have "p \<noteq> []" by (auto simp: is_absolute_def)
    moreover have "include_file fs rec p st = Inr (add_values (doc_pairs [] sub) st)"
      using p Cons.prems(1) ok [OF _ p(1,6) d] by (simp add: include_file_new)
    ultimately have "parse_line fs rec pre (item_line d) st =
        Inr (pre, add_values (doc_pairs [] sub) st)"
      using p Include by (simp add: parse_line_include)
    with Include Cons.prems Cons.IH [of "add_values (doc_pairs [] sub) st"] show ?thesis
      by (simp add: at_line_def)
  qed
qed

lemma ini_parse_print_doc:
  assumes "is_absolute filename" and "doc_ok fs (ini_includes st @ [filename]) ds"
    and "doc_depth ds < fuel"
  shows "ini_parse fuel fs (print_doc ds) filename st = Inr (add_values (doc_pairs [] ds) st)"
  using assms
proof (induction fuel arbitrary: filename st ds)
  case (Suc fuel)
  let ?st = "st\<lparr>ini_includes := ini_includes st @ [filename]\<rparr>"
  have "\<exists>pre'. run_lines fs (ini_parse fuel fs) [] 1 (map item_line ds) ?st =
      Inr (pre', add_values (doc_pairs [] ds) ?st)"
    by (rule run_items [where fuel = fuel and stack = "ini_includes ?st"])
       (use Suc.prems in \<open>auto intro!: Suc.IH\<close>)
  moreover have "lines_of (print_doc ds) = map item_line ds"
    unfolding print_doc_def
    by (rule lines_of_join) (use Suc.prems(2) item_line_no_newline in auto)
  ultimately show ?case
    using Suc.prems(1) by (auto simp: parse_lines_run add_values_def)
qed simp

end
