(* ===== verification/Ini_Properties.thy ===== *)
theory Ini_Properties
  imports Ini_Document
begin

text \<open>
  The properties of the ini parser: the tokenizer against its reference, the quoting, the
  include stack, termination, error reports and the round trip of printed documents.
\<close>

section \<open>A file system to run the parser on\<close>

text \<open>Files given by an association list of canonical absolute paths; every path is its own
  canonical form.\<close>

definition flat_fs :: "(path \<times> string) list \<Rightarrow> filesystem" where
  "flat_fs files = \<lparr>
     open_file = map_of files,
     canonical = (\<lambda>p. if p \<in> fst ` set files then Inr p else Inl (''cannot make canonical path: '' @ p)),
     weakly_canonical = (\<lambda>p. Inr p),
     is_directory = (\<lambda>p. Inr False)\<rparr>"

lemma flat_fs_simps [simp]:
  "open_file (flat_fs files) p = map_of files p"
  "canonical (flat_fs files) p =
     (if p \<in> fst ` set files then Inr p else Inl (''cannot make canonical path: '' @ p))"
  "weakly_canonical (flat_fs files) p = Inr p"
  "is_directory (flat_fs files) p = Inr False"
  by (simp_all add: flat_fs_def)

lemma canonical_paths_flat_fs: "canonical_paths (flat_fs files) = fst ` set files"
  by (auto simp: canonical_paths_def)


section \<open>Auxiliary facts\<close>

text \<open>More fuel does not change an answer.\<close>

definition refines :: "nested_call \<Rightarrow> nested_call \<Rightarrow> bool" where
  "refines rec rec' \<longleftrightarrow>
     (\<forall>content p st. rec content p st \<noteq> Inl Out_Of_Fuel \<longrightarrow> rec' content p st = rec content p st)"

lemma obind_more:
  assumes "obind m f \<noteq> Inl Out_Of_Fuel" and "m \<noteq> Inl Out_Of_Fuel \<Longrightarrow> m' = m"
    and "\<And>x. m = Inr x \<Longrightarrow> f x \<noteq> Inl Out_Of_Fuel \<Longrightarrow> f' x = f x"
  shows "obind m' f' = obind m f"
  using assms by (cases m) auto

lemma include_file_more:
  assumes "refines rec rec'" and "include_file fs rec filename st \<noteq> Inl Out_Of_Fuel"
  shows "include_file fs rec' filename st = include_file fs rec filename st"
  using assms(2) unfolding include_file_def
proof (rule obind_more)
  fix p
  assume a: "(case open_file fs p of
         None \<Rightarrow> Inl (Runtime_Error (''can'' @ [squote] @ ''t open #include file '' @
                   quoted filename @ '' -> '' @ quoted p))
       | Some content \<Rightarrow>
           obind (fs_call (canonical fs p)) (\<lambda>canon.
             let cycle = dropWhile (\<lambda>p. \<not> path_eq p canon) (ini_includes st) in
             if cycle \<noteq> [] then Inl (Runtime_Error (cycle_message cycle filename canon))
             else rec content canon st)) \<noteq> Inl Out_Of_Fuel"
  show "(case open_file fs p of
         None \<Rightarrow> Inl (Runtime_Error (''can'' @ [squote] @ ''t open #include file '' @
                   quoted filename @ '' -> '' @ quoted p))
       | Some content \<Rightarrow>
           obind (fs_call (canonical fs p)) (\<lambda>canon.
             let cycle = dropWhile (\<lambda>p. \<not> path_eq p canon) (ini_includes st) in
             if cycle \<noteq> [] then Inl (Runtime_Error (cycle_message cycle filename canon))
             else rec' content canon st)) = (case open_file fs p of
         None \<Rightarrow> Inl (Runtime_Error (''can'' @ [squote] @ ''t open #include file '' @
                   quoted filename @ '' -> '' @ quoted p))
       | Some content \<Rightarrow>
           obind (fs_call (canonical fs p)) (\<lambda>canon.
             let cycle = dropWhile (\<lambda>p. \<not> path_eq p canon) (ini_includes st) in
             if cycle \<noteq> [] then Inl (Runtime_Error (cycle_message cycle filename canon))
             else rec content canon st))"
    using a assms(1)
    by (cases "open_file fs p"; cases "canonical fs p")
       (auto simp: Let_def refines_def split: if_splits)
qed simp

lemma process_include_more:
  assumes "refines rec rec'" and "process_include fs rec ts st \<noteq> Inl Out_Of_Fuel"
  shows "process_include fs rec' ts st = process_include fs rec ts st"
proof -
  consider "length ts \<noteq> 2" | t0 t1 where "ts = [t0, t1]"
    by (cases ts; cases "tl ts"; cases "tl (tl ts)") auto
  then show ?thesis
  proof cases
    case 1
    then show ?thesis by (auto simp: process_include_def split: list.splits)
  next
    case 2
    have f: "process_include fs r ts st = obind (include_filename t1) (\<lambda>filename.
            if filename \<noteq> [] then include_file fs r filename st else filename_expected)" for r
      by (simp add: 2 process_include_def)
    show ?thesis
      using assms(2) unfolding f
      by (rule obind_more) (auto intro: include_file_more [OF assms(1)])
  qed
qed

lemma parse_line_more:
  assumes "refines rec rec'" and "parse_line fs rec pre line st \<noteq> Inl Out_Of_Fuel"
  shows "parse_line fs rec' pre line st = parse_line fs rec pre line st"
proof -
  have "process_tokens fs rec' pre ts st = process_tokens fs rec pre ts st"
    if fine: "process_tokens fs rec pre ts st \<noteq> Inl Out_Of_Fuel" for ts
  proof (cases "ts \<noteq> [] \<and> fst (hd ts) = CHR ''i''")
    case True
    then have f: "process_tokens fs r pre ts st =
        obind (process_include fs r ts st) (\<lambda>st'. Inr (pre, st'))" for r
      by (cases ts) (auto simp: process_tokens_def)
    show ?thesis
      using fine unfolding f by (rule obind_more) (auto intro: process_include_more [OF assms(1)])
  next
    case False
    then show ?thesis by (cases ts) (auto simp: process_tokens_def)
  qed
  then show ?thesis
    using assms(2) by (cases "tokenize line") (simp_all add: parse_line_def)
qed

lemma run_lines_more:
  assumes "refines rec rec'"
  shows "run_lines fs rec pre n ls st \<noteq> Inl Out_Of_Fuel \<Longrightarrow>
     run_lines fs rec' pre n ls st = run_lines fs rec pre n ls st"
proof (induction ls arbitrary: pre n st)
  case (Cons l ls)
  from Cons.prems show ?case unfolding run_lines.simps
  proof (rule obind_more)
    assume "at_line n (parse_line fs rec pre l st) \<noteq> Inl Out_Of_Fuel"
    then show "at_line n (parse_line fs rec' pre l st) = at_line n (parse_line fs rec pre l st)"
      using parse_line_more [OF assms] by simp
  qed (auto intro: Cons.IH)
qed simp

lemma refines_ini_parse: "refines (ini_parse fuel fs) (ini_parse (Suc fuel) fs)"
proof (induction fuel)
  case 0
  show ?case by (simp add: refines_def)
next
  case (Suc fuel)
  show ?case
    unfolding refines_def
  proof (intro allI impI)
    fix content p and st :: ini_state
    let ?st = "st\<lparr>ini_includes := ini_includes st @ [p]\<rparr>"
    assume fine: "ini_parse (Suc fuel) fs content p st \<noteq> Inl Out_Of_Fuel"
    have "parse_lines fs (ini_parse (Suc fuel) fs) [] 1 content ?st =
        parse_lines fs (ini_parse fuel fs) [] 1 content ?st" if "is_absolute p"
    proof -
      have "run_lines fs (ini_parse fuel fs) [] 1 (lines_of content) ?st \<noteq> Inl Out_Of_Fuel"
        using fine that by (auto simp: parse_lines_run)
      from run_lines_more [OF Suc.IH this] show ?thesis by (simp only: parse_lines_run)
    qed
    then show "ini_parse (Suc (Suc fuel)) fs content p st = ini_parse (Suc fuel) fs content p st"
      by (simp only: ini_parse.simps(2) split: if_splits) simp
  qed
qed

lemma ini_parse_more:
  "fuel \<le> fuel' \<Longrightarrow> ini_parse fuel fs content p st \<noteq> Inl Out_Of_Fuel \<Longrightarrow>
     ini_parse fuel' fs content p st = ini_parse fuel fs content p st"
proof (induction fuel' rule: dec_induct)
  case (step k)
  then show ?case using refines_ini_parse [of k fs] by (simp add: refines_def)
qed simp

text \<open>Enough fuel for an entry point: one more than the files there are.\<close>

lemma parse_impl_runtime:
  assumes "finite (canonical_paths fs)" and "card (canonical_paths fs) < fuel"
    and "canonical_absolute fs" and "is_absolute p"
  shows "only_runtime (parse_impl fuel fs content p)"
proof -
  have "card (canonical_paths fs - insert p (set (ini_includes empty_state))) < fuel"
    using card_Diff_subset_Int [of "canonical_paths fs" "{p}"] assms(2)
    by (metis Diff_subset assms(1) card_mono le_less_trans)
  then have "ini_parse fuel fs content p empty_state \<noteq> Inl Out_Of_Fuel"
    by (rule ini_parse_fuel [OF assms(1)])
  moreover have "no_internal (ini_parse fuel fs content p empty_state)"
    by (rule ini.rec_internal) (use assms in auto)
  ultimately have "only_runtime (ini_parse fuel fs content p empty_state)"
    by (simp add: only_runtime_iff)
  then show ?thesis by (auto simp: parse_impl_def intro: only_runtime_obind)
qed

lemma obind_runtime_error:
  assumes "obind m f = Inl (Runtime_Error msg)" and "\<And>x. m = Inr x \<Longrightarrow> f x \<noteq> Inl (Runtime_Error msg)"
  shows "m = Inl (Runtime_Error msg)"
  using assms by (cases m) auto

lemma run_lines_append:
  "run_lines fs rec pre n (ls @ ls') st =
     obind (run_lines fs rec pre n ls st) (\<lambda>(pre', st'). run_lines fs rec pre' (n + length ls) ls' st')"
proof (induction ls arbitrary: pre n st)
  case (Cons l ls)
  then show ?case
    by (cases "at_line n (parse_line fs rec pre l st)") auto
qed simp

lemma lines_of_append:
  "\<forall>l \<in> set ls. newline \<notin> set l \<Longrightarrow>
     lines_of (concat (map (\<lambda>l. l @ [newline]) ls) @ s) = ls @ lines_of s"
proof (induction ls)
  case (Cons l ls)
  have "getline (concat (map (\<lambda>l. l @ [newline]) (l # ls)) @ s) =
      Some (l, concat (map (\<lambda>l. l @ [newline]) ls) @ s)"
    using Cons.prems getline_line [of l] by simp
  then show ?case using Cons lines_of_getline by simp
qed simp


text \<open>An unquoted word in front of a character that ends it.\<close>

lemma word_ends:
  assumes "\<forall>c \<in> set w. \<not> text_ends b c" and "r = [] \<or> text_ends b (hd r)"
  shows "takeWhile (\<lambda>x. \<not> text_ends b x) (w @ r) = w" and "dropWhile (\<lambda>x. \<not> text_ends b x) (w @ r) = r"
  using assms by (induction w) (cases r; auto)+

lemma lex_word:
  assumes "w = x # xs" and "\<not> is_space x" and "x \<notin> {dquote, CHR ''#'', CHR '';'', CHR ''=''}"
    and "x = CHR ''['' \<longrightarrow> \<not> b"
    and "\<forall>c \<in> set w. \<not> text_ends b c" and "r = [] \<or> text_ends b (hd r)"
  shows "lex b (w @ r) = obind (lex False r) (\<lambda>ts. Inr ((CHR ''t'', w) # ts))"
  using assms word_ends [of xs b r] by (auto simp: lex_at_token skip_space_nonspace)

lemma lex_comment: "c \<in> set comment_chars \<Longrightarrow> lex False (c # cs) = Inr [(c, cs)]"
  by (auto simp: comment_chars_eq lex_at_token skip_space_nonspace)

lemma space_ends: "is_space c \<Longrightarrow> text_ends True c"
  by (auto simp: text_ends_def is_space_eq token_delimiters_def)

lemma delimiter_chars: "c \<in> set token_delimiters \<longleftrightarrow> is_space c \<or> c \<in> set comment_chars \<or> c = CHR ''=''"
  by (auto simp: token_delimiters_def is_space_eq comment_chars_eq)

lemma lex_plain_assignment:
  assumes sp: "\<forall>c \<in> set (ws0 @ ws1 @ ws2). is_space c"
    and k: "k \<noteq> []" "hd k \<noteq> dquote" "hd k \<noteq> CHR ''[''" "\<forall>c \<in> set k. c \<notin> set token_delimiters"
    and v: "v \<noteq> []" "\<not> is_space (hd v)" "hd v \<noteq> dquote" "hd v \<noteq> CHR ''=''"
      "\<forall>c \<in> set v. c \<notin> set comment_chars"
    and remark: "remark = [] \<or> hd remark \<in> set comment_chars"
  shows "\<exists>cs. lex True (ws0 @ k @ ws1 @ ''='' @ ws2 @ v @ remark) =
       Inr ([(CHR ''t'', k), (CHR ''='', ''=''), (CHR ''t'', v)] @ cs) \<and> (\<forall>c \<in> set cs. is_comment c)"
proof -
  obtain x xs where k': "k = x # xs" using k(1) by (cases k) auto
  obtain y ys where v': "v = y # ys" using v(1) by (cases v) auto
  let ?r1 = "ws1 @ ''='' @ ws2 @ v @ remark"
  have "text_ends True (hd ?r1)"
    using sp space_ends by (cases ws1) (auto simp: text_ends_def token_delimiters_def)
  then have "lex True (k @ ?r1) = obind (lex False ?r1) (\<lambda>ts. Inr ((CHR ''t'', k) # ts))"
    using k k' by (intro lex_word) (auto simp: text_ends_def delimiter_chars comment_chars_eq)
  moreover have "lex False (v @ remark) = obind (lex False remark) (\<lambda>ts. Inr ((CHR ''t'', v) # ts))"
    using v v' remark by (intro lex_word) (auto simp: text_ends_def comment_chars_eq)
  moreover have "\<exists>cs. lex False remark = Inr cs \<and> (\<forall>c \<in> set cs. is_comment c)"
  proof (cases remark)
    case (Cons c cs)
    then show ?thesis using remark by (auto simp: lex_comment comment_chars_eq is_comment_def)
  qed simp
  ultimately show ?thesis using sp by (auto simp: lex_skip lex_assign)
qed


section \<open>Tokenizer\<close>

text \<open>C3: the index arithmetic of \<^verbatim>\<open>tokenize\<close> (searches, jumps over quoted strings,
  look-ahead for \<^verbatim>\<open>include\<close>, the position of the last token) computes, on every line,
  exactly the tokens or the error of the reference lexer that reads the line from left to
  right.\<close>

theorem tokenize_reference: "tokenize input = lex True input"
  by (rule tokenize_lex)

text \<open>C31: on every line \<^verbatim>\<open>tokenize\<close> ends, and it ends in a \<^verbatim>\<open>runtime_error\<close> or in
  a token list of the shape the parser indexes without checks: \<^verbatim>\<open>#include\<close> and a section only
  in front, a comment only at the end, quoted text without a dangling escape, an unquoted value
  followed by nothing but a comment.  No \<^verbatim>\<open>substr\<close> or index of it is out of range.\<close>

theorem tokenize_total:
  "case tokenize input of
     Inl e \<Rightarrow> \<exists>msg. e = Runtime_Error msg
   | Inr ts \<Rightarrow> wf_tokens True ts"
  using tokenize_only_runtime [of input] tokenize_wf [of input]
  by (cases "tokenize input") auto

text \<open>What \<^verbatim>\<open>find_quote\<close> accepts, \<^verbatim>\<open>process_quoted_value\<close> can decode: if a
  closing quote is found, it is a quote inside the text, the text before it has no dangling escape
  and it decodes to its unescaped value, so the \<^verbatim>\<open>assert\<close> in
  \<^verbatim>\<open>process_quoted_value\<close> cannot fail there.\<close>

theorem find_quote_decodes:
  assumes "find_quote s = Inr (Some p)"
  shows "p < length s \<and> s ! p = dquote \<and> process_quoted_value (take p s) = Inr (unescape (take p s))"
  using find_quote_value [OF assms] by (simp add: process_quoted_value_unescape)

lemma find_quote_decodes_witness:
  "process_quoted_value (take 2 [bslash, dquote, dquote, CHR ''x'']) = Inr [dquote]"
proof -
  have "find_quote [bslash, dquote, dquote, CHR ''x''] = Inr (Some 2)"
    by (simp add: find_quote_scan at_offset_def escapee_def)
  from find_quote_decodes [OF this] show ?thesis by simp
qed

text \<open>Escaping and decoding are inverse: for every string, the quoted text that stands for it is
  closed by the quote behind it and not earlier, and decodes to the string.\<close>

theorem quoted_roundtrip:
  "find_quote (escape s @ dquote # rest) = Inr (Some (length (escape s))) \<and>
   process_quoted_value (escape s) = Inr s"
  by (simp add: find_quote_scan scan_quoted_escape at_offset_def process_quoted_escape)

text \<open>\<^verbatim>\<open>trim\<close> removes white space at both ends and nothing else, and leaves none
  there.\<close>

theorem trim_spec:
  "\<exists>a b. s = a @ trim s @ b \<and> (\<forall>c \<in> set (a @ b). is_space c) \<and>
     (trim s = [] \<or> \<not> is_space (hd (trim s)) \<and> \<not> is_space (last (trim s)))"
proof (intro exI conjI)
  let ?a = "takeWhile is_space s" and ?m = "skip_space s"
  let ?b = "rev (takeWhile is_space (rev ?m))"
  have m: "?m = trim s @ ?b"
    by (metis rev_append rev_rev_ident takeWhile_dropWhile_id trim_eq)
  then show "s = ?a @ trim s @ ?b"
    using takeWhile_dropWhile_id [of is_space s] by (simp add: skip_space_def)
  show "\<forall>c \<in> set (?a @ ?b). is_space c" by (auto dest: set_takeWhileD)
  show "trim s = [] \<or> \<not> is_space (hd (trim s)) \<and> \<not> is_space (last (trim s))"
  proof (cases "trim s = []")
    case False
    then have "hd (trim s) = hd ?m" using m by (metis hd_append2)
    moreover have "?m \<noteq> []" using False m by auto
    then have "\<not> is_space (hd ?m)" by (simp add: skip_space_def hd_dropWhile)
    moreover have "\<not> is_space (last (trim s))"
      using False hd_dropWhile [of is_space "rev ?m"] by (simp add: trim_eq last_rev)
    ultimately show ?thesis by simp
  qed simp
qed


section \<open>Parser\<close>

lemma parse_file_runtime:
  assumes "finite (canonical_paths fs)" and "canonical_absolute fs"
    and "card (canonical_paths fs) < fuel"
  shows "only_runtime (parse_file fuel fs filename)"
proof (cases "open_file fs filename")
  case None
  then show ?thesis by (simp add: parse_file_def)
next
  case (Some content)
  have "only_runtime (obind (fs_call (canonical fs filename)) (parse_impl fuel fs content))"
  proof (rule only_runtime_obind)
    fix p assume "fs_call (canonical fs filename) = Inr p"
    then have "is_absolute p"
      using assms(2) by (auto simp: canonical_absolute_def canonical_paths_def outcome_simps)
    then show "only_runtime (parse_impl fuel fs content p)"
      using parse_impl_runtime assms by blast
  qed simp
  then show ?thesis
    using Some by (auto simp: parse_file_def only_runtime_def split: sum.splits fault.splits)
qed

text \<open>C17: reading a file always ends: on a file system with finitely many canonical paths the
  include recursion is never deeper than their number, and the call returns pairs or throws a
  \<^verbatim>\<open>runtime_error\<close>; no assert fails, no index is out of range, the include stack is never
  read empty.\<close>

theorem parse_file_total:
  assumes "finite (canonical_paths fs)" and "canonical_absolute fs"
    and "card (canonical_paths fs) < fuel"
  shows "only_runtime (parse_file fuel fs filename)"
  by (rule parse_file_runtime [OF assms])

lemma parse_file_total_witness:
  "only_runtime (parse_file 3 (flat_fs [(''/a'', ''#include b''), (''/b'', ''#include /a'')]) ''/a'')"
  by (rule parse_file_total) (simp_all add: canonical_paths_flat_fs canonical_absolute_def is_absolute_def)

text \<open>The fuel is only a bound: once a file is read with some fuel, every larger fuel gives
  the same pairs or the same error.\<close>

theorem parse_file_fuel_irrelevant:
  assumes "parse_file fuel fs filename \<noteq> Inl Out_Of_Fuel" and "fuel \<le> fuel'"
  shows "parse_file fuel' fs filename = parse_file fuel fs filename"
proof (cases "open_file fs filename")
  case None
  then show ?thesis by (simp add: parse_file_def)
next
  case (Some content)
  show ?thesis
  proof (cases "canonical fs filename")
    case (Inr p)
    with Some assms(1) have "ini_parse fuel fs content p empty_state \<noteq> Inl Out_Of_Fuel"
      by (auto simp: parse_file_def parse_impl_def)
    from ini_parse_more [OF assms(2) this] show ?thesis
      using Some Inr by (simp add: parse_file_def parse_impl_def)
  qed (use Some in \<open>simp add: parse_file_def\<close>)
qed

lemma parse_file_fuel_irrelevant_witness:
  "parse_file 9 (flat_fs [(''/a'', [])]) ''/a'' = parse_file 1 (flat_fs [(''/a'', [])]) ''/a''"
  by (rule parse_file_fuel_irrelevant)
     (simp_all add: parse_file_def parse_impl_def parse_lines.simps is_absolute_def)

text \<open>C29: the sentry: a call of the parser that returns, however deep the includes below it, leaves
  the include stack as it found it, keeps every pair read before, and adds only pairs whose key
  has a character that is not white space.\<close>

theorem ini_parse_extends:
  assumes "ini_parse fuel fs content filename st = Inr st'"
  shows "ini_includes st' = ini_includes st \<and>
    (\<exists>added. ini_values st' = ini_values st @ added \<and> (\<forall>kv \<in> set added. keyed kv))"
  using ini.rec_extends [OF assms] by (simp add: extends_def)

lemma ini_parse_extends_witness:
  "\<exists>st'. ini_parse 1 (flat_fs []) (print_doc [Entry ''k'' ''v'']) ''/a'' empty_state = Inr st' \<and>
     ini_includes st' = []"
proof -
  have r: "ini_parse 1 (flat_fs []) (print_doc [Entry ''k'' ''v'']) ''/a'' empty_state =
      Inr (add_values (doc_pairs [] [Entry ''k'' ''v'']) empty_state)"
    by (rule ini_parse_print_doc) (simp_all add: is_absolute_def empty_state_def trim_eq_Nil_iff is_space_eq)
  from ini_parse_extends [OF r] r show ?thesis by (simp add: empty_state_def)
qed

text \<open>The usual assignment: a line \<^verbatim>\<open>key = value\<close> without quotes, with any white
  space around key and value and possibly a comment behind it, adds the one pair of the key, with
  the section prefix in front, and the trimmed value, and nothing else.\<close>

theorem plain_assignment:
  assumes "\<forall>c \<in> set (ws0 @ ws1 @ ws2). is_space c"
    and "k \<noteq> []" and "hd k \<noteq> dquote" and "hd k \<noteq> CHR ''[''"
    and "\<forall>c \<in> set k. c \<notin> set token_delimiters"
    and "v \<noteq> []" and "\<not> is_space (hd v)" and "hd v \<noteq> dquote" and "hd v \<noteq> CHR ''=''"
    and "\<forall>c \<in> set v. c \<notin> set comment_chars"
    and "remark = [] \<or> hd remark \<in> set comment_chars"
  shows "parse_line fs rec pre (ws0 @ k @ ws1 @ ''='' @ ws2 @ v @ remark) st =
     Inr (pre, st\<lparr>ini_values := ini_values st @ [(pre @ k, trim v)]\<rparr>)"
proof -
  obtain cs where l: "lex True (ws0 @ k @ ws1 @ ''='' @ ws2 @ v @ remark) =
       Inr ([(CHR ''t'', k), (CHR ''='', ''=''), (CHR ''t'', v)] @ cs)"
    and cs: "\<forall>c \<in> set cs. is_comment c"
    using lex_plain_assignment [OF assms] by blast
  have "takeWhile (\<lambda>t. \<not> is_comment t) ([(CHR ''t'', k), (CHR ''='', ''=''), (CHR ''t'', v)] @ cs) =
      [(CHR ''t'', k), (CHR ''='', ''=''), (CHR ''t'', v)]"
    using cs by (cases cs) (auto simp: is_comment_def)
  moreover have "trim k = k"
  proof -
    have "\<forall>c \<in> set k. \<not> is_space c" using assms(5) by (auto simp: delimiter_chars)
    then have "skip_space k = k" and "dropWhile is_space (rev k) = rev k"
      by (auto simp: skip_space_def dropWhile_eq_self_iff hd_rev)
    then show ?thesis by (simp add: trim_eq)
  qed
  ultimately show ?thesis
    using assms(2) parse_line_tokens [OF l [folded tokenize_lex]]
    by (simp add: process_tokens_def parse_assignment_def process_key_def assign_value_def)
qed

lemma plain_assignment_witness:
  "parse_line (flat_fs []) (ini_parse 0 (flat_fs [])) ''s.'' ('' '' @ ''key'' @ [tab_char] @ ''='' @ '' '' @ ''a b '' @ ''; c'')
     empty_state = Inr (''s.'', empty_state\<lparr>ini_values := ini_values empty_state @ [(''s.'' @ ''key'', trim ''a b '')]\<rparr>)"
  by (rule plain_assignment) (simp_all add: is_space_eq token_delimiters_def comment_chars_eq)

text \<open>An error names the line: if the lines of a file end in a \<^verbatim>\<open>runtime_error\<close>, its
  message starts with the number, counted from 1, of a line that was reached without an error and
  that failed with the rest of the message.\<close>

theorem parse_lines_error:
  assumes "parse_lines fs rec [] 1 input st = Inl (Runtime_Error msg)"
  shows "\<exists>i < length (lines_of input). \<exists>pre' st' why.
           run_lines fs rec [] 1 (take i (lines_of input)) st = Inr (pre', st') \<and>
           parse_line fs rec pre' (lines_of input ! i) st' = Inl (Runtime_Error why) \<and>
           msg = ''('' @ dec_string (i + 1) @ ''): '' @ why"
proof -
  have "run_lines fs rec [] 1 (lines_of input) st = Inl (Runtime_Error msg)"
    using assms unfolding parse_lines_run by (rule obind_runtime_error) auto
  from run_lines_error [OF this] show ?thesis by simp
qed

lemma parse_lines_error_witness:
  "parse_line (flat_fs []) (ini_parse 0 (flat_fs [])) [] ''[]'' empty_state =
     Inl (Runtime_Error ''empty section'')"
proof -
  let ?fs = "flat_fs []" and ?rec = "ini_parse 0 (flat_fs [])"
  have t: "tokenize ''[]'' = Inr [(CHR ''['', [])]"
    by (simp add: tokenize_lex lex_at_token skip_space_nonspace)
  have p: "parse_line ?fs ?rec [] ''[]'' st = Inl (Runtime_Error ''empty section'')" for st
    by (simp add: parse_line_tokens [OF t] is_comment_def process_tokens_def parse_section_def)
  have l: "lines_of ''[]'' = [''[]'']" by (simp add: lines_of_def)
  have "parse_lines ?fs ?rec [] 1 ''[]'' empty_state = Inl (Runtime_Error (''('' @ dec_string 1 @ ''): empty section''))"
    by (simp add: parse_lines_run l p at_line_def)
  from parse_lines_error [OF this] show ?thesis by (auto simp: l)
qed

text \<open>An include cycle is an error: a file that, behind any lines that parse, includes itself is
  rejected at that line with the message that shows the cycle.\<close>

theorem self_include_rejected:
  assumes "open_file fs p = Some (print_doc ds @ item_line (Include p sub) @ newline # tail)"
    and "canonical fs p = Inr p" and "is_absolute p" and "trim p = p" and "newline \<notin> set p"
    and "doc_ok fs [p] ds" and "doc_depth ds < fuel"
  shows "parse_file fuel fs p =
     Inl (Runtime_Error (p @ ''('' @ dec_string (length ds + 1) @ ''): '' @ cycle_message [p] p p))"
proof -
  obtain fuel' where fuel: "fuel = Suc fuel'" using assms(7) by (cases fuel) auto
  let ?st = "empty_state\<lparr>ini_includes := [p]\<rparr>" and ?rec = "ini_parse fuel' fs"
  let ?content = "print_doc ds @ item_line (Include p sub) @ newline # tail"
  have "\<exists>pre'. run_lines fs ?rec [] 1 (map item_line ds) ?st =
      Inr (pre', add_values (doc_pairs [] ds) ?st)"
    by (rule run_items [where fuel = fuel' and stack = "[p]"])
       (use assms(6,7) fuel in \<open>auto intro!: ini_parse_print_doc\<close>)
  then obtain pre' where before: "run_lines fs ?rec [] 1 (map item_line ds) ?st =
      Inr (pre', add_values (doc_pairs [] ds) ?st)" ..
  have "newline \<notin> set (item_line (Include p sub))"
    using assms(5) set_escape [of p] by (auto simp: item_line.simps quote_def)
  then have "getline (item_line (Include p sub) @ newline # tail) = Some (item_line (Include p sub), tail)"
    by (rule getline_line)
  then have "lines_of ?content = map item_line ds @ item_line (Include p sub) # lines_of tail"
    unfolding print_doc_def
    using lines_of_append [of "map item_line ds"] item_line_no_newline [OF assms(6)] lines_of_getline
    by simp
  moreover have "p \<noteq> []" using assms(3) by (auto simp: is_absolute_def)
  ultimately have "parse_lines fs ?rec [] 1 ?content ?st =
      Inl (Runtime_Error (''('' @ dec_string (length ds + 1) @ ''): '' @ cycle_message [p] p p))"
    using before assms(1-4)
    by (simp add: parse_lines_run run_lines_append parse_line_include include_file_def at_line_def)
  then show ?thesis
    using assms(1-3) fuel by (simp add: parse_file_def parse_impl_def empty_state_def)
qed

lemma self_include_rejected_witness:
  "parse_file 1 (flat_fs [(''/a'', print_doc [] @ item_line (Include ''/a'' []) @ newline # [])]) ''/a'' =
     Inl (Runtime_Error (''/a'' @ ''('' @ dec_string (length ([] :: ini_item list) + 1) @ ''): '' @
       cycle_message [''/a''] ''/a'' ''/a''))"
  by (rule self_include_rejected) (simp_all add: is_absolute_def trim_eq is_space_eq skip_space_def)

text \<open>C1: round trip: every document of sections, assignments, comments and nested includes, with
  arbitrary characters in names and values but the few the format has no place for, is printed to
  a file that parses to its pairs, in order, keys with their section in front, included pairs in
  the place of their \<^verbatim>\<open>#include\<close>.\<close>

theorem document_roundtrip:
  assumes "is_absolute filename" and "doc_ok fs [filename] ds" and "doc_depth ds < fuel"
  shows "parse_impl fuel fs (print_doc ds) filename = Inr (doc_pairs [] ds)"
  using ini_parse_print_doc [of filename fs empty_state ds fuel] assms
  by (simp add: parse_impl_def empty_state_def)

lemma document_roundtrip_witness:
  "parse_impl 2 (flat_fs [(''/b'', print_doc [Entry ''x'' '' a=1 ''])])
     (print_doc [Section ''s'', Include ''/b'' [Entry ''x'' '' a=1 ''], Entry ''y'' '';'']) ''/a'' =
   Inr [(''x'', '' a=1 ''), (''s.y'', '';'')]"
proof -
  have "parse_impl 2 (flat_fs [(''/b'', print_doc [Entry ''x'' '' a=1 ''])])
     (print_doc [Section ''s'', Include ''/b'' [Entry ''x'' '' a=1 ''], Entry ''y'' '';'']) ''/a'' =
   Inr (doc_pairs [] [Section ''s'', Include ''/b'' [Entry ''x'' '' a=1 ''], Entry ''y'' '';''])"
    by (rule document_roundtrip)
       (simp_all add: is_absolute_def trim_eq is_space_eq skip_space_def path_eq_def path_elements_def)
  then show ?thesis by (simp add: with_dot_def)
qed

text \<open>\<^verbatim>\<open>parse(std::istream&, filename)\<close> reads streams whose file name is relative and
  does not exist on a failing assert: \<^verbatim>\<open>weakly_canonical\<close> leaves such a name relative, and
  \<^verbatim>\<open>operator()\<close> asserts that it is absolute.\<close>

theorem parse_stream_relative:
  assumes "is_directory fs filename = Inr False" and "weakly_canonical fs filename = Inr q"
    and "\<not> is_absolute q" and "0 < fuel"
  shows "parse_stream fuel fs input filename = Inl Assert_Failed"
  using assms by (cases fuel) (auto simp: parse_stream_def parse_impl_def)

lemma parse_stream_relative_witness:
  "parse_stream 1 (flat_fs []) [] ''test.ini'' = Inl Assert_Failed"
  by (rule parse_stream_relative [where q = "''test.ini''"]) (simp_all add: is_absolute_def)

end
