(* ===== verification/Ini_Semantics.thy ===== *)
theory Ini_Semantics
  imports Ini_Properties
begin

text \<open>
  What an ini file means, said without the parser: a big-step semantics.  \<open>means\<close> gives the
  meaning of a line by its tokens, \<open>reads\<close> the pairs of the lines of a file below a stack of open
  files, with the pairs of an included file in the place of its \<^verbatim>\<open>#include\<close>.  The parser
  accepts exactly the files the semantics gives a meaning to, and returns this meaning; a graph of
  files with a cycle of includes has none.
\<close>

section \<open>Lines\<close>

definition line_tokens :: "string \<Rightarrow> token list outcome" where
  "line_tokens l = obind (lex True l) (\<lambda>ts. Inr (takeWhile (\<lambda>t. \<not> is_comment t) ts))"

text \<open>The texts that tokens stand for: unquoted text without the space around it, quoted text with
  its escapes decoded.\<close>

inductive key_text :: "token \<Rightarrow> string \<Rightarrow> bool" where
  Plain_Key: "key_text (CHR ''t'', s) (trim s)"
| Quoted_Key: "trim (unescape s) \<noteq> [] \<Longrightarrow> key_text (dquote, s) (unescape s)"

inductive value_text :: "token list \<Rightarrow> string \<Rightarrow> bool" where
  No_Value: "value_text [] []"
| Plain_Value: "value_text [(CHR ''t'', s)] (trim s)"
| Quoted_Value: "value_text [(dquote, s)] (unescape s)"

inductive file_name :: "token \<Rightarrow> path \<Rightarrow> bool" where
  Plain_Name: "trim s \<noteq> [] \<Longrightarrow> file_name (CHR ''t'', s) (trim s)"
| Quoted_Name: "trim (unescape s) \<noteq> [] \<Longrightarrow> file_name (dquote, s) (trim (unescape s))"

inductive section_name :: "string \<Rightarrow> string \<Rightarrow> bool" where
  Plain_Section: "trim s \<noteq> [] \<Longrightarrow> hd (trim s) \<noteq> dquote \<Longrightarrow> section_name s (trim s)"
| Quoted_Section: "trim s = dquote # v @ [dquote] \<Longrightarrow> scan_quoted (v @ [dquote]) = Inr (Some (v, [])) \<Longrightarrow>
    trim (unescape v) \<noteq> [] \<Longrightarrow> section_name s (unescape v)"

datatype meaning =
    Nothing
  | Opens string
  | Binds string string
  | Includes path

inductive means :: "string \<Rightarrow> meaning \<Rightarrow> bool" where
  Mean_Nothing: "line_tokens l = Inr [] \<Longrightarrow> means l Nothing"
| Mean_Opens: "line_tokens l = Inr [(CHR ''['', s)] \<Longrightarrow> section_name s p \<Longrightarrow> means l (Opens p)"
| Mean_Binds: "line_tokens l = Inr (t # (CHR ''='', w) # ts) \<Longrightarrow> key_text t k \<Longrightarrow> value_text ts v \<Longrightarrow>
    means l (Binds k v)"
| Mean_Includes: "line_tokens l = Inr [(CHR ''i'', w), t] \<Longrightarrow> file_name t n \<Longrightarrow> means l (Includes n)"

inductive_simps means_simps:
  "means l Nothing" "means l (Opens p)" "means l (Binds k v)" "means l (Includes n)"

inductive_simps value_simps: "value_text [] v" "value_text (t # ts) v"
inductive_cases value_more: "value_text (t # t' # ts) v"


section \<open>Files\<close>

text \<open>The file an \<^verbatim>\<open>#include\<close> in the file \<open>dir_of\<close> names: its canonical path and its text.\<close>

definition resolves :: "filesystem \<Rightarrow> path \<Rightarrow> path \<Rightarrow> path \<Rightarrow> string \<Rightarrow> bool" where
  "resolves fs dir_of n q content \<longleftrightarrow>
     (let p = (if is_absolute n then n else path_append (parent_path dir_of) n) in
      open_file fs p = Some content \<and> canonical fs p = Inr q)"

text \<open>The prefix a section gives its keys.\<close>

definition dotted :: "string \<Rightarrow> string" where
  "dotted p = (if suffix ''.'' p then p else p @ ''.'')"

inductive reads :: "filesystem \<Rightarrow> path list \<Rightarrow> string \<Rightarrow> string list \<Rightarrow> pairs \<Rightarrow> bool"
  for fs :: filesystem where
  Reads_End: "reads fs stack pre [] []"
| Reads_Nothing: "means l Nothing \<Longrightarrow> reads fs stack pre ls kvs \<Longrightarrow> reads fs stack pre (l # ls) kvs"
| Reads_Opens: "means l (Opens p) \<Longrightarrow> reads fs stack (dotted p) ls kvs \<Longrightarrow>
    reads fs stack pre (l # ls) kvs"
| Reads_Binds: "means l (Binds k v) \<Longrightarrow> reads fs stack pre ls kvs \<Longrightarrow>
    reads fs stack pre (l # ls) ((pre @ k, v) # kvs)"
| Reads_Includes: "means l (Includes n) \<Longrightarrow> resolves fs (last stack) n q content \<Longrightarrow>
    \<forall>p \<in> set stack. \<not> path_eq p q \<Longrightarrow> reads fs (stack @ [q]) [] (lines_of content) sub \<Longrightarrow>
    reads fs stack pre ls kvs \<Longrightarrow> reads fs stack pre (l # ls) (sub @ kvs)"


section \<open>The parser on a line\<close>

lemma with_dot_dotted: "with_dot p = dotted p"
  by (cases p rule: rev_cases) (auto simp: with_dot_def dotted_def suffix_def)

lemma quoted_value_token: "token_ok b (dquote, s) \<Longrightarrow> process_quoted_value s = Inr (unescape s)"
  using quoted_token_value [of b "(dquote, s)"] by simp

lemma process_key_iff:
  assumes "token_ok b t"
  shows "process_key t = Inr k \<longleftrightarrow> key_text t k"
proof (cases t)
  case (Pair c s)
  then show ?thesis
    using assms quoted_token_value [of b t]
    by (auto simp: process_key_def key_text.simps)
qed

lemma assign_value_iff:
  assumes "\<forall>t \<in> set others. \<exists>b. token_ok b t"
  shows "assign_value key others = Inr kv \<longleftrightarrow>
    (\<exists>w ts v. others = (CHR ''='', w) # ts \<and> value_text ts v \<and> kv = (key, v))"
  using assms
  by (auto simp: assign_value_def unexpected_token_def value_simps quoted_value_token
      split: list.splits if_splits elim!: value_more)

lemma include_filename_iff:
  assumes "token_ok b t"
  shows "include_filename t = Inr n \<and> n \<noteq> [] \<longleftrightarrow> file_name t n"
proof (cases t)
  case (Pair c s)
  then show ?thesis
    using assms quoted_token_value [of b t]
    by (auto simp: include_filename_def file_name.simps)
qed

lemma parse_section_iff:
  "parse_section ((c, s) # others) = Inr q \<longleftrightarrow> others = [] \<and> (\<exists>p. section_name s p \<and> q = with_dot p)"
proof (cases "trim s")
  case Nil
  then show ?thesis by (auto simp: parse_section_def section_name.simps)
next
  case (Cons d r)
  show ?thesis
  proof (cases "d = dquote")
    case False
    then show ?thesis using Cons by (auto simp: parse_section_def section_name.simps Let_def)
  next
    case True
    have "parse_section [(c, s)] = Inr q \<longleftrightarrow> (\<exists>v. r = v @ [dquote] \<and>
        scan_quoted r = Inr (Some (v, [])) \<and> trim (unescape v) \<noteq> [] \<and> q = with_dot (unescape v))"
    proof (cases "scan_quoted r")
      case (Inl e)
      then show ?thesis using Cons True by (simp add: parse_section_def Let_def sv_simps find_quote_scan)
    next
      case (Inr sc)
      show ?thesis
      proof (cases sc)
        case None
        then show ?thesis using Cons True Inr
          by (auto simp: parse_section_def Let_def sv_simps find_quote_scan)
      next
        case (Some vr)
        obtain v rest where vr: "vr = (v, rest)" by (cases vr)
        from scan_quoted_split [of r v rest] Inr Some vr have r: "r = v @ dquote # rest" "\<not> dangling v"
          by auto
        show ?thesis using Cons True Inr Some vr r
          by (auto simp: parse_section_def Let_def sv_simps find_quote_scan process_quoted_value_unescape)
      qed
    qed
    moreover have "parse_section ((c, s) # others) = Inr q \<Longrightarrow> others = []"
      using Cons by (auto simp: parse_section_def Let_def split: if_splits)
    ultimately show ?thesis using Cons True by (auto simp: section_name.simps)
  qed
qed

text \<open>A line that the parser gets through is a line with a meaning, and it does what it means.\<close>

lemma wf_line_tokens: "line_tokens l = Inr ts \<Longrightarrow> wf_tokens True ts"
  by (auto simp: line_tokens_def outcome_simps intro: wf_takeWhile lex_wf)

lemma parse_line_line_tokens:
  "parse_line fs rec pre l st = obind (line_tokens l) (\<lambda>ts. process_tokens fs rec pre ts st)"
  by (cases "lex True l") (simp_all add: parse_line_def line_tokens_def tokenize_lex)

lemma process_include_iff:
  assumes "wf_tokens True ((c, s) # others)"
  shows "process_include fs rec ((c, s) # others) st = Inr st' \<longleftrightarrow>
    (\<exists>t n. others = [t] \<and> file_name t n \<and> include_file fs rec n st = Inr st')"
proof (cases others)
  case (Cons t ts)
  then obtain b where "token_ok b t" using wf_tokens_mem [OF assms, of t] by auto
  then show ?thesis
    using Cons include_filename_iff [of b t]
    by (cases ts) (auto simp: process_include_def outcome_simps filename_expected_def)
qed (simp add: process_include_def filename_expected_def)

lemma parse_assignment_iff:
  assumes "wf_tokens True (t # others)"
  shows "parse_assignment (t # others) pre = Inr kv \<longleftrightarrow>
    (\<exists>k w ts v. key_text t k \<and> others = (CHR ''='', w) # ts \<and> value_text ts v \<and> kv = (pre @ k, v))"
proof -
  have "\<forall>t \<in> set others. \<exists>b. token_ok b t" using wf_tokens_mem [OF assms] by auto
  moreover have "token_ok True t" using assms by simp
  ultimately show ?thesis
    by (auto simp: parse_assignment_def outcome_simps process_key_iff assign_value_iff)
qed

lemma parse_line_iff:
  "parse_line fs rec pre l st = Inr (pre', st') \<longleftrightarrow>
     means l Nothing \<and> pre' = pre \<and> st' = st \<or>
     (\<exists>p. means l (Opens p) \<and> pre' = with_dot p \<and> st' = st) \<or>
     (\<exists>k v. means l (Binds k v) \<and> pre' = pre \<and> st' = add_values [(pre @ k, v)] st) \<or>
     (\<exists>n. means l (Includes n) \<and> pre' = pre \<and> include_file fs rec n st = Inr st')"
proof (cases "line_tokens l")
  case (Inl e)
  then show ?thesis by (simp add: parse_line_line_tokens means_simps)
next
  case (Inr ts)
  show ?thesis
  proof (cases ts)
    case Nil
    then show ?thesis using Inr by (auto simp: parse_line_line_tokens means_simps process_tokens_def)
  next
    case (Cons t others)
    note wf = wf_line_tokens [OF Inr, unfolded Cons]
    obtain c s where t: "t = (c, s)" by (cases t)
    have no_key: "\<not> key_text t k" if "c = CHR ''i'' \<or> c = CHR ''[''" for k
      using that t by (auto simp: key_text.simps)
    consider "c = CHR ''i''" | "c = CHR ''[''" | "c \<noteq> CHR ''i''" "c \<noteq> CHR ''[''" by blast
    then show ?thesis
    proof cases
      case 1
      then show ?thesis
        using Inr Cons t no_key process_include_iff [OF wf [unfolded t]]
        by (auto simp: parse_line_line_tokens means_simps process_tokens_def outcome_simps)
    next
      case 2
      then show ?thesis
        using Inr Cons t no_key
        by (auto simp: parse_line_line_tokens means_simps process_tokens_def outcome_simps parse_section_iff)
    next
      case 3
      then have "parse_line fs rec pre l st = Inr (pre', st') \<longleftrightarrow>
          (\<exists>kv. parse_assignment ts pre = Inr kv \<and> pre' = pre \<and> st' = add_values [kv] st)"
        using Inr Cons t
        by (auto simp: parse_line_line_tokens process_tokens_def outcome_simps add_values_def)
      also have "\<dots> \<longleftrightarrow> (\<exists>k v. means l (Binds k v) \<and> pre' = pre \<and> st' = add_values [(pre @ k, v)] st)"
      proof -
        have "means l (Binds k v) \<longleftrightarrow> parse_assignment ts pre = Inr (pre @ k, v)" for k v
          using Inr parse_assignment_iff [OF wf, of pre] unfolding Cons means_simps by (cases t) auto
        moreover have "\<exists>k v. kv = (pre @ k, v)" if "parse_assignment ts pre = Inr kv" for kv
          using that parse_assignment_iff [OF wf, of pre kv] unfolding Cons by auto
        ultimately show ?thesis by blast
      qed
      finally show ?thesis using Inr Cons t 3 by (simp add: means_simps)
    qed
  qed
qed

lemma include_file_iff:
  assumes "ini_includes st \<noteq> []"
  shows "include_file fs rec n st = Inr st' \<longleftrightarrow>
    (\<exists>q content. resolves fs (last (ini_includes st)) n q content \<and>
       (\<forall>p \<in> set (ini_includes st). \<not> path_eq p q) \<and> rec content q st = Inr st')"
  using assms
  by (auto simp: include_file_def resolves_def Let_def outcome_simps dropWhile_eq_Nil_conv
      split: option.splits if_splits)


lemma parse_line_includes:
  assumes "means l (Includes n)" and "resolves fs (last (ini_includes st)) n q content"
    and "\<forall>p \<in> set (ini_includes st). \<not> path_eq p q" and "ini_includes st \<noteq> []"
    and "rec content q st = Inr st'"
  shows "parse_line fs rec pre l st = Inr (pre, st')"
proof -
  have "include_file fs rec n st = Inr st'" using assms(2-) include_file_iff by blast
  then show ?thesis using assms(1) parse_line_iff by blast
qed


section \<open>The parser on files\<close>

lemma run_lines_reads:
  assumes rec: "\<And>content q st st'. rec content q st = Inr st' \<Longrightarrow>
      \<exists>kvs. reads fs (ini_includes st @ [q]) [] (lines_of content) kvs \<and> st' = add_values kvs st"
    and "run_lines fs rec pre n ls st = Inr (pre', st')" and "ini_includes st \<noteq> []"
  shows "\<exists>kvs. reads fs (ini_includes st) pre ls kvs \<and> st' = add_values kvs st"
  using assms(2,3)
proof (induction ls arbitrary: pre n st)
  case Nil
  then show ?case by (auto intro: Reads_End exI [of _ "[]"])
next
  case (Cons l ls)
  from Cons.prems(1) obtain pre1 st1 where l: "parse_line fs rec pre l st = Inr (pre1, st1)"
    and ls: "run_lines fs rec pre1 (Suc n) ls st1 = Inr (pre', st')"
    by (auto simp: outcome_simps)
  note IH = Cons.IH [OF ls]
  from l [unfolded parse_line_iff] show ?case
  proof (elim disjE exE conjE)
    fix k v assume "means l (Binds k v)" "pre1 = pre" "st1 = add_values [(pre @ k, v)] st"
    with IH Cons.prems(2) show ?thesis by (auto intro: Reads_Binds)
  next
    fix m assume m: "means l (Includes m)" "pre1 = pre" and "include_file fs rec m st = Inr st1"
    with Cons.prems(2) obtain q content where q: "resolves fs (last (ini_includes st)) m q content"
        "\<forall>p \<in> set (ini_includes st). \<not> path_eq p q" and "rec content q st = Inr st1"
      by (auto simp: include_file_iff)
    then obtain sub where sub: "reads fs (ini_includes st @ [q]) [] (lines_of content) sub"
        "st1 = add_values sub st" using rec by blast
    with IH Cons.prems(2) m obtain kvs where "reads fs (ini_includes st) pre ls kvs"
        "st' = add_values (sub @ kvs) st" by auto
    with m q sub show ?thesis by (blast intro: Reads_Includes)
  qed (use IH Cons.prems(2) in \<open>auto simp: with_dot_dotted intro: Reads_Nothing Reads_Opens\<close>)
qed

lemma ini_parse_reads:
  "ini_parse fuel fs content q st = Inr st' \<Longrightarrow>
     \<exists>kvs. reads fs (ini_includes st @ [q]) [] (lines_of content) kvs \<and> st' = add_values kvs st"
proof (induction fuel arbitrary: content q st st')
  case (Suc fuel)
  let ?st = "st\<lparr>ini_includes := ini_includes st @ [q]\<rparr>"
  from Suc.prems obtain pre' st1 where
    r: "run_lines fs (ini_parse fuel fs) [] 1 (lines_of content) ?st = Inr (pre', st1)"
    and st': "st' = st1\<lparr>ini_includes := butlast (ini_includes st1)\<rparr>"
    by (auto simp: parse_lines_run outcome_simps split: if_splits)
  have "ini_includes ?st \<noteq> []" by simp
  from run_lines_reads [OF Suc.IH r this] obtain kvs where
    "reads fs (ini_includes st @ [q]) [] (lines_of content) kvs" "st1 = add_values kvs ?st" by auto
  then show ?case using st' by (auto simp: add_values_def)
qed simp

text \<open>Conversely: what has a meaning is parsed, with any fuel from some on.\<close>

definition runs_to :: "filesystem \<Rightarrow> path list \<Rightarrow> string \<Rightarrow> string list \<Rightarrow> pairs \<Rightarrow> bool" where
  "runs_to fs stack pre ls kvs \<longleftrightarrow>
     (\<exists>enough. \<forall>fuel \<ge> enough. \<forall>n st. ini_includes st = stack \<longrightarrow>
        (\<exists>pre'. run_lines fs (ini_parse fuel fs) pre n ls st = Inr (pre', add_values kvs st)))"

lemma runs_toE:
  assumes "runs_to fs stack pre ls kvs"
  obtains e where "\<And>fuel n st. e \<le> fuel \<Longrightarrow> ini_includes st = stack \<Longrightarrow>
      \<exists>pre'. run_lines fs (ini_parse fuel fs) pre n ls st = Inr (pre', add_values kvs st)"
  using assms unfolding runs_to_def by metis

lemma runs_to_step:
  assumes "runs_to fs stack pre1 ls kvs"
    and "\<exists>enough. \<forall>fuel \<ge> enough. \<forall>st. ini_includes st = stack \<longrightarrow>
      parse_line fs (ini_parse fuel fs) pre l st = Inr (pre1, add_values new st)"
  shows "runs_to fs stack pre (l # ls) (new @ kvs)"
proof -
  from assms(1) obtain e1 where e1: "\<And>fuel n st. e1 \<le> fuel \<Longrightarrow> ini_includes st = stack \<Longrightarrow>
      \<exists>pre'. run_lines fs (ini_parse fuel fs) pre1 n ls st = Inr (pre', add_values kvs st)"
    by (rule runs_toE) blast
  from assms(2) obtain e2 where e2: "\<And>fuel st. e2 \<le> fuel \<Longrightarrow> ini_includes st = stack \<Longrightarrow>
      parse_line fs (ini_parse fuel fs) pre l st = Inr (pre1, add_values new st)" by blast
  show ?thesis
    unfolding runs_to_def
  proof (intro exI [of _ "max e1 e2"] allI impI)
    fix fuel n and st :: ini_state
    assume "max e1 e2 \<le> fuel" "ini_includes st = stack"
    then show "\<exists>pre'. run_lines fs (ini_parse fuel fs) pre n (l # ls) st =
        Inr (pre', add_values (new @ kvs) st)"
      using e1 [of fuel "add_values new st" "Suc n"] e2 [of fuel st] by (auto simp: at_line_def)
  qed
qed

lemma reads_runs:
  assumes "reads fs stack pre ls kvs" and "canonical_absolute fs" and "stack \<noteq> []"
  shows "runs_to fs stack pre ls kvs"
  using assms
proof (induction rule: reads.induct)
  case (Reads_End stack pre)
  show ?case by (simp add: runs_to_def)
next
  case (Reads_Nothing l stack pre ls kvs)
  then show ?case using runs_to_step [of fs stack pre ls kvs pre l "[]"] by (simp add: parse_line_iff)
next
  case (Reads_Opens l p stack ls kvs pre)
  then show ?case
    using runs_to_step [of fs stack "dotted p" ls kvs pre l "[]"]
    by (simp add: parse_line_iff with_dot_dotted) blast
next
  case (Reads_Binds l k v stack pre ls kvs)
  then show ?case
    using runs_to_step [of fs stack pre ls kvs pre l "[(pre @ k, v)]"]
    by (simp add: parse_line_iff) blast
next
  case (Reads_Includes l m stack q content sub pre ls kvs)
  have "runs_to fs (stack @ [q]) [] (lines_of content) sub"
    using Reads_Includes.IH(1) Reads_Includes.prems by simp
  then obtain e where e: "\<And>fuel n st. e \<le> fuel \<Longrightarrow>
      ini_includes st = stack @ [q] \<Longrightarrow>
      \<exists>pre'. run_lines fs (ini_parse fuel fs) [] n (lines_of content) st = Inr (pre', add_values sub st)"
    by (rule runs_toE) blast
  have absolute: "is_absolute q"
    using Reads_Includes.hyps(2) Reads_Includes.prems(1)
    by (auto simp: resolves_def canonical_absolute_def canonical_paths_def Let_def)
  have "ini_parse fuel fs content q st = Inr (add_values sub st)"
    if fuel: "Suc e \<le> fuel" and st: "ini_includes st = stack" for fuel and st :: ini_state
  proof -
    obtain f where f: "fuel = Suc f" "e \<le> f" using fuel by (cases fuel) auto
    show ?thesis
      using e [OF f(2), of "st\<lparr>ini_includes := ini_includes st @ [q]\<rparr>" 1] absolute st f(1)
      by (auto simp: parse_lines_run add_values_def)
  qed
  then have "parse_line fs (ini_parse fuel fs) pre l st = Inr (pre, add_values sub st)"
    if "Suc e \<le> fuel" "ini_includes st = stack" for fuel and st :: ini_state
    using that Reads_Includes.hyps(1-3) Reads_Includes.prems(2) by (auto intro: parse_line_includes)
  then have "\<exists>enough. \<forall>fuel \<ge> enough. \<forall>st. ini_includes st = stack \<longrightarrow>
      parse_line fs (ini_parse fuel fs) pre l st = Inr (pre, add_values sub st)" by blast
  then show ?case using Reads_Includes.IH(2) Reads_Includes.prems by (blast intro: runs_to_step)
qed

lemma parse_impl_reads:
  assumes "canonical_absolute fs" and "is_absolute q"
  shows "(\<exists>fuel. parse_impl fuel fs content q = Inr kvs) \<longleftrightarrow> reads fs [q] [] (lines_of content) kvs"
proof
  assume "\<exists>fuel. parse_impl fuel fs content q = Inr kvs"
  then obtain fuel st where st: "ini_parse fuel fs content q empty_state = Inr st" "kvs = ini_values st"
    by (auto simp: parse_impl_def outcome_simps)
  from ini_parse_reads [OF st(1)] st(2) show "reads fs [q] [] (lines_of content) kvs"
    by (auto simp: empty_state_def)
next
  assume "reads fs [q] [] (lines_of content) kvs"
  then have "runs_to fs [q] [] (lines_of content) kvs" using reads_runs assms(1) by blast
  then obtain e where e: "\<And>fuel n st. e \<le> fuel \<Longrightarrow>
      ini_includes st = [q] \<Longrightarrow>
      \<exists>pre'. run_lines fs (ini_parse fuel fs) [] n (lines_of content) st = Inr (pre', add_values kvs st)"
    by (rule runs_toE) blast
  have "parse_impl (Suc e) fs content q = Inr kvs"
    using e [of e "empty_state\<lparr>ini_includes := [q]\<rparr>" 1] assms(2)
    by (auto simp: parse_impl_def parse_lines_run empty_state_def)
  then show "\<exists>fuel. parse_impl fuel fs content q = Inr kvs" ..
qed

text \<open>Above the bound of the termination theorem the fuel can be left out of account.\<close>

lemma parse_impl_enough:
  assumes "finite (canonical_paths fs)" and "card (canonical_paths fs) < fuel"
    and "canonical_absolute fs" and "is_absolute q"
  shows "parse_impl fuel fs content q = Inr kvs \<longleftrightarrow> (\<exists>fuel. parse_impl fuel fs content q = Inr kvs)"
proof
  assume "\<exists>fuel. parse_impl fuel fs content q = Inr kvs"
  then obtain f st where st: "ini_parse f fs content q empty_state = Inr st" "kvs = ini_values st"
    by (auto simp: parse_impl_def outcome_simps)
  have "ini_parse fuel fs content q empty_state \<noteq> Inl Out_Of_Fuel"
    using parse_impl_runtime [OF assms, of content] by (auto simp: parse_impl_def)
  with st(1) have "ini_parse fuel fs content q empty_state = Inr st"
    using ini_parse_more [of f fuel fs content q empty_state]
      ini_parse_more [of fuel f fs content q empty_state] by (cases "f \<le> fuel") auto
  with st(2) show "parse_impl fuel fs content q = Inr kvs" by (simp add: parse_impl_def)
qed blast

definition file_means :: "filesystem \<Rightarrow> path \<Rightarrow> pairs \<Rightarrow> bool" where
  "file_means fs filename kvs \<longleftrightarrow>
    (\<exists>content q. open_file fs filename = Some content \<and> canonical fs filename = Inr q \<and>
       reads fs [q] [] (lines_of content) kvs)"

lemma parse_file_means:
  assumes "finite (canonical_paths fs)" and "canonical_absolute fs" and "card (canonical_paths fs) < fuel"
  shows "parse_file fuel fs filename = Inr kvs \<longleftrightarrow> file_means fs filename kvs"
proof (cases "open_file fs filename")
  case (Some content)
  show ?thesis
  proof (cases "canonical fs filename")
    case (Inr q)
    then have "is_absolute q" using assms(2) by (auto simp: canonical_absolute_def canonical_paths_def)
    then have "parse_impl fuel fs content q = Inr kvs \<longleftrightarrow> reads fs [q] [] (lines_of content) kvs"
      using parse_impl_enough [OF assms(1,3,2)] parse_impl_reads [OF assms(2)] by blast
    then show ?thesis
      using Some Inr by (auto simp: parse_file_def file_means_def split: sum.splits fault.splits)
  qed (use Some in \<open>simp add: parse_file_def file_means_def\<close>)
qed (simp add: parse_file_def file_means_def)


section \<open>Cycles\<close>

text \<open>A line of the first file includes the second one.\<close>

inductive includes_file :: "filesystem \<Rightarrow> path \<Rightarrow> path \<Rightarrow> bool" for fs :: filesystem where
  "open_file fs p = Some content \<Longrightarrow> l \<in> set (lines_of content) \<Longrightarrow> means l (Includes n) \<Longrightarrow>
     resolves fs p n q content' \<Longrightarrow> includes_file fs p q"

text \<open>Documented of \<^verbatim>\<open>canonical\<close>: the path it returns names the same file.\<close>

definition canonical_names :: "filesystem \<Rightarrow> bool" where
  "canonical_names fs \<longleftrightarrow> (\<forall>p q. canonical fs p = Inr q \<longrightarrow> open_file fs q = open_file fs p)"

text \<open>A stack whose last file is read below the others.\<close>

definition read_below :: "filesystem \<Rightarrow> path list \<Rightarrow> path \<Rightarrow> bool" where
  "read_below fs stack p \<longleftrightarrow> stack \<noteq> [] \<and> last stack = p \<and>
     (\<exists>content kvs. open_file fs p = Some content \<and> reads fs stack [] (lines_of content) kvs)"

lemma means_determ: "means l m \<Longrightarrow> means l m' \<Longrightarrow> m = Includes n \<Longrightarrow> m' = Includes n"
proof (induction rule: means.induct)
  case (Mean_Includes l w t n')
  from Mean_Includes.prems Mean_Includes.hyps show ?case
    by (cases rule: means.cases) (auto simp: file_name.simps key_text.simps)
qed simp_all

lemma reads_include:
  assumes "reads fs stack pre ls kvs" and "l \<in> set ls" and "means l (Includes n)"
  shows "\<exists>q content sub. resolves fs (last stack) n q content \<and> (\<forall>p \<in> set stack. \<not> path_eq p q) \<and>
     reads fs (stack @ [q]) [] (lines_of content) sub"
  using assms
proof (induction rule: reads.induct)
  case (Reads_Includes l' m stack q content sub pre ls kvs)
  show ?case
  proof (cases "l = l'")
    case True
    then have "m = n" using means_determ [OF Reads_Includes.prems(2)] Reads_Includes.hyps(1) by blast
    then show ?thesis using Reads_Includes.hyps by blast
  next
    case False
    then show ?thesis using Reads_Includes.IH(2) Reads_Includes.prems by simp
  qed
qed (auto dest: means_determ)

lemma read_below_include:
  assumes "read_below fs stack p" and "includes_file fs p q" and "canonical_names fs"
  shows "read_below fs (stack @ [q]) q \<and> q \<notin> set stack"
  using assms(2)
proof cases
  case (1 content l n content')
  from assms(1) 1(1) obtain kvs where "reads fs stack [] (lines_of content) kvs" "last stack = p"
    by (auto simp: read_below_def)
  from reads_include [OF this(1) 1(2,3)] this(2) obtain q' content'' sub where
    r: "resolves fs p n q' content''" "\<forall>p \<in> set stack. \<not> path_eq p q'"
      "reads fs (stack @ [q']) [] (lines_of content'') sub" by auto
  have "q' = q" "content'' = content'" using r(1) 1(4) by (auto simp: resolves_def Let_def)
  moreover have "open_file fs q = Some content'"
    using 1(4) assms(3) by (auto simp: resolves_def canonical_names_def Let_def split: if_splits)
  ultimately show ?thesis using r path_eq_refl [of q] by (auto simp: read_below_def)
qed

lemma read_below_acyclic:
  assumes "(includes_file fs)\<^sup>+\<^sup>+ p q" and "read_below fs stack p" and "canonical_names fs"
  shows "\<exists>more. read_below fs (stack @ more) q \<and> q \<notin> set stack"
  using assms(1)
proof (induction rule: tranclp_induct)
  case (base q)
  then show ?case using read_below_include [OF assms(2) _ assms(3)] by blast
next
  case (step q r)
  then obtain more where "read_below fs (stack @ more) q" by blast
  from read_below_include [OF this step.hyps(2) assms(3)]
  have "read_below fs (stack @ more @ [r]) r" "r \<notin> set stack" by simp_all
  then show ?case by blast
qed

lemma reads_acyclic:
  assumes "reads fs [q] [] (lines_of content) kvs" and "open_file fs q = Some content"
    and "canonical_names fs" and "(includes_file fs)\<^sup>*\<^sup>* q p"
  shows "\<not> (includes_file fs)\<^sup>+\<^sup>+ p p"
proof
  assume cycle: "(includes_file fs)\<^sup>+\<^sup>+ p p"
  have "read_below fs [q] q" using assms(1,2) by (auto simp: read_below_def)
  with assms(4) obtain stack where stack: "read_below fs stack p"
    using read_below_acyclic [of fs q p "[q]"] assms(3) by (auto dest!: rtranclpD)
  from stack have "p \<in> set stack" by (auto simp: read_below_def)
  then show False using read_below_acyclic [OF cycle stack assms(3)] by blast
qed

text \<open>What a printed \<^verbatim>\<open>#include\<close> means.\<close>

lemma means_include_line:
  assumes "trim p = p" and "p \<noteq> []"
  shows "means (item_line (Include p sub)) (Includes p)"
proof -
  have "line_tokens (item_line (Include p sub)) = Inr [(CHR ''i'', include_word), (dquote, escape p)]"
    using tokenize_include [of p sub] by (simp add: line_tokens_def tokenize_lex is_comment_def)
  moreover have "file_name (dquote, escape p) p"
    using Quoted_Name [of "escape p"] assms by (simp add: unescape_escape)
  ultimately show ?thesis by (rule Mean_Includes)
qed


section \<open>Properties\<close>

text \<open>C2: the parser implements the semantics: it returns the pairs of exactly the files that have a
  meaning, and it throws a \<^verbatim>\<open>runtime_error\<close> for all others.\<close>

theorem parse_file_semantics:
  assumes "finite (canonical_paths fs)" and "canonical_absolute fs" and "card (canonical_paths fs) < fuel"
  shows "(parse_file fuel fs filename = Inr kvs \<longleftrightarrow> file_means fs filename kvs) \<and>
    ((\<nexists>kvs. file_means fs filename kvs) \<longrightarrow>
      (\<exists>msg. parse_file fuel fs filename = Inl (Runtime_Error msg)))"
proof (intro conjI impI)
  note iff = parse_file_means [OF assms, of filename]
  show "parse_file fuel fs filename = Inr kvs \<longleftrightarrow> file_means fs filename kvs" by (rule iff)
  assume "\<nexists>kvs. file_means fs filename kvs"
  then have "parse_file fuel fs filename \<noteq> Inr kvs" for kvs using iff by blast
  then show "\<exists>msg. parse_file fuel fs filename = Inl (Runtime_Error msg)"
    using parse_file_runtime [OF assms, of filename] by (cases "parse_file fuel fs filename") auto
qed

lemma parse_file_semantics_witness:
  "file_means (flat_fs [(''/b'', print_doc [Entry ''x'' ''1'']),
       (''/a'', print_doc [Section ''s'', Include ''/b'' [Entry ''x'' ''1''], Entry ''y'' ''2''])]) ''/a''
     [(''x'', ''1''), (''s.y'', ''2'')]"
proof -
  let ?ds = "[Section ''s'', Include ''/b'' [Entry ''x'' ''1''], Entry ''y'' ''2'']"
  let ?fs = "flat_fs [(''/b'', print_doc [Entry ''x'' ''1'']), (''/a'', print_doc ?ds)]"
  have "ini_parse 3 ?fs (print_doc ?ds) ''/a'' empty_state = Inr (add_values (doc_pairs [] ?ds) empty_state)"
    by (rule ini_parse_print_doc)
       (simp_all add: is_absolute_def empty_state_def trim_eq is_space_eq skip_space_def path_eq_def
         path_elements_def)
  then have r: "parse_file 3 ?fs ''/a'' = Inr [(''x'', ''1''), (''s.y'', ''2'')]"
    by (simp add: parse_file_def parse_impl_def empty_state_def with_dot_def)
  have "(parse_file 3 ?fs ''/a'' = Inr [(''x'', ''1''), (''s.y'', ''2'')] \<longleftrightarrow>
      file_means ?fs ''/a'' [(''x'', ''1''), (''s.y'', ''2'')]) \<and>
    ((\<nexists>kvs. file_means ?fs ''/a'' kvs) \<longrightarrow> (\<exists>msg. parse_file 3 ?fs ''/a'' = Inl (Runtime_Error msg)))"
    by (rule parse_file_semantics)
       (simp_all add: canonical_paths_flat_fs canonical_absolute_def is_absolute_def)
  with r show ?thesis by simp
qed

text \<open>C19: a cycle is never read: if some file that is reached from the given one by includes reaches
  itself again, over any number of files and under any names that lead to them, reading ends in a
  \<^verbatim>\<open>runtime_error\<close>.\<close>

theorem include_cycle_rejected:
  assumes "finite (canonical_paths fs)" and "canonical_absolute fs" and "card (canonical_paths fs) < fuel"
    and "canonical_names fs" and "canonical fs filename = Inr q"
    and "(includes_file fs)\<^sup>*\<^sup>* q p" and "(includes_file fs)\<^sup>+\<^sup>+ p p"
  shows "\<exists>msg. parse_file fuel fs filename = Inl (Runtime_Error msg)"
proof -
  have "\<not> file_means fs filename kvs" for kvs
    using reads_acyclic [of fs q _ kvs p] assms(4-7) by (auto simp: file_means_def canonical_names_def)
  then have "parse_file fuel fs filename \<noteq> Inr kvs" for kvs
    using parse_file_means [OF assms(1-3)] by blast
  then show ?thesis
    using parse_file_runtime [OF assms(1-3), of filename] by (cases "parse_file fuel fs filename") auto
qed

lemma include_cycle_rejected_witness:
  "\<exists>msg. parse_file 3 (flat_fs [(''/a'', item_line (Include ''/b'' [])), (''/b'', item_line (Include ''/a'' []))])
     ''/a'' = Inl (Runtime_Error msg)"
proof -
  let ?fs = "flat_fs [(''/a'', item_line (Include ''/b'' [])), (''/b'', item_line (Include ''/a'' []))]"
  have line: "item_line (Include p []) \<in> set (lines_of (item_line (Include p [])))" if "newline \<notin> set p" for p
  proof -
    have "newline \<notin> set (item_line (Include p []))"
      using that set_escape [of p] by (auto simp: item_line.simps quote_def)
    then show ?thesis by (simp add: lines_of_def split_on_no_sep) (simp add: item_line.simps)
  qed
  have means: "means (item_line (Include p [])) (Includes p)" if "p = ''/a'' \<or> p = ''/b''" for p
    using that by (intro means_include_line) (auto simp: trim_eq is_space_eq skip_space_def)
  have ab: "includes_file ?fs ''/a'' ''/b''"
    by (rule includes_file.intros [of ?fs _ "item_line (Include ''/b'' [])", OF _ _ means [of "''/b''"]])
       (simp_all add: line resolves_def is_absolute_def)
  have ba: "includes_file ?fs ''/b'' ''/a''"
    by (rule includes_file.intros [of ?fs _ "item_line (Include ''/a'' [])", OF _ _ means [of "''/a''"]])
       (simp_all add: line resolves_def is_absolute_def)
  have "(includes_file ?fs)\<^sup>+\<^sup>+ ''/a'' ''/a''"
    by (rule tranclp.trancl_into_trancl [of "includes_file ?fs" _ "''/b''"])
       (rule tranclp.r_into_trancl [of "includes_file ?fs"], rule ab, rule ba)
  then show ?thesis
    by (intro include_cycle_rejected [where q = "''/a''" and p = "''/a''"])
       (auto simp: canonical_paths_flat_fs canonical_absolute_def canonical_names_def is_absolute_def)
qed

text \<open>The entry point for a stream: its text under the name the file system completes the given name
  to, which has to be absolute.\<close>

theorem parse_stream_semantics:
  assumes "finite (canonical_paths fs)" and "canonical_absolute fs" and "card (canonical_paths fs) < fuel"
    and "is_directory fs filename = Inr dir"
    and "weakly_canonical fs (if dir then path_append filename ''this.ini'' else filename) = Inr q"
    and "is_absolute q"
  shows "parse_stream fuel fs input filename = Inr kvs \<longleftrightarrow> reads fs [q] [] (lines_of input) kvs"
  using parse_impl_enough [OF assms(1,3,2,6)] parse_impl_reads [OF assms(2,6)] assms(4,5)
  by (simp add: parse_stream_def)

end
