(* ===== verification/Ini_Errors.thy ===== *)
theory Ini_Errors
  imports Ini_Semantics
begin

text \<open>
  What an error of the ini parser says: its message is the file name and the numbers of the lines
  that lead to the error, one for each file down the includes, and what the last line fails with on
  its own.
\<close>

section \<open>Lines that fail\<close>

text \<open>A line that fails below a stack of open files, whatever the section and the parser of included
  files.\<close>

definition line_fails :: "filesystem \<Rightarrow> path list \<Rightarrow> string \<Rightarrow> string \<Rightarrow> bool" where
  "line_fails fs stack l why \<longleftrightarrow>
     (\<forall>rec pre st. ini_includes st = stack \<longrightarrow> parse_line fs rec pre l st = Inl (Runtime_Error why))"

text \<open>The numbers of the lines that lead to an error: every line before has a meaning.\<close>

inductive fails_at :: "filesystem \<Rightarrow> path list \<Rightarrow> string list \<Rightarrow> nat list \<Rightarrow> string \<Rightarrow> bool"
  for fs :: filesystem where
  Fails_Here: "i < length ls \<Longrightarrow> \<forall>l \<in> set (take i ls). \<exists>m. means l m \<Longrightarrow> line_fails fs stack (ls ! i) why \<Longrightarrow>
    fails_at fs stack ls [Suc i] why"
| Fails_Below: "i < length ls \<Longrightarrow> \<forall>l \<in> set (take i ls). \<exists>m. means l m \<Longrightarrow> means (ls ! i) (Includes n) \<Longrightarrow>
    resolves fs (last stack) n q content \<Longrightarrow> \<forall>p \<in> set stack. \<not> path_eq p q \<Longrightarrow>
    fails_at fs (stack @ [q]) (lines_of content) ns why \<Longrightarrow> fails_at fs stack ls (Suc i # ns) why"

definition line_trace :: "nat list \<Rightarrow> string" where
  "line_trace ns = concat (map (\<lambda>n. ''('' @ dec_string n @ ''): '') ns)"

lemma assign_value_error: "assign_value key others = Inl e \<Longrightarrow> assign_value key' others = Inl e"
  by (auto simp: assign_value_def unexpected_token_def obind_eq_Inl_iff split: list.splits if_splits)

lemma parse_assignment_error: "parse_assignment ts pre = Inl e \<Longrightarrow> parse_assignment ts pre' = Inl e"
  by (auto simp: parse_assignment_def obind_eq_Inl_iff split: list.splits dest: assign_value_error)

lemma include_file_error:
  assumes "include_file fs rec n st = Inl e" and "ini_includes st \<noteq> []"
  shows "(\<forall>rec' st'. ini_includes st' = ini_includes st \<longrightarrow> include_file fs rec' n st' = Inl e) \<or>
    (\<exists>q content. resolves fs (last (ini_includes st)) n q content \<and>
       (\<forall>p \<in> set (ini_includes st). \<not> path_eq p q) \<and> rec content q st = Inl e)"
proof -
  define p where "p = (if is_absolute n then n else path_append (parent_path (last (ini_includes st))) n)"
  have f: "include_file fs rec' n st' = (case open_file fs p of
         None \<Rightarrow> Inl (Runtime_Error (''can'' @ [squote] @ ''t open #include file '' @
                   quoted n @ '' -> '' @ quoted p))
       | Some content \<Rightarrow>
           obind (fs_call (canonical fs p)) (\<lambda>canon.
             let cycle = dropWhile (\<lambda>p. \<not> path_eq p canon) (ini_includes st) in
             if cycle \<noteq> [] then Inl (Runtime_Error (cycle_message cycle n canon))
             else rec' content canon st'))" if "ini_includes st' = ini_includes st" for rec' st'
    unfolding include_file_def p_def using that assms(2)
    by (cases "is_absolute n") (simp_all cong: option.case_cong)
  show ?thesis
  proof (cases "open_file fs p")
    case None
    then show ?thesis using assms(1) f by auto
  next
    case (Some content)
    show ?thesis
    proof (cases "canonical fs p")
      case (Inl msg)
      then show ?thesis using Some assms(1) f by auto
    next
      case (Inr q)
      show ?thesis
      proof (cases "dropWhile (\<lambda>p. \<not> path_eq p q) (ini_includes st) = []")
        case True
        then have "rec content q st = Inl e" using Some Inr assms(1) f by simp
        moreover have "resolves fs (last (ini_includes st)) n q content"
          using Some Inr by (simp add: resolves_def p_def)
        ultimately show ?thesis using True by (auto simp: dropWhile_eq_Nil_conv)
      next
        case False
        then show ?thesis using Some Inr assms(1) f by auto
      qed
    qed
  qed
qed

lemma process_include_error:
  assumes "process_include fs rec (t0 # ts) st = Inl e" and "ini_includes st \<noteq> []"
    and "wf_tokens True (t0 # ts)"
  shows "(\<forall>rec' st'. ini_includes st' = ini_includes st \<longrightarrow> process_include fs rec' (t0 # ts) st' = Inl e) \<or>
    (\<exists>t n q content. ts = [t] \<and> file_name t n \<and> resolves fs (last (ini_includes st)) n q content \<and>
       (\<forall>p \<in> set (ini_includes st). \<not> path_eq p q) \<and> rec content q st = Inl e)"
proof -
  consider "length ts \<noteq> 1" | t where "ts = [t]" by (cases ts; cases "tl ts") auto
  then show ?thesis
  proof cases
    case 1
    then have "process_include fs rec' (t0 # ts) st' = process_include fs rec (t0 # ts) st" for rec' st'
      by (cases ts; cases "tl ts") (auto simp: process_include_def)
    then show ?thesis using assms(1) by simp
  next
    case (2 t)
    obtain b where b: "token_ok b t" using wf_tokens_mem [OF assms(3), of t] 2 by auto
    have f: "process_include fs rec' (t0 # ts) st' = obind (include_filename t) (\<lambda>n.
        if n \<noteq> [] then include_file fs rec' n st' else filename_expected)" for rec' st'
      by (simp add: process_include_def 2)
    show ?thesis
    proof (cases "include_filename t")
      case (Inr n)
      show ?thesis
      proof (cases "n = []")
        case False
        then have n: "file_name t n" using Inr include_filename_iff [OF b] by blast
        have "include_file fs rec n st = Inl e" using assms(1) f Inr False by simp
        from include_file_error [OF this assms(2)] show ?thesis
        proof
          assume "\<forall>rec' st'. ini_includes st' = ini_includes st \<longrightarrow> include_file fs rec' n st' = Inl e"
          then show ?thesis using f Inr False by simp
        qed (use 2 n in blast)
      qed (use assms(1) f Inr in simp)
    qed (use assms(1) f in simp)
  qed
qed

text \<open>A line that fails does so on its own, or in the file it includes.\<close>

lemma parse_line_error:
  assumes "parse_line fs rec pre l st = Inl (Runtime_Error why)" and "ini_includes st \<noteq> []"
  shows "line_fails fs (ini_includes st) l why \<or>
    (\<exists>n q content. means l (Includes n) \<and> resolves fs (last (ini_includes st)) n q content \<and>
       (\<forall>p \<in> set (ini_includes st). \<not> path_eq p q) \<and> rec content q st = Inl (Runtime_Error why))"
proof (cases "line_tokens l")
  case (Inl e)
  then show ?thesis using assms(1) by (simp add: line_fails_def parse_line_line_tokens)
next
  case (Inr ts)
  then have p: "process_tokens fs rec pre ts st = Inl (Runtime_Error why)"
    using assms(1) by (simp add: parse_line_line_tokens)
  then obtain t0 rest where ts: "ts = t0 # rest" by (cases ts) (auto simp: process_tokens_def)
  note tokens = Inr [unfolded ts]
  have own: "line_fails fs (ini_includes st) l why"
    if "\<And>rec' pre' st'. ini_includes st' = ini_includes st \<Longrightarrow>
      process_tokens fs rec' pre' ts st' = Inl (Runtime_Error why)"
    using that Inr by (simp add: line_fails_def parse_line_line_tokens)
  consider "fst t0 = CHR ''i''" | "fst t0 = CHR ''[''" | "fst t0 \<noteq> CHR ''i''" "fst t0 \<noteq> CHR ''[''" by blast
  then show ?thesis
  proof cases
    case 1
    have f: "process_tokens fs r q ts s = obind (process_include fs r ts s) (\<lambda>st'. Inr (q, st'))" for r q s
      using 1 by (simp add: process_tokens_def ts)
    then have "process_include fs rec (t0 # rest) st = Inl (Runtime_Error why)"
      using p ts by (auto simp: obind_eq_Inl_iff)
    from process_include_error [OF this assms(2) wf_line_tokens [OF tokens]] show ?thesis
    proof
      assume "\<forall>rec' st'. ini_includes st' = ini_includes st \<longrightarrow>
        process_include fs rec' (t0 # rest) st' = Inl (Runtime_Error why)"
      then show ?thesis using own f ts by simp
    next
      assume "\<exists>t n q content. rest = [t] \<and> file_name t n \<and> resolves fs (last (ini_includes st)) n q content \<and>
        (\<forall>p \<in> set (ini_includes st). \<not> path_eq p q) \<and> rec content q st = Inl (Runtime_Error why)"
      then obtain t n q content where t: "rest = [t]" "file_name t n"
        and q: "resolves fs (last (ini_includes st)) n q content"
          "\<forall>p \<in> set (ini_includes st). \<not> path_eq p q" "rec content q st = Inl (Runtime_Error why)" by blast
      have "t0 = (CHR ''i'', snd t0)" using 1 by (cases t0) simp
      then have "line_tokens l = Inr [(CHR ''i'', snd t0), t]" using tokens t(1) by simp
      then have "means l (Includes n)" using t(2) by (rule Mean_Includes)
      with q show ?thesis by blast
    qed
  next
    case 2
    then have "process_tokens fs r q ts s = obind (parse_section ts) (\<lambda>pre'. Inr (pre', s))" for r q s
      by (simp add: process_tokens_def ts)
    then show ?thesis using p own by (auto simp: obind_eq_Inl_iff)
  next
    case 3
    then have f: "process_tokens fs r q ts s = obind (parse_assignment ts q) (\<lambda>kv.
        Inr (q, s\<lparr>ini_values := ini_values s @ [kv]\<rparr>))" for r q s
      by (simp add: process_tokens_def ts)
    then have "parse_assignment ts pre = Inl (Runtime_Error why)" using p by (simp add: obind_eq_Inl_iff)
    then have "parse_assignment ts q = Inl (Runtime_Error why)" for q by (rule parse_assignment_error)
    then show ?thesis using own f by simp
  qed
qed

lemma reads_means: "reads fs stack pre ls kvs \<Longrightarrow> l \<in> set ls \<Longrightarrow> \<exists>m. means l m"
  by (induction rule: reads.induct) auto

lemma run_lines_fails:
  assumes rec_error: "\<And>content q st msg. rec content q st = Inl (Runtime_Error msg) \<Longrightarrow>
      \<exists>ns why. fails_at fs (ini_includes st @ [q]) (lines_of content) ns why \<and> msg = line_trace ns @ why"
    and rec_reads: "\<And>content q st st'. rec content q st = Inr st' \<Longrightarrow>
      \<exists>kvs. reads fs (ini_includes st @ [q]) [] (lines_of content) kvs \<and> st' = add_values kvs st"
    and r: "run_lines fs rec pre 1 ls st = Inl (Runtime_Error msg)" and "ini_includes st \<noteq> []"
  shows "\<exists>ns why. fails_at fs (ini_includes st) ls ns why \<and> msg = line_trace ns @ why"
proof -
  from run_lines_error [OF r] obtain i pre' st' why where i: "i < length ls"
    and before: "run_lines fs rec pre 1 (take i ls) st = Inr (pre', st')"
    and l: "parse_line fs rec pre' (ls ! i) st' = Inl (Runtime_Error why)"
    and msg: "msg = ''('' @ dec_string (1 + i) @ ''): '' @ why" by blast
  from run_lines_reads [OF rec_reads before assms(4)] obtain kvs where
    kvs: "reads fs (ini_includes st) pre (take i ls) kvs" "st' = add_values kvs st" by blast
  then have meant: "\<forall>l \<in> set (take i ls). \<exists>m. means l m" and st': "ini_includes st' = ini_includes st"
    using reads_means by auto
  from parse_line_error [OF l] st' assms(4) consider "line_fails fs (ini_includes st) (ls ! i) why"
    | n q content where "means (ls ! i) (Includes n)" "resolves fs (last (ini_includes st)) n q content"
      "\<forall>p \<in> set (ini_includes st). \<not> path_eq p q" "rec content q st' = Inl (Runtime_Error why)" by auto
  then show ?thesis
  proof cases
    case 1
    then have "fails_at fs (ini_includes st) ls [Suc i] why" using i meant by (intro Fails_Here)
    then show ?thesis using msg by (intro exI [of _ "[Suc i]"] exI [of _ why]) (simp add: line_trace_def)
  next
    case (2 n q content)
    from rec_error [OF 2(4)] st' obtain ns why' where
      ns: "fails_at fs (ini_includes st @ [q]) (lines_of content) ns why'" "why = line_trace ns @ why'" by auto
    have "fails_at fs (ini_includes st) ls (Suc i # ns) why'"
      by (rule Fails_Below [OF i meant 2(1-3) ns(1)])
    then show ?thesis
      using msg ns(2) by (intro exI [of _ "Suc i # ns"] exI [of _ why']) (simp add: line_trace_def)
  qed
qed

lemma ini_parse_fails:
  "ini_parse fuel fs content q st = Inl (Runtime_Error msg) \<Longrightarrow>
     \<exists>ns why. fails_at fs (ini_includes st @ [q]) (lines_of content) ns why \<and> msg = line_trace ns @ why"
proof (induction fuel arbitrary: content q st msg)
  case (Suc fuel)
  let ?st = "st\<lparr>ini_includes := ini_includes st @ [q]\<rparr>"
  have "run_lines fs (ini_parse fuel fs) [] 1 (lines_of content) ?st = Inl (Runtime_Error msg)"
    using Suc.prems by (auto simp: parse_lines_run obind_eq_Inl_iff split: if_splits)
  from run_lines_fails [OF Suc.IH ini_parse_reads this] show ?case by simp
qed simp


section \<open>Properties\<close>

text \<open>C18: the message of an error leads to it: when a file that can be opened is not read, the message is
  its name, then the number of one line in each file from this one down to the one with the error,
  then what the last of these lines fails with on its own.  Every line but the last includes the file
  of the next number, and all lines before them have a meaning.\<close>

theorem error_trace:
  assumes "parse_file fuel fs filename = Inl (Runtime_Error msg)"
    and "open_file fs filename = Some content" and "canonical fs filename = Inr q"
  shows "\<exists>ns why. fails_at fs [q] (lines_of content) ns why \<and> msg = filename @ line_trace ns @ why"
proof -
  from assms obtain msg' where msg: "msg = filename @ msg'"
    and "ini_parse fuel fs content q empty_state = Inl (Runtime_Error msg')"
    by (auto simp: parse_file_def parse_impl_def obind_eq_Inl_iff split: sum.splits fault.splits)
  from ini_parse_fails [OF this(2)] msg show ?thesis by (simp add: empty_state_def)
qed

lemma error_trace_witness:
  "\<exists>ns why. fails_at (flat_fs [(''/a'', item_line (Include ''/b'' [])), (''/b'', ''[]'')]) [''/a'']
      (lines_of (item_line (Include ''/b'' []))) ns why \<and>
    ''/a'' @ ''('' @ dec_string 1 @ ''): ('' @ dec_string 1 @ ''): empty section'' = ''/a'' @ line_trace ns @ why"
proof -
  let ?fs = "flat_fs [(''/a'', item_line (Include ''/b'' [])), (''/b'', ''[]'')]"
  let ?line = "item_line (Include ''/b'' [])"
  have "tokenize ''[]'' = Inr [(CHR ''['', [])]"
    by (simp add: tokenize_lex lex_at_token skip_space_nonspace)
  then have b: "parse_line ?fs rec [] ''[]'' st = Inl (Runtime_Error ''empty section'')" for rec st
    by (simp add: parse_line_tokens is_comment_def process_tokens_def parse_section_def)
  have "lines_of ''[]'' = [''[]'']" by (simp add: lines_of_def)
  then have nested: "ini_parse (Suc 0) ?fs ''[]'' ''/b'' st =
      Inl (Runtime_Error (''('' @ dec_string 1 @ ''): empty section''))" for st
    using b by (simp add: parse_lines_run at_line_def is_absolute_def)
  let ?st = "empty_state\<lparr>ini_includes := [''/a'']\<rparr>"
  have "include_file ?fs (ini_parse (Suc 0) ?fs) ''/b'' ?st = ini_parse (Suc 0) ?fs ''[]'' ''/b'' ?st"
    by (rule include_file_new) (simp_all add: is_absolute_def path_eq_def path_elements_def)
  then have a: "parse_line ?fs (ini_parse (Suc 0) ?fs) [] ?line ?st =
      Inl (Runtime_Error (''('' @ dec_string 1 @ ''): empty section''))"
    using nested by (simp add: parse_line_include trim_eq is_space_eq skip_space_def)
  have "newline \<notin> set ?line" by (auto simp: item_line.simps quote_def escape_def escapee_def)
  then have lines: "lines_of ?line = [?line]"
    by (simp add: lines_of_def split_on_no_sep) (simp add: item_line.simps)
  have "ini_parse (Suc (Suc 0)) ?fs ?line ''/a'' empty_state =
      Inl (Runtime_Error (''('' @ dec_string 1 @ ''): ('' @ dec_string 1 @ ''): empty section''))"
    using a by (simp add: parse_lines_run lines at_line_def
        is_absolute_def empty_state_def)
  then have "parse_file (Suc (Suc 0)) ?fs ''/a'' = Inl (Runtime_Error
      (''/a'' @ ''('' @ dec_string 1 @ ''): ('' @ dec_string 1 @ ''): empty section''))"
    by (simp add: parse_file_def parse_impl_def)
  from error_trace [OF this, of ?line "''/a''"] show ?thesis by simp
qed

end
