(* ===== verification/Circular_Memory.thy ===== *)
theory Circular_Memory
  imports Fb_Prelude "HOL-Library.Word"
begin

text \<open>
  The ring buffer allocator of \<^verbatim>\<open>utils/circular_memory.hpp\<close>, for the default counter
  (\<^verbatim>\<open>size_type\<close> is the 64-bit \<^verbatim>\<open>std::size_t\<close>).  Sizes are words and wrap around as
  the code's do.  Addresses are natural numbers and the memory is a map from addresses to bytes, so
  that the header a block carries in front of its result is what \<^verbatim>\<open>memcpy\<close> put there.
\<close>

type_synonym size_t = "64 word"
type_synonym address = nat
type_synonym bytes = "address \<Rightarrow> 8 word"


section \<open>Bytes of a size\<close>

text \<open>\<^verbatim>\<open>memcpy\<close> of a \<^verbatim>\<open>size_type\<close> to and from memory, least significant byte
  first.\<close>

definition store_size :: "bytes \<Rightarrow> address \<Rightarrow> size_t \<Rightarrow> bytes" where
  "store_size m a w = (\<lambda>x. if a \<le> x \<and> x < a + 8 then ucast (drop_bit (8 * (x - a)) w) else m x)"

definition load_size :: "bytes \<Rightarrow> address \<Rightarrow> size_t" where
  "load_size m a = horner_sum of_nat 256 (map (\<lambda>i. unat (m (a + i))) [0..<8])"

lemma store_size_other: "x < a \<or> a + 8 \<le> x \<Longrightarrow> store_size m a w x = m x"
  by (auto simp: store_size_def)

lemma load_size_cong: "(\<And>x. a \<le> x \<Longrightarrow> x < a + 8 \<Longrightarrow> m x = m' x) \<Longrightarrow> load_size m a = load_size m' a"
  by (auto simp: load_size_def intro!: arg_cong [where f = "horner_sum of_nat 256"])

lemma byte_digits:
  "(n :: nat) < 256 ^ k \<Longrightarrow> (\<Sum>i < k. n div 256 ^ i mod 256 * 256 ^ i) = n"
proof (induction k arbitrary: n)
  case (Suc k)
  have "n div 256 < 256 ^ k" using Suc.prems by (simp add: less_mult_imp_div_less mult.commute)
  then have "(\<Sum>i < k. n div 256 div 256 ^ i mod 256 * 256 ^ i) = n div 256" by (rule Suc.IH)
  moreover have "(\<Sum>i < Suc k. n div 256 ^ i mod 256 * 256 ^ i) =
      n mod 256 + 256 * (\<Sum>i < k. n div 256 div 256 ^ i mod 256 * 256 ^ i)"
    by (subst sum.lessThan_Suc_shift) (simp add: sum_distrib_left div_mult2_eq algebra_simps)
  ultimately show ?case by simp
qed simp

lemma size_t_less: "unat (w :: size_t) < 2 ^ 64"
proof -
  have "(unsigned w :: nat) < 2 ^ LENGTH(64)" by (rule unsigned_less)
  then show ?thesis by simp
qed

lemma load_store_size [simp]: "load_size (store_size m a w) a = w"
proof -
  have byte: "unat (store_size m a w (a + i)) = unat w div 256 ^ i mod 256" if "i < 8" for i
  proof -
    have "unat (store_size m a w (a + i)) = take_bit 8 (drop_bit (8 * i) (unat w))"
      using that by (simp add: store_size_def unsigned_ucast_eq unat_drop_bit_eq unsigned_take_bit_eq)
    then show ?thesis by (simp add: take_bit_eq_mod drop_bit_eq_div power_mult)
  qed
  have "load_size (store_size m a w) a =
      of_nat (\<Sum>i < 8. unat (store_size m a w (a + i)) * 256 ^ i)"
    by (simp add: load_size_def horner_sum_eq_sum lessThan_atLeast0)
  also have "\<dots> = of_nat (\<Sum>i < 8. unat w div 256 ^ i mod 256 * 256 ^ i)"
    by (rule arg_cong [where f = of_nat], rule sum.cong) (auto simp: byte)
  also have "(\<Sum>i < 8. unat w div 256 ^ i mod 256 * 256 ^ i) = unat w"
    using size_t_less [of w] by (intro byte_digits) simp
  also have "of_nat (unat w) = w" by simp
  finally show ?thesis .
qed


section \<open>The allocator\<close>

record circular_memory =
  cm_begin :: address
  cm_tail :: size_t
  cm_size :: size_t
  cm_free :: size_t
  cm_mem :: bytes

text \<open>The constructor, on a memory that holds anything.\<close>

definition circular_memory_init :: "address \<Rightarrow> size_t \<Rightarrow> bytes \<Rightarrow> circular_memory" where
  "circular_memory_init buffer sz m =
     \<lparr>cm_begin = buffer, cm_tail = 0, cm_size = sz, cm_free = sz, cm_mem = m\<rparr>"

definition cm_empty :: "circular_memory \<Rightarrow> bool" where
  "cm_empty c = (cm_free c = cm_size c)"

text \<open>\<^verbatim>\<open>std::align\<close>: the first aligned address from \<open>p\<close> on, if \<open>sz\<close> bytes from
  there fit into the \<open>space\<close> bytes from \<open>p\<close>.\<close>

definition align_up :: "nat \<Rightarrow> address \<Rightarrow> address" where
  "align_up a p = (p + a - 1) div a * a"

definition std_align :: "nat \<Rightarrow> nat \<Rightarrow> address \<Rightarrow> nat \<Rightarrow> address option" where
  "std_align a sz p space =
     (let q = align_up a p in if q - p + sz \<le> space then Some q else None)"

definition pad_n_align :: "size_t \<Rightarrow> size_t \<Rightarrow> address \<Rightarrow> size_t \<Rightarrow> address option" where
  "pad_n_align alignment sz pointer space =
     (if 8 + sz > space then None
      else std_align (unat alignment) (unat sz) (pointer + 8) (unat (space - 8)))"

text \<open>The free bytes from the tail to the end of the buffer, and those at its beginning, for a value
  \<open>free\<close> read from the counter.\<close>

definition split_space :: "circular_memory \<Rightarrow> size_t \<Rightarrow> size_t \<times> size_t" where
  "split_space c free =
     (let end_pos = cm_tail c + free in
      if end_pos > cm_size c then (cm_size c - cm_tail c, end_pos - cm_size c)
      else (end_pos - cm_tail c, 0))"

text \<open>Where a block goes: its address and the bytes it takes from the free space.\<close>

definition place :: "circular_memory \<Rightarrow> size_t \<Rightarrow> size_t \<Rightarrow> size_t \<Rightarrow> (address \<times> size_t) option" where
  "place c free sz alignment =
     (let (first, second) = split_space c free; pointer = cm_begin c + unat (cm_tail c) in
      case pad_n_align alignment sz pointer first of
        Some res \<Rightarrow> Some (res, sz + of_nat (res - pointer))
      | None \<Rightarrow>
          (case pad_n_align alignment sz (cm_begin c) second of
             Some res \<Rightarrow> Some (res, sz + first + of_nat (res - cm_begin c))
           | None \<Rightarrow> None))"

definition write_header :: "address \<Rightarrow> size_t \<Rightarrow> circular_memory \<Rightarrow> circular_memory" where
  "write_header res used c = c\<lparr>cm_mem := store_size (cm_mem c) (res - 8) used\<rparr>"

definition take_free :: "size_t \<Rightarrow> circular_memory \<Rightarrow> circular_memory" where
  "take_free used c = c\<lparr>cm_free := cm_free c - used\<rparr>"

definition move_tail :: "size_t \<Rightarrow> circular_memory \<Rightarrow> circular_memory" where
  "move_tail used c = c\<lparr>cm_tail := (cm_tail c + used) mod cm_size c\<rparr>"

definition allocate ::
  "size_t \<Rightarrow> size_t \<Rightarrow> circular_memory \<Rightarrow> (address option \<times> circular_memory) outcome" where
  "allocate sz alignment c =
     (if sz = 0 \<or> \<not> cm_tail c \<le> cm_size c then Inl Assert_Failed
      else if \<not> fst (split_space c (cm_free c)) + snd (split_space c (cm_free c)) \<le> cm_free c then
        Inl Assert_Failed
      else
        (case place c (cm_free c) sz alignment of
           None \<Rightarrow> Inr (None, c)
         | Some (res, used) \<Rightarrow>
             if cm_size c = 0 then Inl Undefined
             else
               let c' = move_tail used (take_free used (write_header res used c)) in
               if cm_tail c' \<le> cm_size c' then Inr (Some res, c') else Inl Assert_Failed))"

definition used_memory :: "circular_memory \<Rightarrow> address \<Rightarrow> size_t" where
  "used_memory c pointer = load_size (cm_mem c) (pointer - 8)"

definition give_free :: "size_t \<Rightarrow> circular_memory \<Rightarrow> circular_memory" where
  "give_free used c = c\<lparr>cm_free := cm_free c + used\<rparr>"

text \<open>A null pointer fails the assert; address 0 stands for it.\<close>

definition release :: "address \<Rightarrow> circular_memory \<Rightarrow> circular_memory outcome" where
  "release m c = (if m = 0 then Inl Assert_Failed else Inr (give_free (used_memory c m) c))"


section \<open>The operations on natural numbers\<close>

lemma align_up_mod: "0 < a \<Longrightarrow> a dvd align_up a p"
  by (simp add: align_up_def)

lemma align_up_ge: "0 < a \<Longrightarrow> p \<le> align_up a p"
proof -
  assume a: "0 < a"
  have "p + a - 1 = (p + a - 1) div a * a + (p + a - 1) mod a" by simp
  moreover have "(p + a - 1) mod a \<le> a - 1" using a mod_less_divisor [of a "p + a - 1"] by linarith
  ultimately have "p + a - 1 \<le> (p + a - 1) div a * a + (a - 1)" by linarith
  then show ?thesis unfolding align_up_def using a by linarith
qed

lemma align_up_least: "a dvd q \<Longrightarrow> p \<le> q \<Longrightarrow> align_up a p \<le> q"
proof (cases "a = 0")
  case False
  assume "a dvd q" "p \<le> q"
  then obtain k where k: "q = a * k" by blast
  have "(p + a - 1) div a \<le> (a * k + a - 1) div a"
    using \<open>p \<le> q\<close> k by (intro div_le_mono) linarith
  also have "\<dots> = k"
  proof -
    have "a * k + a - 1 = (a - 1) + a * k" using False by linarith
    then have "(a * k + a - 1) div a = ((a - 1) + a * k) div a" by (rule arg_cong)
    also have "\<dots> = k" using False div_mult_self2 [of a "a - 1" k] by simp
    finally show ?thesis .
  qed
  finally show ?thesis by (simp add: align_up_def k mult.commute)
qed (simp add: align_up_def)

lemma pad_n_align_Some:
  assumes "pad_n_align al sz p space = Some q" and "unat sz + 8 < 2 ^ 64" and "0 < al"
  shows "p + 8 \<le> q \<and> q + unat sz \<le> p + unat space \<and> unat al dvd q"
proof -
  have sum: "unat (8 + sz) = 8 + unat sz"
    using assms(2) by (subst unat_add_lem [THEN iffD1]) simp_all
  have fit: "8 + sz \<le> space" using assms(1) by (auto simp: pad_n_align_def split: if_splits)
  then have le: "8 + unat sz \<le> unat space" using sum by (simp add: word_le_nat_alt)
  then have "unat (space - 8) = unat space - 8"
    by (simp add: unat_sub word_le_nat_alt)
  moreover have "0 < unat al" using assms(3) by (simp add: word_less_nat_alt)
  ultimately show ?thesis
    using assms(1) fit le align_up_ge [of "unat al" "p + 8"] align_up_mod [of "unat al" "p + 8"]
    by (auto simp: pad_n_align_def std_align_def Let_def not_less split: if_splits)
qed

lemma pad_n_align_None:
  assumes "pad_n_align al sz p space = None" and "unat sz + 8 < 2 ^ 64" and "0 < al"
    and "p + 8 \<le> q" and "unat al dvd q"
  shows "p + unat space < q + unat sz"
proof (rule ccontr)
  assume "\<not> ?thesis"
  then have le: "8 + unat sz \<le> unat space" using assms(4) by linarith
  have sum: "unat (8 + sz) = 8 + unat sz"
    using assms(2) by (subst unat_add_lem [THEN iffD1]) simp_all
  then have fit: "\<not> 8 + sz > space" using le by (simp add: word_less_nat_alt)
  have "unat (space - 8) = unat space - 8"
    using le by (simp add: unat_sub word_le_nat_alt)
  moreover have "align_up (unat al) (p + 8) \<le> q" by (rule align_up_least) (use assms in auto)
  ultimately show False
    using assms(1) fit le \<open>\<not> p + unat space < q + unat sz\<close>
      align_up_ge [of "unat al" "p + 8"] assms(3)
    by (auto simp: pad_n_align_def std_align_def Let_def word_less_nat_alt split: if_splits)
qed

text \<open>The numbers of an allocator in range: no sum of the tail and a free count wraps around.\<close>

definition in_range :: "circular_memory \<Rightarrow> bool" where
  "in_range c \<longleftrightarrow> unat (cm_tail c) < unat (cm_size c) \<and> unat (cm_size c) < 2 ^ 63"

lemma split_space_nat:
  assumes "in_range c" and "free \<le> cm_size c"
  shows "unat (fst (split_space c free)) = min (unat free) (unat (cm_size c) - unat (cm_tail c))"
    and "unat (snd (split_space c free)) = unat (cm_tail c) + unat free - unat (cm_size c)"
proof -
  have le: "unat free \<le> unat (cm_size c)" using assms(2) by (simp add: word_le_nat_alt)
  have sum: "unat (cm_tail c + free) = unat (cm_tail c) + unat free"
    using assms(1) le by (subst unat_add_lem [THEN iffD1]) (auto simp: in_range_def)
  have diff: "unat (cm_size c - cm_tail c) = unat (cm_size c) - unat (cm_tail c)"
    using assms(1) by (auto simp: in_range_def unat_sub word_le_nat_alt)
  have over: "unat (cm_tail c + free - cm_size c) = unat (cm_tail c) + unat free - unat (cm_size c)"
    if "cm_tail c + free > cm_size c"
    using that sum by (simp add: unat_sub word_le_nat_alt word_less_nat_alt)
  show "unat (fst (split_space c free)) = min (unat free) (unat (cm_size c) - unat (cm_tail c))"
    using sum diff assms(1) by (auto simp: split_space_def Let_def word_less_nat_alt in_range_def)
  show "unat (snd (split_space c free)) = unat (cm_tail c) + unat free - unat (cm_size c)"
    using sum over by (auto simp: split_space_def Let_def word_less_nat_alt)
qed

lemma split_space_sum:
  assumes "in_range c" and "free \<le> cm_size c"
  shows "fst (split_space c free) + snd (split_space c free) = free"
  by (auto simp: split_space_def Let_def)

end
