(* ===== verification/Circular_Blocks.thy ===== *)
theory Circular_Blocks
  imports Circular_Memory
begin

text \<open>
  The live blocks of a \<^verbatim>\<open>circular_memory\<close>, oldest first, and the invariant that ties
  them to the tail, the counter and the headers.  Positions are unrolled: the free bytes are
  \<open>[t, t + f)\<close> for the tail \<open>t\<close> and the free count \<open>f\<close>, the blocks lie one behind the other in
  \<open>[t + f, t + N)\<close>, and an unrolled position is a byte of the buffer modulo its size \<open>N\<close>.
\<close>

section \<open>Blocks\<close>

record block =
  blk_at :: address
  blk_len :: nat
  blk_used :: size_t

text \<open>The bytes a block owns: its header and what the client may use.\<close>

definition payload :: "block \<Rightarrow> address set" where
  "payload b = {blk_at b ..< blk_at b + blk_len b}"

definition extent :: "block \<Rightarrow> address set" where
  "extent b = {blk_at b - 8 ..< blk_at b + blk_len b}"

definition block_at :: "address \<Rightarrow> nat \<Rightarrow> nat \<Rightarrow> block \<Rightarrow> bool" where
  "block_at B N v b \<longleftrightarrow>
     B + 8 \<le> blk_at b \<and> blk_at b + blk_len b \<le> B + N \<and> 0 < blk_len b \<and>
     (\<exists>u. v + 8 \<le> u \<and> u + blk_len b \<le> v + unat (blk_used b) \<and> B + u mod N = blk_at b)"

fun chain :: "address \<Rightarrow> nat \<Rightarrow> nat \<Rightarrow> block list \<Rightarrow> bool" where
  "chain B N v [] = True"
| "chain B N v (b # bs) = (block_at B N v b \<and> chain B N (v + unat (blk_used b)) bs)"

definition used_sum :: "block list \<Rightarrow> nat" where
  "used_sum bs = sum_list (map (\<lambda>b. unat (blk_used b)) bs)"

definition header_ok :: "bytes \<Rightarrow> block \<Rightarrow> bool" where
  "header_ok m b = (load_size m (blk_at b - 8) = blk_used b)"

definition cm_inv :: "circular_memory \<Rightarrow> block list \<Rightarrow> bool" where
  "cm_inv c live \<longleftrightarrow>
     in_range c \<and> unat (cm_free c) + used_sum live = unat (cm_size c) \<and>
     chain (cm_begin c) (unat (cm_size c)) (unat (cm_tail c) + unat (cm_free c)) live \<and>
     (\<forall>b \<in> set live. header_ok (cm_mem c) b)"

lemma used_sum_simps [simp]:
  "used_sum [] = 0"
  "used_sum (b # bs) = unat (blk_used b) + used_sum bs"
  "used_sum (xs @ ys) = used_sum xs + used_sum ys"
  by (simp_all add: used_sum_def)

lemma used_sum_pos: "chain B N v bs \<Longrightarrow> used_sum bs = 0 \<longleftrightarrow> bs = []"
  by (cases bs) (auto simp: block_at_def)

text \<open>An unrolled position can be moved by whole turns.\<close>

lemma block_at_turn: "0 < N \<Longrightarrow> block_at B N (v + N) b \<longleftrightarrow> block_at B N v b"
proof
  assume a: "block_at B N (v + N) b"
  then obtain u where "v + N + 8 \<le> u" "u + blk_len b \<le> v + N + unat (blk_used b)"
    "B + u mod N = blk_at b" by (auto simp: block_at_def)
  then have "v + 8 \<le> u - N \<and> u - N + blk_len b \<le> v + unat (blk_used b) \<and> B + (u - N) mod N = blk_at b"
    by (auto simp: le_mod_geq)
  with a show "block_at B N v b" by (auto simp: block_at_def)
next
  assume a: "block_at B N v b"
  then obtain u where "v + 8 \<le> u" "u + blk_len b \<le> v + unat (blk_used b)"
    "B + u mod N = blk_at b" by (auto simp: block_at_def)
  then have "v + N + 8 \<le> u + N \<and> u + N + blk_len b \<le> v + N + unat (blk_used b) \<and>
      B + (u + N) mod N = blk_at b" by simp
  with a show "block_at B N (v + N) b" unfolding block_at_def by blast
qed

lemma chain_turn: "0 < N \<Longrightarrow> chain B N (v + N) bs \<longleftrightarrow> chain B N v bs"
proof (induction bs arbitrary: v)
  case (Cons b bs)
  then show ?case
    using Cons.IH [of "v + unat (blk_used b)"] block_at_turn [of N B v b] by (simp add: add_ac)
qed simp

lemma chain_append:
  "chain B N v (xs @ ys) \<longleftrightarrow> chain B N v xs \<and> chain B N (v + used_sum xs) ys"
  by (induction xs arbitrary: v) (auto simp: add_ac)

text \<open>Every byte of a block has an unrolled position in the part of the turn the block took.\<close>

lemma extent_position:
  assumes "block_at B N v b" and "x \<in> extent b"
  shows "\<exists>y. v \<le> y \<and> y < v + unat (blk_used b) \<and> B + y mod N = x"
proof -
  from assms(1) obtain u where u: "v + 8 \<le> u" "u + blk_len b \<le> v + unat (blk_used b)"
      "B + u mod N = blk_at b"
    and b: "B + 8 \<le> blk_at b" "blk_at b + blk_len b \<le> B + N" by (auto simp: block_at_def)
  define q where "q = u div N * N"
  have "u = q + u mod N" by (simp add: q_def)
  then have uq: "u = q + (blk_at b - B)" using u(3) by linarith
  have x: "blk_at b - 8 \<le> x" "x < blk_at b + blk_len b" using assms(2) by (auto simp: extent_def)
  let ?y = "q + (x - B)"
  have "v \<le> ?y" "?y < v + unat (blk_used b)" using u uq b x by linarith+
  moreover have "x - B < N" using x b by linarith
  then have "?y mod N = x - B" by (simp add: q_def)
  then have "B + ?y mod N = x" using x b by linarith
  ultimately show ?thesis by blast
qed

lemma chain_position:
  "chain B N v bs \<Longrightarrow> b \<in> set bs \<Longrightarrow> x \<in> extent b \<Longrightarrow>
     \<exists>y. v \<le> y \<and> y < v + used_sum bs \<and> B + y mod N = x"
proof (induction bs arbitrary: v)
  case (Cons d bs)
  then consider "b = d" | "b \<in> set bs" by auto
  then show ?case
  proof cases
    case 1
    then show ?thesis using Cons.prems extent_position [of B N v d x] by fastforce
  next
    case 2
    then obtain y where "v + unat (blk_used d) \<le> y" "y < v + unat (blk_used d) + used_sum bs"
        "B + y mod N = x"
      using Cons.prems Cons.IH [of "v + unat (blk_used d)"] by auto
    then show ?thesis by (intro exI [of _ y]) simp
  qed
qed simp

lemma positions_differ:
  "y < y' \<Longrightarrow> y' < y + (N :: nat) \<Longrightarrow> B + y mod N \<noteq> B + y' mod N"
proof
  assume "y < y'" "y' < y + N" "B + y mod N = B + y' mod N"
  then have "N dvd y' - y" using mod_eq_dvd_iff_nat [of y y' N] by simp
  then show False using \<open>y < y'\<close> \<open>y' < y + N\<close> by (auto dest: dvd_imp_le)
qed

lemma block_chain_disjoint:
  assumes "block_at B N v b" and "chain B N w bs" and "d \<in> set bs"
    and "v + unat (blk_used b) \<le> w" and "w + used_sum bs \<le> v + N"
  shows "extent b \<inter> extent d = {}"
proof -
  have False if x: "x \<in> extent b" "x \<in> extent d" for x
  proof -
    obtain y where y: "v \<le> y" "y < v + unat (blk_used b)" "B + y mod N = x"
      using extent_position [OF assms(1) x(1)] by blast
    obtain y' where y': "w \<le> y'" "y' < w + used_sum bs" "B + y' mod N = x"
      using chain_position [OF assms(2,3) x(2)] by blast
    have "y < y'" "y' < y + N" using y y' assms(4,5) by linarith+
    from positions_differ [OF this] show False using y(3) y'(3) by simp
  qed
  then show ?thesis by blast
qed

lemma chain_disjoint:
  "chain B N v bs \<Longrightarrow> used_sum bs \<le> N \<Longrightarrow> i < j \<Longrightarrow> j < length bs \<Longrightarrow>
     extent (bs ! i) \<inter> extent (bs ! j) = {}"
proof (induction bs arbitrary: v i j)
  case (Cons b bs)
  then obtain k where k: "j = Suc k" by (cases j) auto
  show ?case
  proof (cases i)
    case 0
    then show ?thesis
      using block_chain_disjoint [of B N v b "v + unat (blk_used b)" bs "bs ! k"] Cons.prems k by auto
  next
    case (Suc l)
    then show ?thesis using Cons.IH [of "v + unat (blk_used b)" l k] Cons.prems k by auto
  qed
qed simp

lemma chain_inside: "chain B N v bs \<Longrightarrow> b \<in> set bs \<Longrightarrow> extent b \<subseteq> {B ..< B + N}"
proof (induction bs arbitrary: v)
  case (Cons d bs)
  then show ?case by (cases "b = d") (auto simp: block_at_def extent_def)
qed simp


section \<open>The headers\<close>

lemma header_cong:
  assumes "B + 8 \<le> blk_at b" and "\<And>x. x \<in> extent b \<Longrightarrow> x \<notin> payload b \<Longrightarrow> m' x = m x"
  shows "header_ok m' b \<longleftrightarrow> header_ok m b"
proof -
  have "load_size m' (blk_at b - 8) = load_size m (blk_at b - 8)"
    by (rule load_size_cong) (use assms in \<open>auto simp: extent_def payload_def\<close>)
  then show ?thesis by (simp add: header_ok_def)
qed

lemma chain_at: "chain B N v bs \<Longrightarrow> b \<in> set bs \<Longrightarrow> B + 8 \<le> blk_at b"
  by (induction bs arbitrary: v) (auto simp: block_at_def)

lemma headers_store:
  assumes "chain B N w bs" and "\<forall>b \<in> set bs. header_ok m b"
    and "\<And>b. b \<in> set bs \<Longrightarrow> extent d \<inter> extent b = {}" and "B + 8 \<le> blk_at d"
  shows "\<forall>b \<in> set bs. header_ok (store_size m (blk_at d - 8) n) b"
proof
  fix b assume b: "b \<in> set bs"
  have "store_size m (blk_at d - 8) n x = m x" if "x \<in> extent b" for x
  proof -
    have "x \<notin> extent d" using assms(3) [OF b] that by blast
    then show ?thesis using assms(4) by (intro store_size_other) (auto simp: extent_def)
  qed
  then show "header_ok (store_size m (blk_at d - 8) n) b"
    using header_cong chain_at [OF assms(1) b] assms(2) b by blast
qed


section \<open>Placing a block\<close>

lemma unat_add_of_nat: "unat (w :: size_t) + d < 2 ^ 64 \<Longrightarrow> unat (w + of_nat d) = unat w + d"
proof -
  assume small: "unat w + d < 2 ^ 64"
  then have "unat (of_nat d :: size_t) = d" by (simp add: unat_of_nat take_bit_nat_eq_self)
  then show ?thesis using small by (subst unat_add_lem [THEN iffD1]) simp_all
qed

text \<open>The two places of a block: behind the tail, and at the front of the buffer, where the bytes
  \<open>a\<close> at its end are lost.\<close>

lemma block_behind_tail:
  assumes "t < N" "N < 2 ^ 63" "unat a \<le> N - t" "0 < unat sz"
    and "B + t + 8 \<le> r" "r + unat sz \<le> B + t + unat a"
    and used: "used = sz + of_nat (r - (B + t))"
  shows "unat used \<le> unat a \<and> block_at B N t \<lparr>blk_at = r, blk_len = unat sz, blk_used = used\<rparr>"
proof -
  have u: "unat used = unat sz + (r - (B + t))"
    unfolding used by (rule unat_add_of_nat) (use assms power_strict_increasing [of 63 64 "2 :: nat"] in linarith)
  have "r - B < N" using assms by linarith
  then have "B + (r - B) mod N = r" using assms by simp
  then show ?thesis using assms u by (auto simp: block_at_def intro!: exI [of _ "r - B"])
qed

lemma block_at_front:
  assumes "t < N" "N < 2 ^ 63" "unat a = N - t" "0 < unat sz"
    and "B + 8 \<le> r" "r + unat sz \<le> B + t"
    and used: "used = sz + a + of_nat (r - B)"
  shows "unat used = unat sz + unat a + (r - B) \<and>
    block_at B N t \<lparr>blk_at = r, blk_len = unat sz, blk_used = used\<rparr>"
proof -
  have "unat (sz + a) = unat sz + unat a"
    using assms by (subst unat_add_lem [THEN iffD1]) simp_all
  then have u: "unat used = unat sz + unat a + (r - B)"
    unfolding used using assms by (subst unat_add_of_nat) simp_all
  have "r - B < N" using assms by linarith
  then have "(N + (r - B)) mod N = r - B" by (simp only: mod_add_self1 mod_less)
  then have "B + (N + (r - B)) mod N = r" using assms by linarith
  moreover have "t + 8 \<le> N + (r - B)" "N + (r - B) + unat sz \<le> t + unat used" "r + unat sz \<le> B + N"
    using assms u by linarith+
  ultimately show ?thesis
    using assms u unfolding block_at_def by (auto intro!: exI [of _ "N + (r - B)"])
qed

lemma place_Some:
  assumes rng: "in_range c" "free \<le> cm_size c" and sz: "sz \<noteq> 0" "unat sz + 8 < 2 ^ 64" "0 < al"
    and p: "place c free sz al = Some (res, used)"
  shows "unat al dvd res \<and> unat used \<le> unat free \<and>
    block_at (cm_begin c) (unat (cm_size c)) (unat (cm_tail c))
      \<lparr>blk_at = res, blk_len = unat sz, blk_used = used\<rparr>"
proof -
  let ?B = "cm_begin c" and ?N = "unat (cm_size c)" and ?t = "unat (cm_tail c)"
  obtain a b where ab: "split_space c free = (a, b)" by (cases "split_space c free")
  have a: "unat a = min (unat free) (?N - ?t)" and b: "unat b = ?t + unat free - ?N"
    using split_space_nat [OF rng] ab by auto
  have t: "?t < ?N" "?N < 2 ^ 63" "unat free \<le> ?N"
    using rng by (auto simp: in_range_def word_le_nat_alt)
  have pos: "0 < unat sz" using sz(1) by (simp add: unat_gt_0)
  show ?thesis
  proof (cases "pad_n_align al sz (?B + ?t) a")
    case (Some r)
    have r: "?B + ?t + 8 \<le> r" "r + unat sz \<le> ?B + ?t + unat a" "unat al dvd r"
      using pad_n_align_Some [OF Some sz(2,3)] by auto
    have "res = r" and "used = sz + of_nat (r - (?B + ?t))" using p ab Some by (auto simp: place_def)
    then show ?thesis
      using block_behind_tail [OF t(1,2) _ pos r(1,2)] a r(3) by fastforce
  next
    case None
    then obtain r where Some: "pad_n_align al sz ?B b = Some r"
      and res: "res = r" and used: "used = sz + a + of_nat (r - ?B)"
      using p ab by (auto simp: place_def split: option.splits)
    have r: "?B + 8 \<le> r" "r + unat sz \<le> ?B + unat b" "unat al dvd r"
      using pad_n_align_Some [OF Some sz(2,3)] by auto
    have "unat a = ?N - ?t" "r + unat sz \<le> ?B + ?t" using r a b t pos by linarith+
    from block_at_front [OF t(1,2) this(1) pos r(1) this(2) used]
    show ?thesis using res r a b t by auto
  qed
qed

text \<open>No place: neither free part has room for an aligned result behind a header.\<close>

definition no_room :: "address \<Rightarrow> nat \<Rightarrow> nat \<Rightarrow> nat \<Rightarrow> bool" where
  "no_room start space sz al \<longleftrightarrow> (\<forall>q. start + 8 \<le> q \<longrightarrow> al dvd q \<longrightarrow> start + space < q + sz)"

lemma place_None:
  assumes "in_range c" "free \<le> cm_size c" and "unat sz + 8 < 2 ^ 64" "0 < al"
    and "place c free sz al = None"
  shows "no_room (cm_begin c + unat (cm_tail c)) (min (unat free) (unat (cm_size c) - unat (cm_tail c)))
           (unat sz) (unat al) \<and>
         no_room (cm_begin c) (unat (cm_tail c) + unat free - unat (cm_size c)) (unat sz) (unat al)"
proof -
  obtain a b where ab: "split_space c free = (a, b)" by (cases "split_space c free")
  have "pad_n_align al sz (cm_begin c + unat (cm_tail c)) a = None"
    and "pad_n_align al sz (cm_begin c) b = None"
    using assms(5) ab by (auto simp: place_def Let_def split: option.splits)
  then show ?thesis
    using split_space_nat [OF assms(1,2)] ab pad_n_align_None assms(3,4)
    unfolding no_room_def by (metis fst_conv snd_conv)
qed

text \<open>Writing the header of a block in the free space leaves the invariant as it was, and the block
  has its header.\<close>

lemma write_header_inv:
  assumes "cm_inv c live"
    and b: "block_at (cm_begin c) (unat (cm_size c)) (unat (cm_tail c)) b"
      "unat (blk_used b) \<le> unat (cm_free c)"
  shows "cm_inv (write_header (blk_at b) (blk_used b) c) live"
    and "header_ok (cm_mem (write_header (blk_at b) (blk_used b) c)) b"
proof -
  let ?v = "unat (cm_tail c) + unat (cm_free c)"
  have ch: "chain (cm_begin c) (unat (cm_size c)) ?v live"
    and hd: "\<forall>b \<in> set live. header_ok (cm_mem c) b"
    and sum: "unat (cm_free c) + used_sum live = unat (cm_size c)"
    using assms(1) by (auto simp: cm_inv_def)
  have "extent b \<inter> extent d = {}" if "d \<in> set live" for d
    by (rule block_chain_disjoint [OF b(1) ch that]) (use b(2) sum in linarith)+
  moreover have "cm_begin c + 8 \<le> blk_at b" using b(1) by (simp add: block_at_def)
  ultimately have "\<forall>d \<in> set live. header_ok (store_size (cm_mem c) (blk_at b - 8) (blk_used b)) d"
    by (rule headers_store [OF ch hd])
  then show "cm_inv (write_header (blk_at b) (blk_used b) c) live"
    using assms(1) by (simp add: cm_inv_def write_header_def in_range_def)
  show "header_ok (cm_mem (write_header (blk_at b) (blk_used b) c)) b"
    by (simp add: header_ok_def write_header_def)
qed

text \<open>Moving the tail over a block that was taken makes it the youngest live one.\<close>

lemma move_tail_inv:
  assumes inv: "in_range c" "unat (cm_free c) + unat (blk_used b) + used_sum live = unat (cm_size c)"
      "chain (cm_begin c) (unat (cm_size c)) (unat (cm_tail c) + unat (cm_free c) + unat (blk_used b)) live"
      "\<forall>d \<in> set live. header_ok (cm_mem c) d"
    and b: "block_at (cm_begin c) (unat (cm_size c)) (unat (cm_tail c)) b" "header_ok (cm_mem c) b"
  shows "cm_inv (move_tail (blk_used b) c) (live @ [b])"
proof -
  let ?N = "unat (cm_size c)" and ?t = "unat (cm_tail c)" and ?f = "unat (cm_free c)"
    and ?u = "unat (blk_used b)" and ?c = "move_tail (blk_used b) c"
  have N: "0 < ?N" "?t < ?N" "?N < 2 ^ 63" "?u \<le> ?N" using inv(1,2) by (auto simp: in_range_def)
  have "unat (cm_tail c + blk_used b) = ?t + ?u"
    using N by (subst unat_add_lem [THEN iffD1]) auto
  then have t': "unat (cm_tail ?c) = (?t + ?u) mod ?N" by (simp add: move_tail_def unat_mod_distrib)
  have "chain (cm_begin c) ?N (?t + ?f + ?u) (live @ [b])"
  proof -
    have "block_at (cm_begin c) ?N (?t + ?N) b" using b(1) N block_at_turn by blast
    moreover have "?t + ?f + ?u + used_sum live = ?t + ?N" using inv(2) by linarith
    ultimately show ?thesis using inv(3) by (simp only: chain_append chain.simps simp_thms)
  qed
  moreover have "chain (cm_begin c) ?N ((?t + ?u) mod ?N + ?f) (live @ [b]) \<longleftrightarrow>
      chain (cm_begin c) ?N (?t + ?f + ?u) (live @ [b])"
  proof (cases "?t + ?u < ?N")
    case True
    then show ?thesis by (simp add: add_ac)
  next
    case False
    then have "(?t + ?u) mod ?N = ?t + ?u - ?N" using N by (simp add: le_mod_geq)
    then have "?t + ?f + ?u = (?t + ?u) mod ?N + ?f + ?N" using False by linarith
    then show ?thesis using chain_turn [OF N(1)] by metis
  qed
  moreover have "in_range ?c"
    using N t' by (simp add: in_range_def move_tail_def)
  ultimately show ?thesis
    using inv b t' by (auto simp: cm_inv_def) (auto simp: move_tail_def)
qed

lemma take_free_unat:
  "unat used \<le> unat (cm_free c) \<Longrightarrow> unat (cm_free (take_free used c)) = unat (cm_free c) - unat used"
  by (simp add: take_free_def unat_sub word_le_nat_alt)

text \<open>Releasing the oldest block.\<close>

lemma give_free_inv:
  assumes "cm_inv c (b # live)"
  shows "cm_inv (give_free (blk_used b) c) live"
proof -
  have "unat (cm_free c + blk_used b) = unat (cm_free c) + unat (blk_used b)"
    using assms by (subst unat_add_lem [THEN iffD1]) (auto simp: cm_inv_def in_range_def)
  then show ?thesis
    using assms by (simp add: cm_inv_def give_free_def in_range_def add_ac)
qed

lemma used_memory_live: "cm_inv c live \<Longrightarrow> b \<in> set live \<Longrightarrow> used_memory c (blk_at b) = blk_used b"
  by (auto simp: cm_inv_def used_memory_def header_ok_def)

lemma cm_inv_init:
  "0 < n \<Longrightarrow> unat n < 2 ^ 63 \<Longrightarrow> cm_inv (circular_memory_init buffer n m) []"
  by (simp add: cm_inv_def circular_memory_init_def in_range_def unat_gt_0 word_neq_0_conv)

lemma cm_inv_free_le: "cm_inv c live \<Longrightarrow> cm_free c \<le> cm_size c"
  by (simp add: cm_inv_def word_le_nat_alt)


section \<open>allocate and release\<close>

lemma allocate_place:
  assumes inv: "cm_inv c live" and sz: "sz \<noteq> 0"
  shows "allocate sz al c = (case place c (cm_free c) sz al of
      None \<Rightarrow> Inr (None, c)
    | Some (res, used) \<Rightarrow> Inr (Some res, move_tail used (take_free used (write_header res used c))))"
proof -
  have rng: "in_range c" using inv by (simp add: cm_inv_def)
  have "cm_tail c \<le> cm_size c" "cm_size c \<noteq> 0"
    using rng by (auto simp: in_range_def word_le_nat_alt)
  moreover have "cm_tail (move_tail used (take_free used (write_header res used c))) \<le>
      cm_size (move_tail used (take_free used (write_header res used c)))" for res used
    using rng by (auto simp: move_tail_def take_free_def write_header_def in_range_def
        word_le_nat_alt unat_mod_distrib)
  ultimately show ?thesis
    using sz split_space_sum [OF rng cm_inv_free_le [OF inv]]
    by (auto simp: allocate_def Let_def split: option.splits)
qed

lemma allocate_inv:
  assumes inv: "cm_inv c live" and sz: "sz \<noteq> 0" "unat sz + 8 < 2 ^ 64" "0 < al"
    and p: "place c (cm_free c) sz al = Some (res, used)"
  shows "cm_inv (move_tail used (take_free used (write_header res used c)))
           (live @ [\<lparr>blk_at = res, blk_len = unat sz, blk_used = used\<rparr>])"
proof -
  let ?b = "\<lparr>blk_at = res, blk_len = unat sz, blk_used = used\<rparr>"
  let ?c = "write_header res used c"
  have rng: "in_range c" using inv by (simp add: cm_inv_def)
  have b: "block_at (cm_begin c) (unat (cm_size c)) (unat (cm_tail c)) ?b"
    and le: "unat used \<le> unat (cm_free c)"
    using place_Some [OF rng cm_inv_free_le [OF inv] sz p] by auto
  have w: "cm_inv ?c live" "header_ok (cm_mem ?c) ?b"
    using write_header_inv [OF inv b] le by simp_all
  have same: "cm_begin ?c = cm_begin c" "cm_size ?c = cm_size c" "cm_tail ?c = cm_tail c"
    "cm_free ?c = cm_free c" by (simp_all add: write_header_def)
  have f: "unat (cm_free (take_free used ?c)) = unat (cm_free c) - unat used"
    using take_free_unat [of used ?c] le same by simp
  have keep: "cm_begin (take_free used ?c) = cm_begin c" "cm_size (take_free used ?c) = cm_size c"
    "cm_tail (take_free used ?c) = cm_tail c" "cm_mem (take_free used ?c) = cm_mem ?c"
    by (simp_all add: take_free_def same)
  have "cm_inv (move_tail (blk_used ?b) (take_free used ?c)) (live @ [?b])"
  proof (rule move_tail_inv)
    show "in_range (take_free used ?c)" using rng keep by (simp add: in_range_def)
    show "unat (cm_free (take_free used ?c)) + unat (blk_used ?b) + used_sum live =
        unat (cm_size (take_free used ?c))"
      using inv f le keep by (simp add: cm_inv_def)
    show "chain (cm_begin (take_free used ?c)) (unat (cm_size (take_free used ?c)))
        (unat (cm_tail (take_free used ?c)) + unat (cm_free (take_free used ?c)) + unat (blk_used ?b)) live"
      using inv f le keep by (simp add: cm_inv_def)
  qed (use w b keep in \<open>simp_all add: cm_inv_def\<close>)
  then show ?thesis by simp
qed

lemma release_oldest:
  assumes "cm_inv c (b # live)"
  shows "release (blk_at b) c = Inr (give_free (blk_used b) c)"
proof -
  have "blk_at b \<noteq> 0" using assms by (auto simp: cm_inv_def block_at_def)
  then show ?thesis using used_memory_live [OF assms] by (simp add: release_def)
qed

text \<open>What the client may do with the memory: write into the payload of a live block.\<close>

definition client_write :: "address \<Rightarrow> 8 word \<Rightarrow> circular_memory \<Rightarrow> circular_memory" where
  "client_write x v c = c\<lparr>cm_mem := (cm_mem c)(x := v)\<rparr>"

lemma client_write_header:
  assumes ch: "chain B N v live" and len: "used_sum live \<le> N" and b: "b \<in> set live" "x \<in> payload b"
    and d: "d \<in> set live" "header_ok m d"
  shows "header_ok (m(x := w)) d"
proof -
  have at: "B + 8 \<le> blk_at d" by (rule chain_at [OF ch d(1)])
  have "y \<noteq> x" if y: "y \<in> extent d" "y \<notin> payload d" for y
  proof
    assume "y = x"
    obtain i j where ij: "i < length live" "j < length live" "b = live ! i" "d = live ! j"
      using b(1) d(1) by (metis in_set_conv_nth)
    have "x \<in> extent b" using b(2) by (auto simp: extent_def payload_def)
    moreover have "i \<noteq> j" using ij b(2) y \<open>y = x\<close> by auto
    then have "extent b \<inter> extent d = {}"
      using ij chain_disjoint [OF ch len, of i j] chain_disjoint [OF ch len, of j i]
      by (metis inf_commute linorder_neqE_nat)
    ultimately show False using y \<open>y = x\<close> by blast
  qed
  then have "header_ok (m(x := w)) d \<longleftrightarrow> header_ok m d"
    by (intro header_cong [OF at]) simp
  then show ?thesis using d(2) by simp
qed

lemma client_write_inv:
  assumes "cm_inv c live" and "b \<in> set live" and "x \<in> payload b"
  shows "cm_inv (client_write x w c) live"
  using assms client_write_header [of "cm_begin c" "unat (cm_size c)" _ live b x]
  by (auto simp: cm_inv_def client_write_def in_range_def)

end
