(* ===== verification/Circular_Threads.thy ===== *)
theory Circular_Threads
  imports Circular_Blocks
begin

unbundle bit_operations_syntax

text \<open>
  The use the atomic counter is for: one thread allocates, another releases the blocks in the
  order they were allocated, and the payloads are written meanwhile.  \<^verbatim>\<open>allocate\<close> is cut at
  its accesses of the counter and the buffer, \<^verbatim>\<open>release\<close> at the read of the header, and every
  interleaving of the pieces is a run of the step relation.
\<close>

section \<open>Threads\<close>

text \<open>Where the producer is: before a call, behind the first load of the counter, behind the assert
  with its second load, behind the header, behind the subtraction, in a failed assert.\<close>

datatype producer =
    P_Idle
  | P_Loaded size_t size_t size_t
  | P_Checked size_t size_t size_t
  | P_Written block
  | P_Taken block
  | P_Failed

datatype consumer = C_Idle | C_Read size_t

text \<open>\<open>r_live\<close> is a history variable: the blocks that were returned and not released.\<close>

record ring =
  r_cm :: circular_memory
  r_live :: "block list"
  r_prod :: producer
  r_cons :: consumer

text \<open>The calls the interface allows: a size with room for its header, and an alignment, which
  \<^verbatim>\<open>std::align\<close> requires to be a power of two.\<close>

definition request_ok :: "size_t \<Rightarrow> size_t \<Rightarrow> bool" where
  "request_ok sz al \<longleftrightarrow> sz \<noteq> 0 \<and> unat sz + 8 < 2 ^ 64 \<and> 0 < al \<and> al AND (al - 1) = 0"

definition load_counter :: "size_t \<Rightarrow> size_t \<Rightarrow> ring \<Rightarrow> ring" where
  "load_counter sz al r = r\<lparr>r_prod :=
     (if sz \<noteq> 0 \<and> cm_tail (r_cm r) \<le> cm_size (r_cm r) then P_Loaded (cm_free (r_cm r)) sz al
      else P_Failed)\<rparr>"

definition check_counter :: "size_t \<Rightarrow> size_t \<Rightarrow> size_t \<Rightarrow> ring \<Rightarrow> ring" where
  "check_counter f sz al r = r\<lparr>r_prod :=
     (if fst (split_space (r_cm r) f) + snd (split_space (r_cm r) f) \<le> cm_free (r_cm r)
      then P_Checked f sz al else P_Failed)\<rparr>"

definition place_header :: "size_t \<Rightarrow> size_t \<Rightarrow> size_t \<Rightarrow> ring \<Rightarrow> ring" where
  "place_header f sz al r =
     (case place (r_cm r) f sz al of
        None \<Rightarrow> r\<lparr>r_prod := P_Idle\<rparr>
      | Some (res, used) \<Rightarrow>
          r\<lparr>r_cm := write_header res used (r_cm r),
            r_prod := P_Written \<lparr>blk_at = res, blk_len = unat sz, blk_used = used\<rparr>\<rparr>)"

definition take_counter :: "block \<Rightarrow> ring \<Rightarrow> ring" where
  "take_counter b r = r\<lparr>r_cm := take_free (blk_used b) (r_cm r), r_prod := P_Taken b\<rparr>"

definition return_block :: "block \<Rightarrow> ring \<Rightarrow> ring" where
  "return_block b r =
     (let c' = move_tail (blk_used b) (r_cm r) in
      if cm_tail c' \<le> cm_size c' then r\<lparr>r_cm := c', r_live := r_live r @ [b], r_prod := P_Idle\<rparr>
      else r\<lparr>r_prod := P_Failed\<rparr>)"

definition read_header :: "block \<Rightarrow> ring \<Rightarrow> ring" where
  "read_header b r = r\<lparr>r_cons := C_Read (used_memory (r_cm r) (blk_at b))\<rparr>"

definition add_counter :: "size_t \<Rightarrow> ring \<Rightarrow> ring" where
  "add_counter n r = r\<lparr>r_cm := give_free n (r_cm r), r_live := tl (r_live r), r_cons := C_Idle\<rparr>"

inductive ring_step :: "ring \<Rightarrow> ring \<Rightarrow> bool" where
  Load: "r_prod r = P_Idle \<Longrightarrow> request_ok sz al \<Longrightarrow> ring_step r (load_counter sz al r)"
| Check: "r_prod r = P_Loaded f sz al \<Longrightarrow> ring_step r (check_counter f sz al r)"
| Place: "r_prod r = P_Checked f sz al \<Longrightarrow> ring_step r (place_header f sz al r)"
| Take: "r_prod r = P_Written b \<Longrightarrow> ring_step r (take_counter b r)"
| Return: "r_prod r = P_Taken b \<Longrightarrow> ring_step r (return_block b r)"
| Read: "r_cons r = C_Idle \<Longrightarrow> r_live r = b # rest \<Longrightarrow> ring_step r (read_header b r)"
| Add: "r_cons r = C_Read n \<Longrightarrow> ring_step r (add_counter n r)"
| Write: "b \<in> set (r_live r) \<Longrightarrow> x \<in> payload b \<Longrightarrow>
    ring_step r (r\<lparr>r_cm := client_write x v (r_cm r)\<rparr>)"

inductive ring_reach :: "ring \<Rightarrow> ring \<Rightarrow> bool" for r0 where
  Start: "ring_reach r0 r0"
| Step: "ring_reach r0 r \<Longrightarrow> ring_step r r' \<Longrightarrow> ring_reach r0 r'"

definition ring_init :: "address \<Rightarrow> size_t \<Rightarrow> bytes \<Rightarrow> ring" where
  "ring_init buffer n m =
     \<lparr>r_cm = circular_memory_init buffer n m, r_live = [], r_prod = P_Idle, r_cons = C_Idle\<rparr>"


section \<open>The invariant of all interleavings\<close>

text \<open>A block whose header is written lies at the tail, in the free bytes \<open>F\<close> of which it may or may
  not have been subtracted yet.\<close>

definition pending :: "nat \<Rightarrow> circular_memory \<Rightarrow> block list \<Rightarrow> block \<Rightarrow> bool" where
  "pending F c live b \<longleftrightarrow>
     in_range c \<and> F + used_sum live = unat (cm_size c) \<and>
     chain (cm_begin c) (unat (cm_size c)) (unat (cm_tail c) + F) live \<and>
     (\<forall>d \<in> set live. header_ok (cm_mem c) d) \<and>
     block_at (cm_begin c) (unat (cm_size c)) (unat (cm_tail c)) b \<and>
     unat (blk_used b) \<le> F \<and> header_ok (cm_mem c) b"

definition producer_inv :: "producer \<Rightarrow> circular_memory \<Rightarrow> block list \<Rightarrow> bool" where
  "producer_inv p c live =
     (case p of
        P_Idle \<Rightarrow> cm_inv c live
      | P_Loaded f sz al \<Rightarrow> cm_inv c live \<and> f \<le> cm_free c \<and> request_ok sz al
      | P_Checked f sz al \<Rightarrow> cm_inv c live \<and> f \<le> cm_free c \<and> request_ok sz al
      | P_Written b \<Rightarrow> pending (unat (cm_free c)) c live b
      | P_Taken b \<Rightarrow> pending (unat (cm_free c) + unat (blk_used b)) c live b
      | P_Failed \<Rightarrow> False)"

definition consumer_inv :: "consumer \<Rightarrow> block list \<Rightarrow> bool" where
  "consumer_inv k live =
     (case k of C_Idle \<Rightarrow> True | C_Read n \<Rightarrow> live \<noteq> [] \<and> n = blk_used (hd live))"

definition ring_inv :: "ring \<Rightarrow> bool" where
  "ring_inv r \<longleftrightarrow> producer_inv (r_prod r) (r_cm r) (r_live r) \<and> consumer_inv (r_cons r) (r_live r)"

lemmas ring_inv_defs = ring_inv_def producer_inv_def consumer_inv_def

lemma consumer_inv_append: "consumer_inv k live \<Longrightarrow> consumer_inv k (live @ [b])"
  by (auto simp: consumer_inv_def split: consumer.splits)

lemma pending_cm_inv: "pending (unat (cm_free c)) c live b \<Longrightarrow> cm_inv c live"
  by (simp add: pending_def cm_inv_def)

text \<open>Every phase but a failed one keeps the accounts of the bytes.\<close>

lemma producer_headers:
  "producer_inv p c live \<Longrightarrow> b \<in> set live \<Longrightarrow> header_ok (cm_mem c) b"
  by (auto simp: producer_inv_def cm_inv_def pending_def split: producer.splits)

lemma pending_take:
  assumes "pending (unat (cm_free c)) c live b"
  shows "pending (unat (cm_free (take_free (blk_used b) c)) + unat (blk_used b))
           (take_free (blk_used b) c) live b"
proof -
  have "unat (blk_used b) \<le> unat (cm_free c)" using assms by (simp add: pending_def)
  then have "unat (cm_free (take_free (blk_used b) c)) + unat (blk_used b) = unat (cm_free c)"
    by (simp add: take_free_unat)
  then show ?thesis using assms by (simp add: pending_def take_free_def in_range_def)
qed

lemma pending_give:
  assumes "pending F c (d # live) b" and "unat (cm_free c) \<le> F"
  shows "pending (F + unat (blk_used d)) (give_free (blk_used d) c) live b"
    and "unat (cm_free (give_free (blk_used d) c)) = unat (cm_free c) + unat (blk_used d)"
proof -
  show "pending (F + unat (blk_used d)) (give_free (blk_used d) c) live b"
    using assms(1) by (simp add: pending_def give_free_def in_range_def add_ac)
  show "unat (cm_free (give_free (blk_used d) c)) = unat (cm_free c) + unat (blk_used d)"
  proof -
    have "unat (cm_free c + blk_used d) = unat (cm_free c) + unat (blk_used d)"
      using assms by (subst unat_add_lem [THEN iffD1]) (auto simp: pending_def in_range_def)
    then show ?thesis by (simp add: give_free_def)
  qed
qed

lemma pending_write:
  assumes p: "pending F c live b" and d: "d \<in> set live" "x \<in> payload d"
  shows "pending F (client_write x w c) live b"
proof -
  have ch: "chain (cm_begin c) (unat (cm_size c)) (unat (cm_tail c) + F) live"
    and sum: "F + used_sum live = unat (cm_size c)" and b: "unat (blk_used b) \<le> F"
    and at: "block_at (cm_begin c) (unat (cm_size c)) (unat (cm_tail c)) b"
    using p by (auto simp: pending_def)
  have "extent b \<inter> extent d = {}"
    by (rule block_chain_disjoint [OF at ch d(1)]) (use b sum in linarith)+
  then have "x \<notin> extent b" using d(2) by (auto simp: extent_def payload_def)
  then have "header_ok ((cm_mem c)(x := w)) b \<longleftrightarrow> header_ok (cm_mem c) b"
    using at by (intro header_cong [where B = "cm_begin c"]) (auto simp: block_at_def)
  moreover have "header_ok ((cm_mem c)(x := w)) e" if "e \<in> set live" for e
    using client_write_header [OF ch _ d that] p that sum by (auto simp: pending_def)
  ultimately show ?thesis using p by (simp add: pending_def client_write_def in_range_def)
qed

lemma pending_return:
  assumes "pending (unat (cm_free c) + unat (blk_used b)) c live b"
  shows "cm_inv (move_tail (blk_used b) c) (live @ [b])"
  using assms by (intro move_tail_inv) (auto simp: pending_def add_ac)

lemma place_pending:
  assumes inv: "cm_inv c live" and f: "f \<le> cm_free c" and req: "request_ok sz al"
    and p: "place c f sz al = Some (res, used)"
  shows "pending (unat (cm_free (write_header res used c))) (write_header res used c) live
           \<lparr>blk_at = res, blk_len = unat sz, blk_used = used\<rparr>"
proof -
  let ?b = "\<lparr>blk_at = res, blk_len = unat sz, blk_used = used\<rparr>"
  have "in_range c" and "f \<le> cm_size c"
    using inv f cm_inv_free_le [OF inv] by (auto simp: cm_inv_def)
  then have b: "block_at (cm_begin c) (unat (cm_size c)) (unat (cm_tail c)) ?b" "unat used \<le> unat f"
    using place_Some p req by (auto simp: request_ok_def)
  have le: "unat used \<le> unat (cm_free c)" using b(2) f by (auto simp: word_le_nat_alt)
  have "cm_inv (write_header res used c) live" "header_ok (cm_mem (write_header res used c)) ?b"
    using write_header_inv [OF inv b(1)] le by simp_all
  then show ?thesis using b le by (simp add: pending_def cm_inv_def write_header_def)
qed

lemma cm_inv_tail_le: "cm_inv c live \<Longrightarrow> cm_tail c \<le> cm_size c"
  by (auto simp: cm_inv_def in_range_def word_le_nat_alt)

lemma producer_inv_give:
  assumes "producer_inv p c (d # live)"
  shows "producer_inv p (give_free (blk_used d) c) live"
proof -
  consider (w) b where "p = P_Written b" | (t) b where "p = P_Taken b"
    | (other) "\<not> (\<exists>b. p = P_Written b \<or> p = P_Taken b)" by blast
  then show ?thesis
  proof cases
  case w
  then have p: "pending (unat (cm_free c)) c (d # live) b" using assms by (simp add: producer_inv_def)
  show ?thesis using w pending_give [OF p] by (simp add: producer_inv_def)
next
  case t
  then have p: "pending (unat (cm_free c) + unat (blk_used b)) c (d # live) b"
    using assms by (simp add: producer_inv_def)
  show ?thesis using t pending_give [OF p] by (simp add: producer_inv_def add_ac)
next
  case other
  then have inv: "cm_inv c (d # live)" using assms by (auto simp: producer_inv_def split: producer.splits)
  have "unat (cm_free c + blk_used d) = unat (cm_free c) + unat (blk_used d)"
    using inv by (subst unat_add_lem [THEN iffD1]) (auto simp: cm_inv_def in_range_def)
  then have "f \<le> cm_free c \<Longrightarrow> f \<le> cm_free (give_free (blk_used d) c)" for f
    by (simp add: give_free_def word_le_nat_alt)
  then show ?thesis
    using other assms give_free_inv [OF inv] by (auto simp: producer_inv_def split: producer.splits)
qed
qed

lemma producer_inv_write:
  "producer_inv p c live \<Longrightarrow> d \<in> set live \<Longrightarrow> x \<in> payload d \<Longrightarrow>
     producer_inv p (client_write x w c) live"
  using client_write_inv [of c live d x w] pending_write [of _ c live _ d x w]
  by (auto simp: producer_inv_def client_write_def split: producer.splits)

lemma ring_step_inv: "ring_step r r' \<Longrightarrow> ring_inv r \<Longrightarrow> ring_inv r'"
proof (induction rule: ring_step.induct)
  case (Load r sz al)
  then show ?case
    using cm_inv_tail_le by (auto simp: ring_inv_defs load_counter_def request_ok_def)
next
  case (Check r f sz al)
  then have "cm_inv (r_cm r) (r_live r)" "f \<le> cm_free (r_cm r)" by (auto simp: ring_inv_defs)
  moreover from this have "in_range (r_cm r)" "f \<le> cm_size (r_cm r)"
    using cm_inv_free_le [of "r_cm r" "r_live r"] by (auto simp: cm_inv_def)
  ultimately show ?case
    using Check split_space_sum by (auto simp: ring_inv_defs check_counter_def)
next
  case (Place r f sz al)
  then show ?case
    using place_pending [of "r_cm r" "r_live r" f sz al]
    by (auto simp: ring_inv_def producer_inv_def place_header_def split: option.splits)
next
  case (Take r b)
  then show ?case using pending_take by (auto simp: ring_inv_defs take_counter_def)
next
  case (Return r b)
  then have "cm_inv (move_tail (blk_used b) (r_cm r)) (r_live r @ [b])"
    using pending_return by (auto simp: ring_inv_def producer_inv_def)
  then show ?case
    using Return cm_inv_tail_le consumer_inv_append
    by (auto simp: ring_inv_def producer_inv_def return_block_def Let_def)
next
  case (Read r b rest)
  then have "header_ok (cm_mem (r_cm r)) b"
    using producer_headers by (auto simp: ring_inv_def)
  then show ?case
    using Read by (simp add: ring_inv_def consumer_inv_def read_header_def used_memory_def header_ok_def)
next
  case (Add r n)
  then obtain d live where "r_live r = d # live" and "n = blk_used d"
    by (cases "r_live r") (auto simp: ring_inv_def consumer_inv_def)
  then show ?case
    using Add producer_inv_give by (simp add: ring_inv_def add_counter_def consumer_inv_def)
next
  case (Write b r x v)
  then show ?case using producer_inv_write by (simp add: ring_inv_def)
qed

lemma ring_init_inv: "0 < n \<Longrightarrow> unat n < 2 ^ 63 \<Longrightarrow> ring_inv (ring_init buffer n m)"
  by (simp add: ring_inv_defs ring_init_def cm_inv_init)

lemma ring_reach_inv: "ring_reach r0 r \<Longrightarrow> ring_inv r0 \<Longrightarrow> ring_inv r"
  by (induction rule: ring_reach.induct) (auto intro: ring_step_inv)

text \<open>What the invariant says of the blocks, in every phase.\<close>

lemma ring_inv_chain:
  assumes "ring_inv r"
  shows "\<exists>v. chain (cm_begin (r_cm r)) (unat (cm_size (r_cm r))) v (r_live r)"
    and "used_sum (r_live r) \<le> unat (cm_size (r_cm r))"
  using assms by (auto simp: ring_inv_def producer_inv_def cm_inv_def pending_def split: producer.splits)

end
