(* ===== verification/Circular_Properties.thy ===== *)
theory Circular_Properties
  imports Circular_Threads
begin

text \<open>
  What a client of \<^verbatim>\<open>circular_memory\<close> relies on: the contract of an allocator that is
  released in allocation order, a client run on it, the contract's interpretation on the model,
  and the properties of the allocator alone and under two threads.
\<close>

section \<open>The contract of a FIFO allocator\<close>

datatype 'r command = Get 'r | Put

text \<open>A client that keeps the handles it was given in a queue.\<close>

fun serve ::
  "('r \<Rightarrow> 's \<Rightarrow> ('h option \<times> 's) outcome) \<Rightarrow> ('h \<Rightarrow> 's \<Rightarrow> 's outcome) \<Rightarrow>
   'r command list \<Rightarrow> 's \<Rightarrow> 'h list \<Rightarrow> ('s \<times> 'h list) outcome"
where
  "serve alloc dealloc [] s q = Inr (s, q)"
| "serve alloc dealloc (Get r # cmds) s q =
     obind (alloc r s) (\<lambda>(h, s').
       serve alloc dealloc cmds s' (case h of None \<Rightarrow> q | Some x \<Rightarrow> q @ [x]))"
| "serve alloc dealloc (Put # cmds) s q =
     (case q of
        [] \<Rightarrow> serve alloc dealloc cmds s []
      | x # q' \<Rightarrow> obind (dealloc x s) (\<lambda>s'. serve alloc dealloc cmds s' q'))"

fun requests_ok :: "('r \<Rightarrow> bool) \<Rightarrow> 'r command list \<Rightarrow> bool" where
  "requests_ok ok [] = True"
| "requests_ok ok (Get r # cmds) = (ok r \<and> requests_ok ok cmds)"
| "requests_ok ok (Put # cmds) = requests_ok ok cmds"

locale fifo_allocator =
  fixes alloc :: "'r \<Rightarrow> 's \<Rightarrow> ('h option \<times> 's) outcome"
    and dealloc :: "'h \<Rightarrow> 's \<Rightarrow> 's outcome"
    and Inv :: "'s \<Rightarrow> 'b list \<Rightarrow> bool"
    and handle :: "'b \<Rightarrow> 'h"
    and ok :: "'r \<Rightarrow> bool"
  assumes alloc_law: "Inv s bs \<Longrightarrow> ok r \<Longrightarrow>
      alloc r s = Inr (None, s) \<or> (\<exists>b s'. alloc r s = Inr (Some (handle b), s') \<and> Inv s' (bs @ [b]))"
    and dealloc_law: "Inv s (b # bs) \<Longrightarrow> \<exists>s'. dealloc (handle b) s = Inr s' \<and> Inv s' bs"
begin

lemma serve_inv:
  "requests_ok ok cmds \<Longrightarrow> Inv s bs \<Longrightarrow>
     \<exists>s' bs'. serve alloc dealloc cmds s (map handle bs) = Inr (s', map handle bs') \<and> Inv s' bs'"
proof (induction cmds arbitrary: s bs)
  case (Cons cmd cmds)
  show ?case
  proof (cases cmd)
    case (Get r)
    with Cons.prems consider "alloc r s = Inr (None, s)"
      | b s' where "alloc r s = Inr (Some (handle b), s')" "Inv s' (bs @ [b])"
      using alloc_law by fastforce
    then show ?thesis
    proof cases
      case 1
      then show ?thesis using Get Cons by simp
    next
      case (2 b s')
      then show ?thesis using Get Cons.prems Cons.IH [of s' "bs @ [b]"] by simp
    qed
  next
    case Put
    show ?thesis
    proof (cases bs)
      case Nil
      then show ?thesis using Put Cons.prems Cons.IH [of s "[]"] by simp
    next
      case (Cons b bs')
      with \<open>Inv s bs\<close> obtain s' where "dealloc (handle b) s = Inr s'" "Inv s' bs'"
        using dealloc_law by blast
      then show ?thesis using Put Cons Cons.prems Cons.IH [of s' bs'] \<open>requests_ok ok (cmd # cmds)\<close> by simp
    qed
  qed
qed auto

lemma serve_drain:
  "Inv s bs \<Longrightarrow> length bs \<le> n \<Longrightarrow>
     \<exists>s'. serve alloc dealloc (replicate n Put) s (map handle bs) = Inr (s', []) \<and> Inv s' []"
proof (induction n arbitrary: s bs)
  case (Suc n)
  show ?case
  proof (cases bs)
    case Nil
    then show ?thesis using Suc.prems Suc.IH [of s "[]"] by simp
  next
    case (Cons b bs')
    with Suc.prems obtain s' where "dealloc (handle b) s = Inr s'" "Inv s' bs'"
      using dealloc_law by blast
    then show ?thesis using Cons Suc.prems Suc.IH [of s' bs'] by simp
  qed
qed simp

end

definition allocate_request :: "size_t \<times> size_t \<Rightarrow> circular_memory \<Rightarrow> (address option \<times> circular_memory) outcome" where
  "allocate_request r c = allocate (fst r) (snd r) c"

interpretation cm: fifo_allocator allocate_request release cm_inv blk_at "\<lambda>r. request_ok (fst r) (snd r)"
proof unfold_locales
  fix c :: circular_memory and live and r :: "size_t \<times> size_t"
  assume inv: "cm_inv c live" and ok: "request_ok (fst r) (snd r)"
  then have sz: "fst r \<noteq> 0" "unat (fst r) + 8 < 2 ^ 64" "0 < snd r" by (auto simp: request_ok_def)
  show "allocate_request r c = Inr (None, c) \<or>
      (\<exists>b c'. allocate_request r c = Inr (Some (blk_at b), c') \<and> cm_inv c' (live @ [b]))"
  proof (cases "place c (cm_free c) (fst r) (snd r)")
    case None
    then show ?thesis using allocate_place [OF inv sz(1)] by (simp add: allocate_request_def)
  next
    case (Some p)
    obtain res used where p: "p = (res, used)" by (cases p)
    have "allocate_request r c = Inr (Some res, move_tail used (take_free used (write_header res used c)))"
      using Some p allocate_place [OF inv sz(1)] by (simp add: allocate_request_def)
    then show ?thesis using allocate_inv [OF inv sz Some [unfolded p]]
      by (intro disjI2 exI [of _ "\<lparr>blk_at = res, blk_len = unat (fst r), blk_used = used\<rparr>"]) simp
  qed
next
  fix c b live
  assume inv: "cm_inv c (b # live)"
  show "\<exists>c'. release (blk_at b) c = Inr c' \<and> cm_inv c' live"
    using release_oldest [OF inv] give_free_inv [OF inv] by blast
qed


section \<open>A concrete allocator\<close>

definition small_ring :: circular_memory where
  "small_ring = circular_memory_init 1000 64 (\<lambda>_. 0)"

lemma small_ring_inv: "cm_inv small_ring []"
  unfolding small_ring_def by (rule cm_inv_init) simp_all

lemma allocate_small_ring:
  "allocate 16 8 small_ring = Inr (Some 1008,
     move_tail 24 (take_free 24 (write_header 1008 24 small_ring)))"
  by (simp add: allocate_def small_ring_def circular_memory_init_def split_space_def place_def
      pad_n_align_def std_align_def align_up_def move_tail_def take_free_def write_header_def Let_def)


section \<open>Properties of the allocator\<close>

text \<open>C4: an allocation that succeeds returns an aligned block of the requested length, in the
  buffer and apart from every live block with its header, at the end of the queue of live blocks;
  the invariant (headers, chain of blocks, count of free bytes) holds again.\<close>

theorem allocate_sound:
  assumes "cm_inv c live" and "request_ok sz al" and "allocate sz al c = Inr (Some res, c')"
  shows "\<exists>used. cm_inv c' (live @ [\<lparr>blk_at = res, blk_len = unat sz, blk_used = used\<rparr>]) \<and>
    unat al dvd res \<and> cm_begin c + 8 \<le> res \<and> res + unat sz \<le> cm_begin c + unat (cm_size c) \<and>
    (\<forall>b \<in> set live. {res - 8 ..< res + unat sz} \<inter> extent b = {})"
proof -
  have sz: "sz \<noteq> 0" "unat sz + 8 < 2 ^ 64" "0 < al" using assms(2) by (auto simp: request_ok_def)
  obtain used where p: "place c (cm_free c) sz al = Some (res, used)"
    and c': "c' = move_tail used (take_free used (write_header res used c))"
    using assms(3) allocate_place [OF assms(1) sz(1), of al] by (auto split: option.splits)
  let ?b = "\<lparr>blk_at = res, blk_len = unat sz, blk_used = used\<rparr>"
  have inv: "cm_inv c' (live @ [?b])" using allocate_inv [OF assms(1) sz p] c' by simp
  have "in_range c" using assms(1) by (simp add: cm_inv_def)
  then have b: "unat al dvd res" "block_at (cm_begin c) (unat (cm_size c)) (unat (cm_tail c)) ?b"
    using place_Some [OF _ cm_inv_free_le [OF assms(1)] sz p] by auto
  have "extent ?b \<inter> extent d = {}" if "d \<in> set live" for d
  proof -
    obtain i where i: "i < length live" "d = live ! i" using \<open>d \<in> set live\<close> by (metis in_set_conv_nth)
    have "extent ((live @ [?b]) ! i) \<inter> extent ((live @ [?b]) ! length live) = {}"
      using inv i by (intro chain_disjoint) (auto simp: cm_inv_def)
    then show ?thesis using i by (auto simp: nth_append)
  qed
  then show ?thesis
    using inv b by (intro exI [of _ used]) (auto simp: block_at_def extent_def)
qed

lemma allocate_sound_witness:
  "\<exists>used. cm_inv (move_tail 24 (take_free 24 (write_header 1008 24 small_ring)))
     [\<lparr>blk_at = 1008, blk_len = 16, blk_used = used\<rparr>]"
proof -
  have "request_ok 16 8" by (simp add: request_ok_def)
  from allocate_sound [OF small_ring_inv this allocate_small_ring] show ?thesis by auto
qed

text \<open>C5: an allocation fails only for lack of room, and changes nothing: no aligned address behind a
  header leaves space for the request in the free bytes at the end of the buffer, and none in the
  free bytes at its beginning.\<close>

theorem allocate_complete:
  assumes "cm_inv c live" and "request_ok sz al" and "allocate sz al c = Inr (None, c')"
  shows "c' = c \<and>
    no_room (cm_begin c + unat (cm_tail c)) (min (unat (cm_free c)) (unat (cm_size c) - unat (cm_tail c)))
      (unat sz) (unat al) \<and>
    no_room (cm_begin c) (unat (cm_tail c) + unat (cm_free c) - unat (cm_size c)) (unat sz) (unat al)"
proof -
  have sz: "sz \<noteq> 0" "unat sz + 8 < 2 ^ 64" "0 < al" using assms(2) by (auto simp: request_ok_def)
  have "place c (cm_free c) sz al = None" and "c' = c"
    using assms(3) allocate_place [OF assms(1) sz(1), of al] by (auto split: option.splits)
  then show ?thesis
    using place_None [OF _ cm_inv_free_le [OF assms(1)] sz(2,3)] assms(1) by (auto simp: cm_inv_def)
qed

lemma allocate_complete_witness: "no_room 1000 64 57 1"
proof -
  have "allocate 57 1 small_ring = Inr (None, small_ring)"
    by (simp add: allocate_def small_ring_def circular_memory_init_def split_space_def place_def
        pad_n_align_def std_align_def align_up_def Let_def)
  moreover have "request_ok 57 1" by (simp add: request_ok_def)
  ultimately show ?thesis
    using allocate_complete [OF small_ring_inv, of 57 1 small_ring]
    by (simp add: small_ring_def circular_memory_init_def)
qed

text \<open>C11: the queue: on a fresh allocator, any sequence of allocations and releases in allocation
  order runs without a failing assert, whatever the sizes and alignments, and once all blocks are
  released the allocator is empty again: no byte is lost in the bookkeeping.\<close>

theorem fifo_drain:
  assumes "0 < n" and "unat n < 2 ^ 63" and "requests_ok (\<lambda>r. request_ok (fst r) (snd r)) cmds"
  shows "\<exists>c q. serve allocate_request release cmds (circular_memory_init buffer n m) [] = Inr (c, q) \<and>
    (\<exists>c'. serve allocate_request release (replicate (length q) Put) c q = Inr (c', []) \<and> cm_empty c')"
proof -
  obtain c live where s: "serve allocate_request release cmds (circular_memory_init buffer n m) [] =
      Inr (c, map blk_at live)" and inv: "cm_inv c live"
    using cm.serve_inv [OF assms(3) cm_inv_init [OF assms(1,2)], of buffer m] by auto
  obtain c' where d: "serve allocate_request release (replicate (length live) Put) c (map blk_at live) =
      Inr (c', [])" and e: "cm_inv c' []"
    using cm.serve_drain [OF inv] by blast
  have "cm_empty c'" using e by (simp add: cm_inv_def cm_empty_def word_unat_eq_iff)
  then show ?thesis using s d by auto
qed

lemma fifo_drain_witness:
  "\<exists>c q. serve allocate_request release [Get (16, 8), Get (10, 4), Put, Get (30, 16)] small_ring [] = Inr (c, q)"
  using fifo_drain [of 64 "[Get (16, 8), Get (10, 4), Put, Get (30, 16)]" 1000 "\<lambda>_. 0"]
  by (auto simp: request_ok_def small_ring_def)

text \<open>Releasing the oldest live block reads the size its allocation stored, whatever was
  written into the payloads of live blocks since, and gives exactly these bytes back.\<close>

theorem release_returns_bytes:
  assumes "cm_inv c (b # live)" and "d \<in> set (b # live)" and "x \<in> payload d"
  shows "release (blk_at b) (client_write x w c) =
      Inr (give_free (blk_used b) (client_write x w c)) \<and>
    cm_inv (give_free (blk_used b) (client_write x w c)) live"
  using client_write_inv [OF assms] release_oldest give_free_inv by blast

lemma release_returns_bytes_witness:
  "\<exists>c'. release 1008 (client_write 1010 255
      (move_tail 24 (take_free 24 (write_header 1008 24 small_ring)))) = Inr c' \<and> cm_inv c' []"
proof -
  have ok: "place small_ring (cm_free small_ring) 16 8 = Some (1008, 24)"
    by (simp add: small_ring_def circular_memory_init_def split_space_def place_def
      pad_n_align_def std_align_def align_up_def Let_def)
  have "cm_inv (move_tail 24 (take_free 24 (write_header 1008 24 small_ring)))
      [\<lparr>blk_at = 1008, blk_len = 16, blk_used = 24\<rparr>]"
    using allocate_inv [OF small_ring_inv _ _ _ ok] by simp
  from release_returns_bytes [OF this, of "\<lparr>blk_at = 1008, blk_len = 16, blk_used = 24\<rparr>" 1010 255]
  show ?thesis by (auto simp: payload_def)
qed

text \<open>C40: the size check of \<^verbatim>\<open>allocate\<close> wraps around: a request of 2^64 - 8 bytes passes
  \<^verbatim>\<open>sizeof(size) + size > space\<close>, and on an empty allocator whose free bytes are in one
  piece the second attempt, with no space at all, returns the beginning of the buffer.\<close>

theorem allocate_overflow:
  assumes "8 \<le> n" and "unat n < 2 ^ 63"
  shows "\<exists>c'. allocate (- 8) 1 (circular_memory_init buffer n m) = Inr (Some (buffer + 8), c')"
proof -
  let ?c = "circular_memory_init buffer n m"
  have n: "n \<noteq> 0" "(0 :: size_t) < n" using assms(1) by (auto simp: word_le_nat_alt word_gt_0)
  have big: "unat (- 8 :: size_t) = 2 ^ 64 - 8" by simp
  have first: "pad_n_align 1 (- 8) buffer n = None"
  proof -
    have "unat (n - 8) = unat n - 8" using assms(1) by (simp add: unat_sub)
    then show ?thesis using assms(2) by (simp add: pad_n_align_def std_align_def align_up_def Let_def)
  qed
  have "pad_n_align 1 (- 8) buffer 0 = Some (buffer + 8)"
    by (simp add: pad_n_align_def std_align_def align_up_def Let_def)
  then have p: "place ?c (cm_free ?c) (- 8) 1 = Some (buffer + 8, n)"
    using first n by (simp add: place_def split_space_def circular_memory_init_def Let_def)
  have "allocate (- 8) 1 ?c = Inr (Some (buffer + 8), move_tail n (take_free n (write_header (buffer + 8) n ?c)))"
    using allocate_place [OF cm_inv_init [OF n(2) assms(2)], of "- 8" 1 buffer m] p by simp
  then show ?thesis by blast
qed

lemma allocate_overflow_witness:
  "\<exists>c'. allocate (- 8) 1 small_ring = Inr (Some 1008, c')"
  unfolding small_ring_def using allocate_overflow [of 64 1000 "\<lambda>_. 0"] by simp


section \<open>Two threads\<close>

text \<open>C6: with one thread allocating and another releasing in order, in every interleaving of their
  accesses to the counter and the buffer, with payloads written meanwhile: no assert of
  \<^verbatim>\<open>allocate\<close> fails, every live block lies in the buffer with its header intact, no two of
  them overlap, and a header that was read for release is the oldest live block's.\<close>

theorem threads_safe:
  assumes "ring_reach (ring_init buffer n m) r" and "0 < n" and "unat n < 2 ^ 63"
  shows "r_prod r \<noteq> P_Failed \<and>
    (\<forall>b \<in> set (r_live r). used_memory (r_cm r) (blk_at b) = blk_used b) \<and>
    (\<forall>i j. i < j \<longrightarrow> j < length (r_live r) \<longrightarrow> extent (r_live r ! i) \<inter> extent (r_live r ! j) = {}) \<and>
    (\<forall>k. r_cons r = C_Read k \<longrightarrow> r_live r \<noteq> [] \<and> k = blk_used (hd (r_live r)))"
proof -
  have inv: "ring_inv r" using assms ring_init_inv ring_reach_inv by blast
  obtain v where ch: "chain (cm_begin (r_cm r)) (unat (cm_size (r_cm r))) v (r_live r)"
    using ring_inv_chain(1) [OF inv] by blast
  have "extent (r_live r ! i) \<inter> extent (r_live r ! j) = {}" if "i < j" "j < length (r_live r)" for i j
    using chain_disjoint [OF ch ring_inv_chain(2) [OF inv] that] .
  moreover have "used_memory (r_cm r) (blk_at b) = blk_used b" if "b \<in> set (r_live r)" for b
    using inv producer_headers that by (auto simp: ring_inv_def used_memory_def header_ok_def)
  ultimately show ?thesis
    using inv by (auto simp: ring_inv_def producer_inv_def consumer_inv_def)
qed

lemma threads_safe_witness:
  "r_prod (load_counter 16 8 (ring_init 1000 64 (\<lambda>_. 0))) \<noteq> P_Failed"
proof -
  have "ring_reach (ring_init 1000 64 (\<lambda>_. 0)) (load_counter 16 8 (ring_init 1000 64 (\<lambda>_. 0)))"
    by (rule ring_reach.Step [OF ring_reach.Start ring_step.Load])
       (simp_all add: ring_init_def request_ok_def)
  from threads_safe [OF this] show ?thesis by simp
qed

end
