(* ===== verification/Flags.thy ===== *)
theory Flags
  imports Fb_Prelude "HOL-Library.Word"
begin

unbundle bit_operations_syntax

text \<open>
  \<^verbatim>\<open>utils/flags/flags.hpp\<close>: printing and reading a set of bit flags with names, and the
  parser component of \<^verbatim>\<open>utils/flags/parser/flags.hpp\<close> built on it.  The integral type is a
  word of any length; \<open>sg\<close> says whether it is a signed one, which only \<^verbatim>\<open>from_chars\<close>
  depends on.  Iterators are the suffixes they point to.
\<close>

section \<open>from_chars\<close>

text \<open>\<^verbatim>\<open>std::from_chars\<close> of the standard library: an optional minus sign if the type is
  signed, then the longest run of digits of the base; the value must be in the range of the type.
  The result is the value, if there is one, and the characters not consumed.\<close>

definition digit_value :: "nat \<Rightarrow> char \<Rightarrow> nat option" where
  "digit_value base c =
     (let n = of_char c :: nat;
          d = (if 48 \<le> n \<and> n \<le> 57 then n - 48
               else if 97 \<le> n \<and> n \<le> 102 then n - 87
               else if 65 \<le> n \<and> n \<le> 70 then n - 55
               else 16)
      in if d < base then Some d else None)"

definition is_digit :: "nat \<Rightarrow> char \<Rightarrow> bool" where
  "is_digit base c = (digit_value base c \<noteq> None)"

definition digits_value :: "nat \<Rightarrow> string \<Rightarrow> nat" where
  "digits_value base ds = foldl (\<lambda>n c. n * base + the (digit_value base c)) 0 ds"

definition from_chars :: "bool \<Rightarrow> nat \<Rightarrow> string \<Rightarrow> 'a::len word option \<times> string" where
  "from_chars sg base s =
     (let neg = (sg \<and> s \<noteq> [] \<and> hd s = CHR ''-'');
          s' = (if neg then tl s else s);
          ds = takeWhile (is_digit base) s';
          rest = dropWhile (is_digit base) s';
          n = digits_value base ds
      in if ds = [] then (None, s)
         else if neg then (if n \<le> 2 ^ (LENGTH('a) - 1) then (Some (- of_nat n), rest) else (None, rest))
         else if n < (if sg then 2 ^ (LENGTH('a) - 1) else 2 ^ LENGTH('a)) then (Some (of_nat n), rest)
         else (None, rest))"


section \<open>Printing\<close>

definition flag_name :: "string list \<Rightarrow> nat \<Rightarrow> string" where
  "flag_name strings i = (if i < length strings then strings ! i else dec_string (2 ^ i))"

lemma unat_shift: "unat (drop_bit 1 u) = unat u div 2"
proof -
  have "unat (drop_bit 1 u) = drop_bit 1 (unat u)" by (rule unat_drop_bit_eq)
  then show ?thesis by (simp add: drop_bit_Suc)
qed

function to_string_loop ::
  "string list \<Rightarrow> char \<Rightarrow> 'a::len word \<Rightarrow> nat \<Rightarrow> string \<Rightarrow> string" where
  "to_string_loop strings delim u i res =
     (let res' = (if u AND 1 = 1 then res @ flag_name strings i @ [delim] else res);
          u' = drop_bit 1 u
      in if u' \<noteq> 0 then to_string_loop strings delim u' (Suc i) res' else res')"
  by pat_completeness auto
termination
proof (relation "measure (\<lambda>(strings, delim, u, i, res). unat u)")
  fix u u' :: "'a word"
  assume "u' = drop_bit 1 u" and "u' \<noteq> 0"
  then have "unat u' = unat u div 2" and "unat u' \<noteq> 0"
    by (simp_all only: unat_shift [symmetric] unat_eq_0 not_False_eq_True)
  then show "\<And>strings delim i res.
      ((strings, delim, u', Suc i, res'), strings, delim, u, i, res)
        \<in> measure (\<lambda>(strings, delim, u, i, res). unat u)" for res' by simp
qed simp

declare to_string_loop.simps [simp del]

definition to_string :: "string list \<Rightarrow> char \<Rightarrow> 'a::len word \<Rightarrow> string" where
  "to_string strings delim v = (if v \<noteq> 0 then butlast (to_string_loop strings delim v 0 []) else [])"


section \<open>Reading\<close>

text \<open>The call of \<^verbatim>\<open>from_chars\<close>: whether it took all of the characters, and the
  value.\<close>

definition convert :: "bool \<Rightarrow> nat \<Rightarrow> string \<Rightarrow> bool \<times> 'a::len word" where
  "convert sg base s =
     (case from_chars sg base s of (Some v, rest) \<Rightarrow> (rest = [], v) | (None, rest) \<Rightarrow> (False, 0))"

definition parse_numeric :: "bool \<Rightarrow> string \<Rightarrow> (bool \<times> 'a::len word) outcome" where
  "parse_numeric sg token =
     (case token of
        [] \<Rightarrow> Inl Assert_Failed
      | c # cs \<Rightarrow>
          if c = CHR ''0'' then
            (case cs of
               [] \<Rightarrow> Inr (True, 0)
             | d # ds \<Rightarrow>
                 if d = CHR ''x'' \<or> d = CHR ''X'' then
                   (if ds = [] then Inr (False, 0) else Inr (convert sg 16 ds))
                 else Inr (convert sg 10 cs))
          else Inr (convert sg 10 token))"

text \<open>\<^verbatim>\<open>T{1} << i\<close>.\<close>

definition flag_bit :: "nat \<Rightarrow> 'a::len word" where
  "flag_bit i = push_bit i 1"

lemma bit_flag_bit [simp]: "bit (flag_bit i :: 'a::len word) n \<longleftrightarrow> n = i \<and> n < LENGTH('a)"
  unfolding flag_bit_def bit_push_bit_iff bit_1_iff by auto

lemma flag_bit_power: "flag_bit i = 2 ^ i"
  by (simp add: flag_bit_def push_bit_eq_mult)

text \<open>One round of the loop: the flags of the token are added; \<open>None\<close> is the \<^verbatim>\<open>break\<close> on an
  unknown one.\<close>

definition add_token :: "bool \<Rightarrow> string list \<Rightarrow> string \<Rightarrow> 'a::len word \<Rightarrow> 'a word option outcome" where
  "add_token sg strings token res =
     (case find_idx (\<lambda>x. x = token) strings of
        Some i \<Rightarrow> Inr (Some (res OR flag_bit i))
      | None \<Rightarrow> obind (parse_numeric sg token) (\<lambda>(ok, val).
          Inr (if ok then Some (res OR val) else None)))"

function parse_string_loop ::
  "bool \<Rightarrow> string list \<Rightarrow> char \<Rightarrow> string \<Rightarrow> 'a::len word \<Rightarrow> ('a word \<times> string) outcome" where
  "parse_string_loop sg strings delim s res =
     (let token = takeWhile (\<lambda>c. c \<noteq> delim) s; lst = dropWhile (\<lambda>c. c \<noteq> delim) s in
      obind (if token \<noteq> [] then add_token sg strings token res else Inr (Some res)) (\<lambda>r.
        case r of
          None \<Rightarrow> Inr (res, s)
        | Some res' \<Rightarrow>
            if lst = [] then Inr (res', [])
            else if tl lst = [] then Inr (res', [])
            else parse_string_loop sg strings delim (tl lst) res'))"
  by pat_completeness auto
termination
proof (relation "measure (\<lambda>(sg, strings, delim, s, res). length s)")
  fix s lst :: string and delim :: char
  assume "lst = dropWhile (\<lambda>c. c \<noteq> delim) s" "lst \<noteq> []"
  moreover have "length (dropWhile (\<lambda>c. c \<noteq> delim) s) \<le> length s" by (rule length_dropWhile_le)
  ultimately have "length lst \<le> length s" and "0 < length lst" by simp_all
  then have "length (tl lst) < length s" by (cases lst) simp_all
  then show "\<And>sg strings res' res. ((sg, strings, delim, tl lst, res' :: 'a word), sg, strings, delim, s, res)
      \<in> measure (\<lambda>(sg, strings, delim, s, res). length s)" by simp
qed simp

declare parse_string_loop.simps [simp del]

definition parse_string ::
  "bool \<Rightarrow> string list \<Rightarrow> char \<Rightarrow> string \<Rightarrow> ('a::len word \<times> string) outcome" where
  "parse_string sg strings delim s =
     (if length strings \<le> LENGTH('a) then parse_string_loop sg strings delim s 0
      else Inl Assert_Failed)"

definition from_string :: "bool \<Rightarrow> string list \<Rightarrow> char \<Rightarrow> string \<Rightarrow> 'a::len word outcome" where
  "from_string sg strings delim s =
     obind (parse_string sg strings delim s) (\<lambda>(res, rest).
       if rest \<noteq> [] then Inl (Runtime_Error (''unknown flag : '' @ rest)) else Inr res)"

text \<open>\<^verbatim>\<open>flags_parser::parse\<close>.  The pre-skip belongs to the parser library and is a parameter:
  it returns where the input begins behind what is skipped.  The result is the attribute, if the
  parser matched, and the iterator.\<close>

definition flags_parser ::
  "(string \<Rightarrow> string) \<Rightarrow> bool \<Rightarrow> string list \<Rightarrow> char \<Rightarrow> string \<Rightarrow> ('a::len word option \<times> string) outcome" where
  "flags_parser skip sg strings delim s =
     (let first = skip s in
      if first = [] then Inr (Some 0, [])
      else obind (parse_string sg strings delim first) (\<lambda>(val, rest).
        if rest \<noteq> first then Inr (Some val, rest) else Inr (None, rest)))"


section \<open>Decimal and hexadecimal numbers\<close>

lemma digit_char_value: "d < 10 \<Longrightarrow> digit_value 10 (digit_char d) = Some d"
  by (simp add: digit_value_def digit_char_def Let_def)

lemma digits_value_snoc: "digits_value b (ds @ [c]) = digits_value b ds * b + the (digit_value b c)"
  by (simp add: digits_value_def)

lemma dec_string_digits: "\<forall>c \<in> set (dec_string n). is_digit 10 c"
proof (induction n rule: dec_string.induct)
  case (1 n)
  show ?case
  proof (cases "n < 10")
    case True
    then show ?thesis by (simp add: dec_string_small is_digit_def digit_char_value)
  next
    case False
    then show ?thesis using 1 by (simp add: dec_string_step is_digit_def digit_char_value)
  qed
qed

lemma digits_value_dec: "digits_value 10 (dec_string n) = n"
proof (induction n rule: dec_string.induct)
  case (1 n)
  show ?case
  proof (cases "n < 10")
    case True
    then show ?thesis by (simp add: dec_string_small digits_value_def digit_char_value)
  next
    case False
    then show ?thesis using 1 by (simp add: dec_string_step digits_value_snoc digit_char_value)
  qed
qed

definition hex_char :: "nat \<Rightarrow> char" where
  "hex_char d = (if d < 10 then digit_char d else char_of (87 + d))"

fun hex_string :: "nat \<Rightarrow> string" where
  "hex_string n = (if n < 16 then [hex_char n] else hex_string (n div 16) @ [hex_char (n mod 16)])"

declare hex_string.simps [simp del]

lemma hex_char_value: "d < 16 \<Longrightarrow> digit_value 16 (hex_char d) = Some d"
  by (simp add: digit_value_def hex_char_def digit_char_def Let_def)

lemma hex_string_digits: "hex_string n \<noteq> [] \<and> (\<forall>c \<in> set (hex_string n). is_digit 16 c)"
proof (induction n rule: hex_string.induct)
  case (1 n)
  then show ?case
    by (subst (1 2) hex_string.simps) (auto simp: is_digit_def hex_char_value)
qed

lemma digits_value_hex: "digits_value 16 (hex_string n) = n"
proof (induction n rule: hex_string.induct)
  case (1 n)
  then show ?case
    by (subst hex_string.simps) (auto simp: digits_value_snoc hex_char_value digits_value_def)
qed

lemma from_chars_digits:
  assumes "ds \<noteq> []" and "\<forall>c \<in> set ds. is_digit base c"
  shows "from_chars False base ds =
     (if digits_value base ds < 2 ^ LENGTH('a) then Some (of_nat (digits_value base ds) :: 'a::len word)
      else None, [])"
proof -
  have t: "takeWhile (is_digit base) ds = ds" by (rule takeWhile_eq_all_conv [THEN iffD2, OF assms(2)])
  have d: "dropWhile (is_digit base) ds = []" using assms(2) by simp
  show ?thesis using assms(1) by (simp add: from_chars_def Let_def t d)
qed

lemma from_chars_digits_signed:
  assumes "ds \<noteq> []" and "\<forall>c \<in> set ds. is_digit base c" and "hd ds \<noteq> CHR ''-''"
  shows "from_chars True base ds =
     (if digits_value base ds < 2 ^ (LENGTH('a) - 1) then Some (of_nat (digits_value base ds) :: 'a::len word)
      else None, [])"
proof -
  have t: "takeWhile (is_digit base) ds = ds" by (rule takeWhile_eq_all_conv [THEN iffD2, OF assms(2)])
  have d: "dropWhile (is_digit base) ds = []" using assms(2) by simp
  show ?thesis using assms(1,3) by (simp add: from_chars_def Let_def t d)
qed

lemma dec_string_head: "0 < n \<Longrightarrow> hd (dec_string n) \<noteq> CHR ''0''"
proof (induction n rule: dec_string.induct)
  case (1 n)
  show ?case
  proof (cases "n < 10")
    case True
    have "digit_value 10 (digit_char n) \<noteq> digit_value 10 (CHR ''0'')"
      using True 1 by (simp add: digit_char_value) (simp add: digit_value_def)
    then have "digit_char n \<noteq> CHR ''0''" by metis
    then show ?thesis using True by (simp add: dec_string_small)
  next
    case False
    then have "0 < n div 10" by simp
    with False 1 show ?thesis by (simp add: dec_string_step hd_append)
  qed
qed

end
