(* ===== verification/Flags_Properties.thy ===== *)
theory Flags_Properties
  imports Flags
begin

text \<open>
  The flag functions against descriptions over the set bits of a value and the pieces of a text:
  what is printed, what is read, and that reading undoes printing.
\<close>

section \<open>The set bits of a value\<close>

definition set_bits_of :: "'a::len word \<Rightarrow> nat list" where
  "set_bits_of u = filter (bit u) [0..<LENGTH('a)]"

lemma set_bits_of_shift:
  "set_bits_of u = (if bit u 0 then [0] else []) @ map Suc (set_bits_of (drop_bit 1 u))"
proof -
  have "[0..<LENGTH('a)] = 0 # map Suc [0..<LENGTH('a) - 1]"
    by (metis One_nat_def Suc_pred len_gt_0 map_Suc_upt upt_conv_Cons)
  moreover have "filter (\<lambda>j. bit u (Suc j)) [0..<LENGTH('a)] = filter (\<lambda>j. bit u (Suc j)) [0..<LENGTH('a) - 1]"
  proof -
    have "[0..<LENGTH('a)] = [0..<LENGTH('a) - 1] @ [LENGTH('a) - 1]"
      by (metis One_nat_def Suc_pred len_gt_0 upt_Suc_append zero_le)
    moreover have "\<not> bit u (Suc (LENGTH('a) - 1))" using bit_imp_le_length by fastforce
    ultimately show ?thesis by simp
  qed
  ultimately show ?thesis
    by (simp add: set_bits_of_def filter_map comp_def bit_drop_bit_eq)
qed

lemma set_bits_of_Nil_iff: "set_bits_of u = [] \<longleftrightarrow> u = 0"
  by (auto simp: set_bits_of_def filter_empty_conv bit_eq_iff dest: bit_imp_le_length)

lemma set_bits_of_0 [simp]: "set_bits_of 0 = []"
  by (simp add: set_bits_of_Nil_iff)

lemma low_bit: "u AND 1 = 1 \<longleftrightarrow> bit (u :: 'a::len word) 0"
  by (simp add: and_one_eq bit_0 odd_iff_mod_2_eq_one)

lemma to_string_loop_bits:
  "to_string_loop strings delim u i res =
     res @ concat (map (\<lambda>j. flag_name strings (i + j) @ [delim]) (set_bits_of u))"
proof (induction strings delim u i res rule: to_string_loop.induct)
  case (1 strings delim u i res)
  let ?res = "if u AND 1 = 1 then res @ flag_name strings i @ [delim] else res"
  show ?case
  proof (cases "drop_bit 1 u = 0")
    case True
    then show ?thesis
      by (subst to_string_loop.simps, subst set_bits_of_shift)
         (simp add: low_bit Let_def set_bits_of_Nil_iff [THEN iffD2])
  next
    case False
    have "to_string_loop strings delim u i res = to_string_loop strings delim (drop_bit 1 u) (Suc i) ?res"
      using False by (subst to_string_loop.simps) (simp only: Let_def if_True simp_thms)
    also have "\<dots> = ?res @ concat (map (\<lambda>j. flag_name strings (Suc i + j) @ [delim]) (set_bits_of (drop_bit 1 u)))"
      by (rule "1.IH" [OF refl refl False])
    also have "\<dots> = res @ concat (map (\<lambda>j. flag_name strings (i + j) @ [delim]) (set_bits_of u))"
      by (subst (2) set_bits_of_shift) (simp add: low_bit comp_def)
    finally show ?thesis .
  qed
qed

lemma butlast_join: "xs \<noteq> [] \<Longrightarrow> butlast (concat (map (\<lambda>x. x @ [d]) xs)) = join [d] xs"
  by (induction "[d]" xs rule: join.induct) (auto simp: butlast_append)

lemma to_string_join: "to_string strings delim v = join [delim] (map (flag_name strings) (set_bits_of v))"
proof (cases "v = 0")
  case True
  then show ?thesis by (simp add: to_string_def set_bits_of_Nil_iff)
next
  case False
  then have "map (flag_name strings) (set_bits_of v) \<noteq> []" by (simp add: set_bits_of_Nil_iff)
  from butlast_join [OF this] show ?thesis
    using False by (simp add: to_string_def to_string_loop_bits comp_def)
qed


section \<open>The pieces of a text\<close>

definition token_flags :: "bool \<Rightarrow> string list \<Rightarrow> string \<Rightarrow> 'a::len word option" where
  "token_flags sg strings token =
     (case find_idx (\<lambda>x. x = token) strings of
        Some i \<Rightarrow> Some (flag_bit i)
      | None \<Rightarrow> (case parse_numeric sg token of Inr (True, v) \<Rightarrow> Some v | _ \<Rightarrow> None))"

fun read_tokens :: "bool \<Rightarrow> string list \<Rightarrow> string list \<Rightarrow> 'a::len word \<Rightarrow> 'a word \<times> string list" where
  "read_tokens sg strings [] res = (res, [])"
| "read_tokens sg strings (p # ps) res =
     (if p = [] then read_tokens sg strings ps res
      else (case token_flags sg strings p of
              None \<Rightarrow> (res, p # ps)
            | Some v \<Rightarrow> read_tokens sg strings ps (res OR v)))"

lemma parse_numeric_Inr: "token \<noteq> [] \<Longrightarrow> \<exists>r. parse_numeric sg token = Inr r"
  by (auto simp: parse_numeric_def split: list.splits)

lemma add_token_flags:
  "token \<noteq> [] \<Longrightarrow> add_token sg strings token res =
     Inr (map_option (\<lambda>v. res OR v) (token_flags sg strings token))"
  using parse_numeric_Inr [of token sg, where 'a = 'a]
  by (auto simp: add_token_def token_flags_def split: option.splits bool.splits)

lemma split_on_pieces:
  "split_on d s = takeWhile (\<lambda>c. c \<noteq> d) s #
     (case dropWhile (\<lambda>c. c \<noteq> d) s of [] \<Rightarrow> [] | _ # r \<Rightarrow> split_on d r)"
proof (induction s)
  case (Cons c s)
  show ?case
  proof (cases "c = d")
    case False
    then show ?thesis by (simp only: split_on.simps if_False) (subst Cons.IH, simp)
  qed simp
qed simp

lemma join_split_on: "join [d] (split_on d s) = s"
proof (induction s)
  case (Cons c s)
  have nonempty: "split_on d s \<noteq> []" by simp
  obtain p ps where p: "split_on d s = p # ps" using nonempty by (cases "split_on d s") auto
  then show ?case using Cons.IH by (cases ps) auto
qed simp

lemma parse_string_loop_read:
  "parse_string_loop sg strings delim s res =
     (let r = read_tokens sg strings (split_on delim s) res in Inr (fst r, join [delim] (snd r)))"
proof (induction "length s" arbitrary: s res rule: less_induct)
  case less
  let ?t = "takeWhile (\<lambda>c. c \<noteq> delim) s" and ?l = "dropWhile (\<lambda>c. c \<noteq> delim) s"
  have pieces: "split_on delim s = ?t # (case ?l of [] \<Rightarrow> [] | _ # r \<Rightarrow> split_on delim r)"
    by (rule split_on_pieces)
  have s: "join [delim] (?t # (case ?l of [] \<Rightarrow> [] | _ # r \<Rightarrow> split_on delim r)) = s"
    using join_split_on [of delim s] pieces by simp
  have step: "(case Some r of None \<Rightarrow> Inr (res, s) | Some res' \<Rightarrow>
        if l = [] then Inr (res', []) else if tl l = [] then Inr (res', [])
        else parse_string_loop sg strings delim (tl l) res') =
      (let x = read_tokens sg strings (case l of [] \<Rightarrow> [] | _ # r \<Rightarrow> split_on delim r) r
       in Inr (fst x, join [delim] (snd x)))" if "length l \<le> length s" for l r
  proof (cases l)
    case (Cons c l')
    then have "length l' < length s" using that by simp
    then show ?thesis using Cons less.hyps [of l' r] by (cases l') simp_all
  qed simp
  note step = step [OF length_dropWhile_le]
  show ?case
  proof (cases "?t = []")
    case True
    then show ?thesis
      using step [of "\<lambda>c. c \<noteq> delim" res] by (subst parse_string_loop.simps) (simp add: Let_def pieces)
  next
    case False
    show ?thesis
    proof (cases "token_flags sg strings ?t :: 'a word option")
      case None
      then show ?thesis
        using False s by (subst parse_string_loop.simps) (simp add: Let_def add_token_flags pieces)
    next
      case (Some v)
      then show ?thesis
        using False step [of "\<lambda>c. c \<noteq> delim" "res OR v"]
        by (subst parse_string_loop.simps) (simp add: Let_def add_token_flags pieces)
    qed
  qed
qed

lemma read_tokens_eq:
  "read_tokens sg strings ps (res :: 'a::len word) =
     (let known = \<lambda>p. p = [] \<or> (token_flags sg strings p :: 'a word option) \<noteq> None in
      (foldl (\<lambda>r p. r OR the (token_flags sg strings p)) res
         (filter (\<lambda>p. p \<noteq> []) (takeWhile known ps)), dropWhile known ps))"
  by (induction ps arbitrary: res) (auto simp: Let_def split: option.splits)

definition known_token :: "'a::len itself \<Rightarrow> bool \<Rightarrow> string list \<Rightarrow> string \<Rightarrow> bool" where
  "known_token TYPE('a) sg strings p = (p = [] \<or> (token_flags sg strings p :: 'a word option) \<noteq> None)"

definition text_flags :: "bool \<Rightarrow> string list \<Rightarrow> string list \<Rightarrow> 'a::len word" where
  "text_flags sg strings ps =
     foldl (\<lambda>r p. r OR the (token_flags sg strings p)) 0 (filter (\<lambda>p. p \<noteq> []) ps)"

lemma parse_string_tokens:
  fixes v :: "'a::len word"
  assumes "length strings \<le> LENGTH('a)"
  shows "parse_string sg strings delim s =
     Inr (text_flags sg strings (takeWhile (known_token TYPE('a) sg strings) (split_on delim s)) :: 'a word,
          join [delim] (dropWhile (known_token TYPE('a) sg strings) (split_on delim s)))"
proof -
  have k: "known_token TYPE('a) sg strings =
      (\<lambda>p. p = [] \<or> (token_flags sg strings p :: 'a word option) \<noteq> None)"
    by (simp add: fun_eq_iff known_token_def)
  show ?thesis
    using assms by (simp add: parse_string_def parse_string_loop_read read_tokens_eq k text_flags_def Let_def)
qed

lemma join_eq_Nil: "ps = [] \<or> hd ps \<noteq> [] \<Longrightarrow> join [d] ps = [] \<longleftrightarrow> ps = []"
  by (cases ps; cases "tl ps") auto

lemma join_unknown:
  "join [delim] (dropWhile (known_token TYPE('a::len) sg strings) ps) = [] \<longleftrightarrow>
   (\<forall>p \<in> set ps. known_token TYPE('a) sg strings p)"
proof -
  let ?d = "dropWhile (known_token TYPE('a) sg strings) ps"
  have "?d = [] \<or> hd ?d \<noteq> []"
  proof (rule disjCI)
    assume "\<not> hd ?d \<noteq> []"
    then have "known_token TYPE('a) sg strings (hd ?d)" by (simp add: known_token_def)
    then show "?d = []" using hd_dropWhile [of "known_token TYPE('a) sg strings" ps] by blast
  qed
  then show ?thesis by (simp only: join_eq_Nil dropWhile_eq_Nil_conv)
qed


section \<open>Reading what was printed\<close>

lemma find_idx_nth_distinct:
  "distinct xs \<Longrightarrow> i < length xs \<Longrightarrow> find_idx (\<lambda>x. x = xs ! i) xs = Some i"
  by (auto simp: find_idx_Some_iff nth_eq_iff_index_eq)

lemma digit_char_0: "digit_char 0 = CHR ''0''"
  by code_simp

lemma parse_numeric_dec:
  "parse_numeric False (dec_string n) =
     Inr (if n < 2 ^ LENGTH('a) then (True, of_nat n :: 'a::len word) else (False, 0))"
proof (cases "n = 0")
  case True
  then show ?thesis by (simp add: dec_string_small parse_numeric_def digit_char_0)
next
  case False
  then have h: "hd (dec_string n) \<noteq> CHR ''0''" by (simp add: dec_string_head)
  obtain c cs where d: "dec_string n = c # cs" using dec_string_nonempty [of n] by (cases "dec_string n") auto
  have "from_chars False 10 (dec_string n) =
      (if n < 2 ^ LENGTH('a) then Some (of_nat n :: 'a word) else None, [])"
    using from_chars_digits [OF dec_string_nonempty dec_string_digits, of n, where 'a = 'a] by (simp add: digits_value_dec)
  then show ?thesis using h d by (simp add: parse_numeric_def convert_def)
qed

lemma parse_numeric_hex:
  "parse_numeric False (''0x'' @ hex_string n) =
     Inr (if n < 2 ^ LENGTH('a) then (True, of_nat n :: 'a::len word) else (False, 0))"
proof -
  have "from_chars False 16 (hex_string n) =
      (if n < 2 ^ LENGTH('a) then Some (of_nat n :: 'a word) else None, [])"
    using from_chars_digits [of "hex_string n" 16, where 'a = 'a] hex_string_digits [of n] by (simp add: digits_value_hex)
  then show ?thesis using hex_string_digits [of n] by (simp add: parse_numeric_def convert_def)
qed

text \<open>Names a value can be printed with and read from.\<close>

definition names_ok :: "nat \<Rightarrow> string list \<Rightarrow> char \<Rightarrow> bool" where
  "names_ok w strings delim \<longleftrightarrow>
     length strings \<le> w \<and> distinct strings \<and> [] \<notin> set strings \<and> \<not> is_digit 10 delim \<and>
     list_all (\<lambda>s. delim \<notin> set s) strings \<and>
     list_all (\<lambda>i. dec_string (2 ^ i) \<notin> set strings) [length strings..<w]"

lemma token_flags_name:
  assumes "names_ok LENGTH('a::len) strings delim" and "j < LENGTH('a)"
  shows "token_flags False strings (flag_name strings j) = Some (flag_bit j :: 'a word)"
proof (cases "j < length strings")
  case True
  then show ?thesis
    using assms by (simp add: names_ok_def token_flags_def flag_name_def find_idx_nth_distinct)
next
  case False
  then have "dec_string (2 ^ j) \<notin> set strings"
    using assms by (auto simp: names_ok_def list_all_iff)
  then have "find_idx (\<lambda>x. x = dec_string (2 ^ j)) strings = None" by (auto simp: find_idx_None_iff)
  moreover have "(2 :: nat) ^ j < 2 ^ LENGTH('a)" using assms(2) by simp
  then have "parse_numeric False (dec_string (2 ^ j)) = Inr (True, of_nat (2 ^ j) :: 'a word)"
    by (simp only: parse_numeric_dec if_True)
  moreover have "of_nat (2 ^ j) = (flag_bit j :: 'a word)" by (simp add: flag_bit_power)
  ultimately show ?thesis using False by (simp add: token_flags_def flag_name_def)
qed

lemma flag_name_nonempty: "names_ok w strings delim \<Longrightarrow> j < w \<Longrightarrow> flag_name strings j \<noteq> []"
  by (auto simp: names_ok_def flag_name_def list_all_iff dest: nth_mem)

lemma flag_name_no_delim: "names_ok w strings delim \<Longrightarrow> delim \<notin> set (flag_name strings j)"
  using dec_string_digits [of "2 ^ j"] by (auto simp: names_ok_def flag_name_def list_all_iff)

lemma bit_foldl_or:
  "bit (foldl (\<lambda>r j. r OR flag_bit j) (r :: 'a::len word) js) n \<longleftrightarrow>
     bit r n \<or> n \<in> set js \<and> n < LENGTH('a)"
  by (induction js arbitrary: r) (auto simp: bit_or_iff bit_push_bit_iff bit_1_iff dest: bit_imp_le_length)

lemma set_bits_of_join: "foldl (\<lambda>r j. r OR flag_bit j) 0 (set_bits_of v) = (v :: 'a::len word)"
  by (rule bit_word_eqI) (simp add: bit_foldl_or set_bits_of_def)

lemma set_bits_of_less: "j \<in> set (set_bits_of (v :: 'a::len word)) \<Longrightarrow> j < LENGTH('a)"
  by (simp add: set_bits_of_def)

lemma text_flags_names:
  assumes "names_ok LENGTH('a::len) strings delim" and "\<forall>j \<in> set js. j < LENGTH('a)"
  shows "foldl (\<lambda>r p. r OR the (token_flags False strings p)) (r :: 'a word) (map (flag_name strings) js) =
    foldl (\<lambda>r j. r OR flag_bit j) r js"
  using assms(2) by (induction js arbitrary: r) (simp_all add: token_flags_name [OF assms(1)])

text \<open>The pieces of a printed value: its flags' names, or one empty piece for 0.\<close>

lemma to_string_pieces:
  assumes "names_ok LENGTH('a) strings delim"
  shows "filter (\<lambda>p. p \<noteq> []) (split_on delim (to_string strings delim (v :: 'a::len word))) =
    map (flag_name strings) (set_bits_of v)"
proof (cases "v = 0")
  case True
  then show ?thesis by (simp add: to_string_def set_bits_of_Nil_iff [THEN iffD2])
next
  case False
  let ?ns = "map (flag_name strings) (set_bits_of v)"
  have "split_on delim (to_string strings delim v) = ?ns"
    unfolding to_string_join
    by (rule split_on_join) (use False flag_name_no_delim [OF assms] in \<open>auto simp: set_bits_of_Nil_iff\<close>)
  moreover have "\<forall>p \<in> set ?ns. p \<noteq> []"
    using flag_name_nonempty [OF assms] set_bits_of_less by auto
  ultimately show ?thesis by (simp only: filter_id_conv)
qed


section \<open>Properties\<close>

text \<open>C33: \<^verbatim>\<open>to_string\<close> prints the flags that are set, the lowest bit first, each by its name
  or, without one, by the decimal value of its bit, with the delimiter between them and not behind
  the last.\<close>

theorem to_string_set_bits:
  "to_string strings delim v =
     join [delim] (map (\<lambda>j. if j < length strings then strings ! j else dec_string (2 ^ j))
       (filter (bit v) [0..<LENGTH('a)]))" for v :: "'a::len word"
proof -
  have "flag_name strings = (\<lambda>j. if j < length strings then strings ! j else dec_string (2 ^ j))"
    by (simp add: fun_eq_iff flag_name_def)
  then show ?thesis using to_string_join [of strings delim v] by (simp only: set_bits_of_def)
qed

text \<open>C32: \<^verbatim>\<open>from_string\<close> reads the non-empty pieces between delimiters: if each is a name or
  a number of the type, the result is the disjunction of their bits; otherwise the call throws, and
  the message shows the text from the first piece on that is neither.\<close>

theorem from_string_pieces:
  assumes "length strings \<le> LENGTH('a::len)"
  shows "from_string sg strings delim s =
    (let ps = split_on delim s in
     if \<forall>p \<in> set ps. known_token TYPE('a) sg strings p then Inr (text_flags sg strings ps :: 'a word)
     else Inl (Runtime_Error (''unknown flag : '' @
       join [delim] (dropWhile (known_token TYPE('a) sg strings) ps))))"
proof (cases "\<forall>p \<in> set (split_on delim s). known_token TYPE('a) sg strings p")
  case True
  then have "takeWhile (known_token TYPE('a) sg strings) (split_on delim s) = split_on delim s"
    and "dropWhile (known_token TYPE('a) sg strings) (split_on delim s) = []"
    by (simp_all only: takeWhile_eq_all_conv dropWhile_eq_Nil_conv)
  note pieces = this
  show ?thesis unfolding from_string_def parse_string_tokens [OF assms] pieces using True by simp
next
  case False
  then have "join [delim] (dropWhile (known_token TYPE('a) sg strings) (split_on delim s)) \<noteq> []"
    using join_unknown [of delim sg strings "split_on delim s", where 'a = 'a] by blast
  then show ?thesis using False parse_string_tokens [OF assms, of sg delim s]
    by (simp add: from_string_def Let_def)
qed

lemma from_string_pieces_witness:
  "from_string False [''a'', ''b''] CHR ''|'' ''a|c|b'' = (Inl (Runtime_Error ''unknown flag : c|b'') :: 8 word outcome)"
proof -
  have a: "known_token TYPE(8) False [''a'', ''b''] ''a''"
    by (simp add: known_token_def token_flags_def)
  have c: "\<not> known_token TYPE(8) False [''a'', ''b''] ''c''"
    by (simp add: known_token_def token_flags_def parse_numeric_def convert_def from_chars_def is_digit_def
        digit_value_def Let_def)
  show ?thesis
    using from_string_pieces [of "[''a'', ''b'']" False "CHR ''|''" "''a|c|b''", where 'a = 8] a c
    by simp
qed

text \<open>C14: round trip: with names that are distinct, not empty, without the delimiter and not the
  number of an unnamed bit, every value of an unsigned type is read back from what is printed for
  it.\<close>

theorem flags_roundtrip:
  assumes "names_ok LENGTH('a::len) strings delim"
  shows "from_string False strings delim (to_string strings delim v) = Inr (v :: 'a word)"
proof -
  let ?ps = "split_on delim (to_string strings delim v)"
  have len: "length strings \<le> LENGTH('a)" using assms by (simp add: names_ok_def)
  have pieces: "filter (\<lambda>p. p \<noteq> []) ?ps = map (flag_name strings) (set_bits_of v)"
    by (rule to_string_pieces [OF assms])
  have known: "known_token TYPE('a) False strings p" if "p \<in> set ?ps" for p
  proof (cases "p = []")
    case False
    then have "p \<in> set (filter (\<lambda>p. p \<noteq> []) ?ps)" using that by simp
    then obtain j where "p = flag_name strings j" "j < LENGTH('a)"
      unfolding pieces using set_bits_of_less by auto
    then show ?thesis using token_flags_name [OF assms] by (simp add: known_token_def)
  qed (simp add: known_token_def)
  then have "\<forall>p \<in> set ?ps. known_token TYPE('a) False strings p" by blast
  then have "takeWhile (known_token TYPE('a) False strings) ?ps = ?ps"
    and "dropWhile (known_token TYPE('a) False strings) ?ps = []"
    by (simp_all only: takeWhile_eq_all_conv dropWhile_eq_Nil_conv)
  note whole = this
  have "text_flags False strings ?ps = v"
    unfolding text_flags_def pieces
    using text_flags_names [OF assms, of "set_bits_of v" 0] set_bits_of_less set_bits_of_join by metis
  then show ?thesis unfolding from_string_def parse_string_tokens [OF len] whole by simp
qed

lemma flags_roundtrip_witness:
  "from_string False [''VLAN'', ''0x2''] CHR ''|'' (to_string [''VLAN'', ''0x2''] CHR ''|'' (11 :: 4 word)) = Inr (11 :: 4 word)"
proof -
  have "names_ok LENGTH(4) [''VLAN'', ''0x2''] CHR ''|''"
    by (simp add: names_ok_def is_digit_def digit_value_def dec_string.simps digit_char_def
        upt_rec numeral_2_eq_2 numeral_3_eq_3 Let_def)
  from flags_roundtrip [OF this] show ?thesis by simp
qed

text \<open>Numbers: the decimal digits of a number, and its hexadecimal digits behind
  \<^verbatim>\<open>0x\<close>, are read as the number if it fits the unsigned type, and are not a flag
  otherwise.\<close>

theorem parse_numeric_numbers:
  "parse_numeric False (dec_string n) =
     Inr (if n < 2 ^ LENGTH('a) then (True, of_nat n :: 'a::len word) else (False, 0)) \<and>
   parse_numeric False (''0x'' @ hex_string n) =
     Inr (if n < 2 ^ LENGTH('a) then (True, of_nat n :: 'a word) else (False, 0))"
  using parse_numeric_dec parse_numeric_hex by blast

text \<open>The round trip is lost for signed types: the sign bit alone, if it has no name, is
  printed as its unsigned decimal value, which \<^verbatim>\<open>from_chars\<close> rejects as out of range, so
  \<^verbatim>\<open>from_string\<close> throws on what \<^verbatim>\<open>to_string\<close> printed.\<close>

theorem sign_bit_not_read:
  assumes "length strings < LENGTH('a::len)" and "dec_string (2 ^ (LENGTH('a) - 1)) \<notin> set strings"
    and "\<not> is_digit 10 delim"
  shows "from_string True strings delim (to_string strings delim (flag_bit (LENGTH('a) - 1) :: 'a word)) =
     (Inl (Runtime_Error (''unknown flag : '' @ dec_string (2 ^ (LENGTH('a) - 1)))) :: 'a word outcome)"
proof -
  let ?n = "LENGTH('a) - 1" and ?s = "dec_string (2 ^ (LENGTH('a) - 1))"
  let ?v = "flag_bit ?n :: 'a word"
  have "set_bits_of ?v = [?n]"
  proof -
    have "[0..<LENGTH('a)] = [0..<?n] @ [?n]"
      by (metis One_nat_def Suc_pred len_gt_0 upt_Suc_append zero_le)
    then show ?thesis by (auto simp: set_bits_of_def bit_push_bit_iff bit_1_iff filter_empty_conv)
  qed
  then have s: "to_string strings delim ?v = ?s"
    using assms(1) by (simp add: to_string_join flag_name_def not_less)
  obtain c cs where cc: "?s = c # cs" using dec_string_nonempty [of "2 ^ ?n"] by (cases ?s) auto
  have c: "c \<noteq> CHR ''0''" "is_digit 10 c"
    using dec_string_head [of "2 ^ ?n"] dec_string_digits [of "2 ^ ?n"] cc by auto
  then have "c \<noteq> CHR ''-''" by (auto simp: is_digit_def digit_value_def)
  then have "from_chars True 10 ?s = (None :: 'a word option, [])"
    using from_chars_digits_signed [OF dec_string_nonempty dec_string_digits, of "2 ^ ?n", where 'a = 'a] cc
    by (simp add: digits_value_dec)
  then have "parse_numeric True ?s = (Inr (False, 0) :: (bool \<times> 'a word) outcome)"
    using cc c by (simp add: parse_numeric_def convert_def)
  moreover have "find_idx (\<lambda>x. x = ?s) strings = None"
    using assms(2) by (auto simp: find_idx_None_iff)
  ultimately have "\<not> known_token TYPE('a) True strings ?s"
    by (simp add: known_token_def token_flags_def)
  moreover have "split_on delim ?s = [?s]"
    using assms(3) dec_string_digits [of "2 ^ ?n"] by (intro split_on_no_sep) auto
  ultimately show ?thesis
    using assms(1) parse_string_tokens [of strings True delim ?s, where 'a = 'a]
    unfolding s by (simp add: from_string_def)
qed

lemma sign_bit_not_read_witness:
  "from_string True [] CHR ''|'' (to_string [] CHR ''|'' (flag_bit 7 :: 8 word)) =
     (Inl (Runtime_Error (''unknown flag : '' @ dec_string 128)) :: 8 word outcome)"
  using sign_bit_not_read [of "[]" "CHR ''|''", where 'a = 8]
  by (simp add: is_digit_def digit_value_def Let_def)

text \<open>The parser component and \<^verbatim>\<open>from_string\<close> agree: with nothing to skip, it matches and
  consumes the whole input exactly when \<^verbatim>\<open>from_string\<close> returns, and with the same
  value.\<close>

theorem flags_parser_from_string:
  "flags_parser (\<lambda>s. s) sg strings delim s = Inr (Some v, []) \<longleftrightarrow>
     from_string sg strings delim s = Inr v" if "length strings \<le> LENGTH('a)" for v :: "'a::len word"
proof (cases "s = []")
  case True
  then show ?thesis
    using parse_string_tokens [OF that, of sg delim s]
    by (auto simp: flags_parser_def from_string_def known_token_def text_flags_def)
next
  case False
  then show ?thesis
    using parse_string_tokens [OF that, of sg delim s] by (auto simp: flags_parser_def from_string_def)
qed

lemma flags_parser_from_string_witness:
  "flags_parser (\<lambda>s. s) False [''a''] CHR ''|'' [] = (Inr (Some 0, []) :: (8 word option \<times> string) outcome)"
proof -
  have "from_string False [''a''] CHR ''|'' [] = (Inr 0 :: 8 word outcome)"
    by (simp add: from_string_def parse_string_def parse_string_loop.simps)
  then show ?thesis using flags_parser_from_string [of "[''a'']" False "CHR ''|''" "[]" "0 :: 8 word"] by simp
qed

end
