(* ===== verification/Options_Ini.thy ===== *)
theory Options_Ini
  imports Ini_Parser "HOL-Library.List_Lexorder" "HOL-Library.Char_ord"
begin

text \<open>
  \<^verbatim>\<open>utils/program_options/ini_parser.cpp\<close>: \<^verbatim>\<open>parse_ini\<close>, which checks the option
  names of a description and turns the pairs of an ini file into options.  The description is the
  list of the options' long names, in order.  The \<^verbatim>\<open>std::set\<close> of prefixes is its ascending
  list; an iterator is the place where the list is cut.
\<close>

section \<open>A sorted set of strings\<close>

definition lower_bound :: "string list \<Rightarrow> string \<Rightarrow> string list \<times> string list" where
  "lower_bound xs s = (takeWhile (\<lambda>x. x < s) xs, dropWhile (\<lambda>x. x < s) xs)"

definition set_insert :: "string \<Rightarrow> string list \<Rightarrow> string list" where
  "set_insert s xs =
     (let (before, after) = lower_bound xs s in
      if after \<noteq> [] \<and> hd after = s then xs else before @ s # after)"


section \<open>The option names\<close>

text \<open>Errors: those of the library with what their messages name, and those of the ini parser.\<close>

datatype po_error =
    Abbreviated_Name
  | Both_Match string string
  | Unknown_Option string
  | Ini_Error fault

record allowed =
  allowed_options :: "string list"
  allowed_prefixes :: "string list"

text \<open>\<^verbatim>\<open>x.find(y) == 0\<close> is \<open>prefix y x\<close>.  The answer is the element the iterator points to
  when the conflict is reported.\<close>

definition bad_prefix :: "string list \<Rightarrow> string \<Rightarrow> string option" where
  "bad_prefix ps p =
     (let (before, after) = lower_bound ps p;
          bad1 = (after \<noteq> [] \<and> prefix p (hd after));
          bad2 = (before \<noteq> [] \<and> prefix (last before) p)
      in if bad1 \<or> bad2 then Some (if before \<noteq> [] then last before else hd after) else None)"

definition register_option :: "string \<Rightarrow> allowed \<Rightarrow> po_error + allowed" where
  "register_option long_name a =
     (if long_name = [] then Inl Abbreviated_Name
      else
        let a' = a\<lparr>allowed_options := List.insert long_name (allowed_options a)\<rparr> in
        if last long_name = CHR ''*'' then
          let p = butlast long_name in
          (case bad_prefix (allowed_prefixes a) p of
             Some other \<Rightarrow> Inl (Both_Match long_name (other @ ''*''))
           | None \<Rightarrow> Inr (a'\<lparr>allowed_prefixes := set_insert p (allowed_prefixes a)\<rparr>))
        else Inr a')"

fun register_options :: "string list \<Rightarrow> allowed \<Rightarrow> po_error + allowed" where
  "register_options [] a = Inr a"
| "register_options (n # ns) a =
     (case register_option n a of Inl e \<Rightarrow> Inl e | Inr a' \<Rightarrow> register_options ns a')"

definition no_options :: allowed where
  "no_options = \<lparr>allowed_options = [], allowed_prefixes = []\<rparr>"


section \<open>The options of a file\<close>

record basic_option =
  string_key :: string
  opt_value :: "string list"
  unregistered :: bool
  original_tokens :: "string list"

definition is_registered :: "allowed \<Rightarrow> string \<Rightarrow> bool" where
  "is_registered a key =
     (key \<in> set (allowed_options a) \<or>
      (let before = fst (lower_bound (allowed_prefixes a) key) in
       before \<noteq> [] \<and> prefix (last before) key))"

definition make_option :: "allowed \<Rightarrow> bool \<Rightarrow> string \<times> string \<Rightarrow> po_error + basic_option" where
  "make_option a allow_unregistered kv =
     (let registered = is_registered a (fst kv) in
      if \<not> registered \<and> \<not> allow_unregistered then Inl (Unknown_Option (fst kv))
      else Inr \<lparr>string_key = fst kv, opt_value = [snd kv], unregistered = \<not> registered,
                original_tokens = [fst kv, snd kv]\<rparr>)"

fun make_options :: "allowed \<Rightarrow> bool \<Rightarrow> pairs \<Rightarrow> po_error + basic_option list" where
  "make_options a allow_unregistered [] = Inr []"
| "make_options a allow_unregistered (kv # kvs) =
     (case make_option a allow_unregistered kv of
        Inl e \<Rightarrow> Inl e
      | Inr opt \<Rightarrow> map_sum id ((#) opt) (make_options a allow_unregistered kvs))"

definition parse_ini ::
  "nat \<Rightarrow> filesystem \<Rightarrow> path \<Rightarrow> string list \<Rightarrow> bool \<Rightarrow> po_error + basic_option list" where
  "parse_ini fuel fs filename long_names allow_unregistered =
     (case register_options long_names no_options of
        Inl e \<Rightarrow> Inl e
      | Inr a \<Rightarrow>
          (case parse_file fuel fs filename of
             Inl e \<Rightarrow> Inl (Ini_Error e)
           | Inr value \<Rightarrow> make_options a allow_unregistered value))"


section \<open>Strings with a common prefix are neighbours\<close>

lemma prefix_le: "prefix p (s :: string) \<Longrightarrow> p \<le> s"
proof (induction p arbitrary: s)
  case (Cons c p)
  then show ?case by (cases s) auto
qed simp

lemma prefix_between: "a \<le> (b :: string) \<Longrightarrow> b \<le> c \<Longrightarrow> prefix a c \<Longrightarrow> prefix a b"
proof (induction a arbitrary: b c)
  case (Cons x a)
  from Cons.prems obtain c' where c: "c = x # c'" "prefix a c'" by (cases c) auto
  show ?case
  proof (cases b)
    case (Cons y b')
    then have "y = x" "a \<le> b'" "b' \<le> c'" using Cons.prems c by auto
    then show ?thesis using Cons Cons.IH c by simp
  qed (use Cons.prems in simp)
qed simp

text \<open>Ascending, and no element a prefix of another.\<close>

definition prefix_free :: "string list \<Rightarrow> bool" where
  "prefix_free xs \<longleftrightarrow> sorted_wrt (<) xs \<and> (\<forall>x \<in> set xs. \<forall>y \<in> set xs. prefix x y \<longrightarrow> x = y)"

definition comparable :: "string \<Rightarrow> string \<Rightarrow> bool" where
  "comparable p q \<longleftrightarrow> prefix p q \<or> prefix q p"

lemma sorted_take_drop:
  assumes "sorted_wrt (<) (xs :: string list)"
  shows "x \<in> set (takeWhile (\<lambda>x. x < s) xs) \<longleftrightarrow> x \<in> set xs \<and> x < s"
    and "x \<in> set (dropWhile (\<lambda>x. x < s) xs) \<longleftrightarrow> x \<in> set xs \<and> s \<le> x"
  using assms by (induction xs) (auto dest: less_trans)

lemma sorted_parts:
  assumes "sorted_wrt (<) (xs :: string list)"
  shows "sorted_wrt (<) (takeWhile P xs)" and "sorted_wrt (<) (dropWhile P xs)"
  by (metis assms sorted_wrt_append takeWhile_dropWhile_id)+

lemma sorted_hd_le: "sorted_wrt (<) (x # xs) \<Longrightarrow> y \<in> set (x # xs) \<Longrightarrow> (x :: string) \<le> y"
  by auto

lemma sorted_le_last: "sorted_wrt (<) xs \<Longrightarrow> y \<in> set xs \<Longrightarrow> (y :: string) \<le> last xs"
proof (induction xs)
  case (Cons x xs)
  then show ?case by (cases "xs = []") (auto intro: less_imp_le)
qed simp

text \<open>The only elements of the set that can be comparable with \<open>s\<close> are its neighbours: a proper prefix
  is the last one below \<open>s\<close>, and if \<open>s\<close> begins any element, it begins the first one not below.\<close>

lemma last_below_prefix:
  assumes "prefix_free xs" and "p \<in> set xs" and "strict_prefix p s"
  shows "takeWhile (\<lambda>x. x < s) xs \<noteq> [] \<and> last (takeWhile (\<lambda>x. x < s) xs) = p"
proof -
  let ?b = "takeWhile (\<lambda>x. x < s) xs"
  have srt: "sorted_wrt (<) xs" using assms(1) by (simp add: prefix_free_def)
  have ps: "prefix p s" "p < s" using assms(3) prefix_le [of p s] by (auto simp: strict_prefix_def)
  then have pb: "p \<in> set ?b" using sorted_take_drop(1) [OF srt] assms(2) by simp
  then have ne: "?b \<noteq> []" by auto
  have le: "p \<le> last ?b" by (rule sorted_le_last [OF sorted_parts(1) [OF srt] pb])
  have l: "last ?b \<in> set xs" "last ?b < s"
    using sorted_take_drop(1) [OF srt] last_in_set [OF ne] by blast+
  then have "prefix p (last ?b)" using prefix_between [OF le _ ps(1)] by simp
  then show ?thesis using assms(1,2) l(1) ne by (auto simp: prefix_free_def)
qed

lemma first_above_prefix:
  assumes "prefix_free xs" and "p \<in> set xs" and "prefix s p"
  shows "dropWhile (\<lambda>x. x < s) xs \<noteq> [] \<and> prefix s (hd (dropWhile (\<lambda>x. x < s) xs))"
proof -
  let ?a = "dropWhile (\<lambda>x. x < s) xs"
  have srt: "sorted_wrt (<) xs" using assms(1) by (simp add: prefix_free_def)
  have pa: "p \<in> set ?a" using sorted_take_drop(2) [OF srt] assms(2) prefix_le [OF assms(3)] by simp
  then obtain q qs where q: "?a = q # qs" by (cases ?a) auto
  then have "q \<le> p" using sorted_hd_le [of q qs p] sorted_parts(2) [OF srt] pa by metis
  moreover have "s \<le> q" using sorted_take_drop(2) [OF srt, of q s] q by simp
  ultimately have "prefix s q" using prefix_between assms(3) by blast
  then show ?thesis using q by simp
qed

lemma neighbours_in:
  "takeWhile (\<lambda>x. x < s) xs \<noteq> [] \<Longrightarrow> last (takeWhile (\<lambda>x. x < s) xs) \<in> set xs"
  "dropWhile (\<lambda>x. x < s) xs \<noteq> [] \<Longrightarrow> hd (dropWhile (\<lambda>x. x < s) xs) \<in> set xs"
  by (meson last_in_set set_takeWhileD, meson hd_in_set set_dropWhileD)

lemma bad_prefix_iff:
  assumes "prefix_free xs"
  shows "bad_prefix xs s \<noteq> None \<longleftrightarrow> (\<exists>p \<in> set xs. comparable p s)"
proof
  assume "bad_prefix xs s \<noteq> None"
  then show "\<exists>p \<in> set xs. comparable p s"
    using neighbours_in [of s xs]
    by (auto simp: bad_prefix_def lower_bound_def comparable_def Let_def split: if_splits)
next
  assume "\<exists>p \<in> set xs. comparable p s"
  then obtain p where p: "p \<in> set xs" and "comparable p s" by blast
  then consider "strict_prefix p s" | "prefix s p" by (auto simp: comparable_def strict_prefix_def)
  then show "bad_prefix xs s \<noteq> None"
    using last_below_prefix [OF assms p, of s] first_above_prefix [OF assms p, of s]
    by cases (auto simp: bad_prefix_def lower_bound_def Let_def)
qed

lemma lower_bound_covers:
  assumes "prefix_free xs"
  shows "(fst (lower_bound xs s) \<noteq> [] \<and> prefix (last (fst (lower_bound xs s))) s) \<longleftrightarrow>
     (\<exists>p \<in> set xs. strict_prefix p s)"
proof
  have srt: "sorted_wrt (<) xs" using assms by (simp add: prefix_free_def)
  assume "fst (lower_bound xs s) \<noteq> [] \<and> prefix (last (fst (lower_bound xs s))) s"
  then have b: "takeWhile (\<lambda>x. x < s) xs \<noteq> []" "prefix (last (takeWhile (\<lambda>x. x < s) xs)) s"
    by (auto simp: lower_bound_def)
  then have "last (takeWhile (\<lambda>x. x < s) xs) < s"
    using sorted_take_drop(1) [OF srt] last_in_set by blast
  then show "\<exists>p \<in> set xs. strict_prefix p s"
    using b neighbours_in(1) [OF b(1)] by (intro bexI [of _ "last (takeWhile (\<lambda>x. x < s) xs)"])
      (auto simp: strict_prefix_def)
next
  assume "\<exists>p \<in> set xs. strict_prefix p s"
  then obtain p where "p \<in> set xs" and s: "strict_prefix p s" by blast
  then show "fst (lower_bound xs s) \<noteq> [] \<and> prefix (last (fst (lower_bound xs s))) s"
    using last_below_prefix [OF assms] by (auto simp: lower_bound_def strict_prefix_def)
qed

lemma set_insert_prefix_free:
  assumes "prefix_free xs" and "bad_prefix xs s = None"
  shows "prefix_free (set_insert s xs)" and "set (set_insert s xs) = insert s (set xs)"
proof -
  let ?b = "takeWhile (\<lambda>x. x < s) xs" and ?a = "dropWhile (\<lambda>x. x < s) xs"
  have srt: "sorted_wrt (<) xs" using assms by (simp add: prefix_free_def)
  have none: "\<not> comparable p s" if "p \<in> set xs" for p
    using bad_prefix_iff [OF assms(1), of s] assms(2) that by auto
  then have "s \<notin> set xs" by (auto simp: comparable_def)
  then have "\<not> (?a \<noteq> [] \<and> hd ?a = s)" by (metis hd_in_set set_dropWhileD)
  then have ins: "set_insert s xs = ?b @ s # ?a"
    by (simp only: set_insert_def lower_bound_def Let_def prod.case if_False)
  have all: "set xs = set ?b \<union> set ?a" by (metis set_append takeWhile_dropWhile_id)
  then show s: "set (set_insert s xs) = insert s (set xs)" by (simp add: ins)
  have below: "\<forall>x \<in> set ?b. x < s" and above: "\<forall>y \<in> set ?a. s < y"
    using sorted_take_drop [OF srt, of _ s] \<open>s \<notin> set xs\<close> by (metis order_le_imp_less_or_eq)+
  then have "\<forall>x \<in> set ?b. \<forall>y \<in> set (s # ?a). x < y" by (metis less_trans set_ConsD)
  then have "sorted_wrt (<) (set_insert s xs)"
    unfolding ins sorted_wrt_append sorted_wrt.simps(2)
    using sorted_parts [OF srt] above by blast
  then show "prefix_free (set_insert s xs)"
    using assms(1) none unfolding prefix_free_def s by (auto simp: comparable_def)
qed

end
