(* ===== verification/Options_Properties.thy ===== *)
theory Options_Properties
  imports Options_Ini Ini_Properties
begin

text \<open>
  The set of wildcard prefixes as an interface (what its conflict check, insertion and lookup
  promise), the loop over the option names proved against it, its interpretation on the
  \<^verbatim>\<open>lower_bound\<close> code, and the properties of \<^verbatim>\<open>parse_ini\<close>.
\<close>

section \<open>The interface of the prefix set\<close>

fun add_all ::
  "('i \<Rightarrow> string \<Rightarrow> string option) \<Rightarrow> (string \<Rightarrow> 'i \<Rightarrow> 'i) \<Rightarrow> string list \<Rightarrow> 'i \<Rightarrow> 'i option"
where
  "add_all clash add [] ix = Some ix"
| "add_all clash add (p # ps) ix =
     (if clash ix p \<noteq> None then None else add_all clash add ps (add p ix))"

locale prefix_set =
  fixes ok :: "'i \<Rightarrow> bool"
    and elems :: "'i \<Rightarrow> string set"
    and clash :: "'i \<Rightarrow> string \<Rightarrow> string option"
    and add :: "string \<Rightarrow> 'i \<Rightarrow> 'i"
    and covers :: "'i \<Rightarrow> string \<Rightarrow> bool"
  assumes clash_law: "ok ix \<Longrightarrow> clash ix s \<noteq> None \<longleftrightarrow> (\<exists>p \<in> elems ix. comparable p s)"
    and add_ok: "ok ix \<Longrightarrow> clash ix s = None \<Longrightarrow> ok (add s ix)"
    and add_elems: "ok ix \<Longrightarrow> clash ix s = None \<Longrightarrow> elems (add s ix) = insert s (elems ix)"
    and covers_law: "ok ix \<Longrightarrow> covers ix s \<longleftrightarrow> (\<exists>p \<in> elems ix. strict_prefix p s)"
begin

lemma add_all_ok:
  "ok ix \<Longrightarrow> add_all clash add ps ix = Some ix' \<Longrightarrow> ok ix' \<and> elems ix' = elems ix \<union> set ps"
proof (induction ps arbitrary: ix)
  case (Cons p ps)
  then have "clash ix p = None" and r: "add_all clash add ps (add p ix) = Some ix'"
    by (auto split: if_splits)
  with Cons.prems(1) show ?case using Cons.IH [OF add_ok r] add_elems by auto
qed simp

lemma add_all_iff:
  "ok ix \<Longrightarrow> add_all clash add ps ix \<noteq> None \<longleftrightarrow>
     (\<forall>q \<in> elems ix. \<forall>p \<in> set ps. \<not> comparable q p) \<and> sorted_wrt (\<lambda>p q. \<not> comparable p q) ps"
proof (induction ps arbitrary: ix)
  case (Cons p ps)
  show ?case
  proof (cases "clash ix p = None")
    case True
    then have e: "elems (add p ix) = insert p (elems ix)" and o: "ok (add p ix)"
      using Cons.prems add_elems add_ok by simp_all
    have "\<not> (\<exists>q \<in> elems ix. comparable q p)" using clash_law [OF Cons.prems, of p] True by auto
    then show ?thesis using Cons.IH [OF o] True e by auto
  next
    case False
    then show ?thesis using clash_law [OF Cons.prems, of p] by auto
  qed
qed simp

lemma covers_all:
  "ok ix \<Longrightarrow> add_all clash add ps ix = Some ix' \<Longrightarrow>
     covers ix' s \<longleftrightarrow> (\<exists>p \<in> elems ix \<union> set ps. strict_prefix p s)"
  using add_all_ok covers_law by metis

end

definition covered_by :: "string list \<Rightarrow> string \<Rightarrow> bool" where
  "covered_by xs s =
     (let before = fst (lower_bound xs s) in before \<noteq> [] \<and> prefix (last before) s)"

interpretation sorted: prefix_set prefix_free set bad_prefix set_insert covered_by
proof unfold_locales
  fix xs s
  assume "prefix_free xs"
  then show "bad_prefix xs s \<noteq> None \<longleftrightarrow> (\<exists>p \<in> set xs. comparable p s)" by (rule bad_prefix_iff)
next
  fix xs s
  assume "prefix_free xs" "bad_prefix xs s = None"
  then show "prefix_free (set_insert s xs)" and "set (set_insert s xs) = insert s (set xs)"
    using set_insert_prefix_free by blast+
next
  fix xs s
  assume "prefix_free xs"
  then show "covered_by xs s \<longleftrightarrow> (\<exists>p \<in> set xs. strict_prefix p s)"
    using lower_bound_covers by (simp add: covered_by_def Let_def)
qed


section \<open>The loop over the names\<close>

text \<open>The wildcard names, without their star.\<close>

definition is_wildcard :: "string \<Rightarrow> bool" where
  "is_wildcard n = (n \<noteq> [] \<and> last n = CHR ''*'')"

definition wildcards :: "string list \<Rightarrow> string list" where
  "wildcards ns = map butlast (filter is_wildcard ns)"

lemma wildcards_simps [simp]:
  "wildcards [] = []"
  "wildcards (n # ns) = (if is_wildcard n then butlast n # wildcards ns else wildcards ns)"
  by (simp_all add: wildcards_def)

lemma register_options_Inr:
  "register_options ns a = Inr a' \<Longrightarrow>
     [] \<notin> set ns \<and> set (allowed_options a') = set (allowed_options a) \<union> set ns \<and>
     add_all bad_prefix set_insert (wildcards ns) (allowed_prefixes a) = Some (allowed_prefixes a')"
proof (induction ns arbitrary: a)
  case (Cons n ns)
  then obtain a1 where a1: "register_option n a = Inr a1" and r: "register_options ns a1 = Inr a'"
    by (auto split: sum.splits)
  have "n \<noteq> []" "set (allowed_options a1) = insert n (set (allowed_options a))"
    using a1 by (auto simp: register_option_def Let_def split: if_splits option.splits)
  moreover have "if is_wildcard n then bad_prefix (allowed_prefixes a) (butlast n) = None \<and>
        allowed_prefixes a1 = set_insert (butlast n) (allowed_prefixes a)
      else allowed_prefixes a1 = allowed_prefixes a"
    using a1 by (auto simp: register_option_def is_wildcard_def Let_def split: if_splits option.splits)
  ultimately show ?case using Cons.IH [OF r] by (auto split: if_splits)
qed simp

lemma register_options_Inl:
  "register_options ns a = Inl e \<Longrightarrow>
     [] \<in> set ns \<or> add_all bad_prefix set_insert (wildcards ns) (allowed_prefixes a) = None"
proof (induction ns arbitrary: a)
  case (Cons n ns)
  show ?case
  proof (cases "register_option n a")
    case (Inl e')
    then show ?thesis
      by (auto simp: register_option_def is_wildcard_def Let_def split: if_splits option.splits)
  next
    case (Inr a1)
    then have "if is_wildcard n then bad_prefix (allowed_prefixes a) (butlast n) = None \<and>
          allowed_prefixes a1 = set_insert (butlast n) (allowed_prefixes a)
        else allowed_prefixes a1 = allowed_prefixes a"
      by (auto simp: register_option_def is_wildcard_def Let_def split: if_splits option.splits)
    then show ?thesis using Cons.IH [of a1] Cons.prems Inr by (auto split: if_splits)
  qed
qed simp

lemma prefix_free_Nil: "prefix_free []"
  by (simp add: prefix_free_def)

lemma is_registered_covered:
  "is_registered a key \<longleftrightarrow> key \<in> set (allowed_options a) \<or> covered_by (allowed_prefixes a) key"
  by (simp add: is_registered_def covered_by_def)

lemma make_options_eq:
  "make_options a allow kvs =
     (case filter (\<lambda>kv. \<not> allow \<and> \<not> is_registered a (fst kv)) kvs of
        [] \<Rightarrow> Inr (map (\<lambda>(k, v). \<lparr>string_key = k, opt_value = [v], unregistered = \<not> is_registered a k,
                original_tokens = [k, v]\<rparr>) kvs)
      | kv # _ \<Rightarrow> Inl (Unknown_Option (fst kv)))"
proof (induction kvs)
  case (Cons kv kvs)
  obtain k v where kv: "kv = (k, v)" by (cases kv)
  show ?case
  proof (cases "\<not> allow \<and> \<not> is_registered a k")
    case False
    then have "make_option a allow kv = Inr \<lparr>string_key = k, opt_value = [v],
        unregistered = \<not> is_registered a k, original_tokens = [k, v]\<rparr>"
      using kv by (auto simp: make_option_def)
    then show ?thesis
      using Cons.IH False kv
      by (cases "filter (\<lambda>kv. \<not> allow \<and> \<not> is_registered a (fst kv)) kvs") auto
  next
    case True
    then show ?thesis using kv by (simp add: make_option_def)
  qed
qed simp


section \<open>Properties\<close>

text \<open>C15: the names of a description are accepted exactly when none is empty and no two wildcard
  names (two equal ones included) have prefixes of which one begins with the other: looking at the
  two neighbours of the insertion point finds every conflict with every earlier name.\<close>

theorem register_accepts:
  "(\<exists>a. register_options ns no_options = Inr a) \<longleftrightarrow>
     [] \<notin> set ns \<and> sorted_wrt (\<lambda>p q. \<not> comparable p q) (wildcards ns)"
proof
  have iff: "add_all bad_prefix set_insert (wildcards ns) [] \<noteq> None \<longleftrightarrow>
      sorted_wrt (\<lambda>p q. \<not> comparable p q) (wildcards ns)"
    using sorted.add_all_iff [OF prefix_free_Nil] by simp
  {
    assume "\<exists>a. register_options ns no_options = Inr a"
    then obtain a where "register_options ns no_options = Inr a" ..
    from register_options_Inr [OF this] iff
    show "[] \<notin> set ns \<and> sorted_wrt (\<lambda>p q. \<not> comparable p q) (wildcards ns)"
      by (simp add: no_options_def)
  next
    assume "[] \<notin> set ns \<and> sorted_wrt (\<lambda>p q. \<not> comparable p q) (wildcards ns)"
    then show "\<exists>a. register_options ns no_options = Inr a"
      using register_options_Inl [of ns no_options] iff
      by (cases "register_options ns no_options") (auto simp: no_options_def)
  }
qed

text \<open>C22: a key of the file is registered exactly when it is an option name or continues the
  prefix of a wildcard name by at least one character: the one element before the lower bound
  decides for all of the set.\<close>

theorem registered_iff:
  assumes "register_options ns no_options = Inr a"
  shows "is_registered a key \<longleftrightarrow> key \<in> set ns \<or> (\<exists>p \<in> set (wildcards ns). strict_prefix p key)"
proof -
  have "set (allowed_options a) = set ns"
    and all: "add_all bad_prefix set_insert (wildcards ns) [] = Some (allowed_prefixes a)"
    using register_options_Inr [OF assms] by (simp_all add: no_options_def)
  then show ?thesis
    using sorted.covers_all [OF prefix_free_Nil all, of key] by (simp add: is_registered_covered)
qed

lemma registered_iff_witness:
  "\<exists>a. register_options [''log.*'', ''port''] no_options = Inr a \<and> is_registered a ''log.level'' \<and>
     \<not> is_registered a ''log.''"
proof -
  have r: "register_options [''log.*'', ''port''] no_options =
      Inr \<lparr>allowed_options = [''port'', ''log.*''], allowed_prefixes = [''log.'']\<rparr>"
    by (simp add: register_option_def no_options_def bad_prefix_def lower_bound_def set_insert_def Let_def)
  show ?thesis
    using registered_iff [OF r, of "''log.level''"] registered_iff [OF r, of "''log.''"] r
    by (simp add: is_wildcard_def)
qed

text \<open>C27: the result of \<^verbatim>\<open>parse_ini\<close> on a file that parses: one option for each pair, in file
  order, flagged as the description says, with both original tokens; or, if unregistered keys are
  not allowed, the error that names the first of them.\<close>

theorem parse_ini_options:
  assumes "register_options ns no_options = Inr a" and "parse_file fuel fs filename = Inr kvs"
  shows "parse_ini fuel fs filename ns allow =
     (case filter (\<lambda>kv. \<not> allow \<and> \<not> is_registered a (fst kv)) kvs of
        [] \<Rightarrow> Inr (map (\<lambda>(k, v). \<lparr>string_key = k, opt_value = [v], unregistered = \<not> is_registered a k,
                original_tokens = [k, v]\<rparr>) kvs)
      | kv # _ \<Rightarrow> Inl (Unknown_Option (fst kv)))"
  using assms by (simp add: parse_ini_def make_options_eq)

lemma parse_ini_options_witness:
  "let fs = flat_fs [(''/a'', print_doc [Section ''log'', Entry ''level'' ''3'', Entry ''file'' ''x''])] in
   parse_ini 1 fs ''/a'' [''log.level''] True = Inr
     [\<lparr>string_key = ''log.level'', opt_value = [''3''], unregistered = False, original_tokens = [''log.level'', ''3'']\<rparr>,
      \<lparr>string_key = ''log.file'', opt_value = [''x''], unregistered = True, original_tokens = [''log.file'', ''x'']\<rparr>] \<and>
   parse_ini 1 fs ''/a'' [''log.level''] False = Inl (Unknown_Option ''log.file'')"
proof -
  let ?ds = "[Section ''log'', Entry ''level'' ''3'', Entry ''file'' ''x'']"
  let ?fs = "flat_fs [(''/a'', print_doc ?ds)]" and ?a = "\<lparr>allowed_options = [''log.level''], allowed_prefixes = []\<rparr>"
  have "doc_ok ?fs [''/a''] ?ds" by (simp add: trim_eq is_space_eq skip_space_def)
  then have "parse_file 1 ?fs ''/a'' = Inr (doc_pairs [] ?ds)"
    using ini_parse_print_doc [of "''/a''" ?fs empty_state ?ds 1]
    by (simp add: parse_file_def parse_impl_def is_absolute_def empty_state_def)
  moreover have "doc_pairs [] ?ds = [(''log.level'', ''3''), (''log.file'', ''x'')]" by (simp add: with_dot_def)
  ultimately have read: "parse_file 1 ?fs ''/a'' = Inr [(''log.level'', ''3''), (''log.file'', ''x'')]" by simp
  have reg: "register_options [''log.level''] no_options = Inr ?a"
    by (simp add: register_option_def no_options_def)
  have "is_registered ?a k \<longleftrightarrow> k = ''log.level''" for k by (simp add: is_registered_def lower_bound_def)
  then show ?thesis using parse_ini_options [OF reg read] by (simp add: Let_def)
qed

text \<open>A description that is rejected is rejected before the file is touched, whatever it
  holds.\<close>

theorem parse_ini_bad_names:
  assumes "register_options ns no_options = Inl e"
  shows "parse_ini fuel fs filename ns allow = Inl e \<and>
     ([] \<in> set ns \<or> \<not> sorted_wrt (\<lambda>p q. \<not> comparable p q) (wildcards ns))"
proof -
  have "[] \<in> set ns \<or> add_all bad_prefix set_insert (wildcards ns) [] = None"
    using register_options_Inl [OF assms] by (simp add: no_options_def)
  then show ?thesis
    using sorted.add_all_iff [OF prefix_free_Nil, of "wildcards ns"] assms by (auto simp: parse_ini_def)
qed

lemma parse_ini_bad_names_witness:
  "parse_ini 1 (flat_fs []) ''/a'' [[]] True = Inl Abbreviated_Name"
  using parse_ini_bad_names [of "[[]]" Abbreviated_Name 1 "flat_fs []" "''/a''" True]
  by (simp add: register_option_def)

text \<open>The message about a conflict can name the wrong option: \<^verbatim>\<open>b*\<close> conflicts with
  \<^verbatim>\<open>bc*\<close>, the element at the lower bound, but the iterator was moved to the element before
  it, so the message names \<^verbatim>\<open>a*\<close>, which has nothing in common with \<^verbatim>\<open>b*\<close>.\<close>

theorem conflict_names_wrong_option:
  "register_options [''a*'', ''bc*'', ''b*''] no_options = Inl (Both_Match ''b*'' ''a*'') \<and>
   \<not> comparable ''a'' ''b'' \<and> comparable ''b'' ''bc''"
  by (simp add: register_option_def no_options_def bad_prefix_def lower_bound_def set_insert_def
      Let_def comparable_def)

end
