(* ===== verification/Huge_Pages.thy ===== *)
theory Huge_Pages
  imports Circular_Memory "HOL-Library.State_Monad"
begin

text \<open>
  \<^verbatim>\<open>utils/memory.hpp\<close>, \<^verbatim>\<open>utils/huge_pages.hpp\<close> and their Windows and POSIX
  sources: page sizes and the allocation of memory in pages of the large or the normal size.  The
  operating system is a parameter: an answer for every call, which may depend on all calls before
  it.  The program's state is the record of these calls and its \<^verbatim>\<open>static\<close> locals.
\<close>

section \<open>Calls of the operating system\<close>

text \<open>The answers are numbers: 0 is \<^verbatim>\<open>FALSE\<close>, a null pointer, or no error.
  \<open>Virtual_Alloc\<close> is \<^verbatim>\<open>VirtualAllocEx\<close>, or \<^verbatim>\<open>VirtualAllocExNuma\<close> if there is
  a node; its second argument says whether \<^verbatim>\<open>MEM_LARGE_PAGES\<close> is among the flags.\<close>

datatype win_call =
    Open_Process_Token
  | Lookup_Privilege
  | Adjust_Privileges
  | Get_Last_Error
  | Close_Token
  | Get_Large_Page_Minimum
  | Get_System_Info
  | Virtual_Alloc size_t bool "size_t option"
  | Virtual_Free size_t

type_synonym win_os = "win_call list \<Rightarrow> win_call \<Rightarrow> size_t"

record win_state =
  win_trace :: "win_call list"
  static_page_size :: "size_t option"
  static_huge_page_size :: "size_t option"
  static_pages_sz :: "size_t option"
  static_region_sz :: "size_t option"

type_synonym 'a win = "(win_state, 'a) state"

definition ask :: "win_os \<Rightarrow> win_call \<Rightarrow> size_t win" where
  "ask os c = State (\<lambda>s. (os (win_trace s) c, s\<lparr>win_trace := win_trace s @ [c]\<rparr>))"

text \<open>A \<^verbatim>\<open>static\<close> local: computed at the first use, kept in a field of the state.\<close>

definition static_local ::
  "(win_state \<Rightarrow> size_t option) \<Rightarrow> (size_t option \<Rightarrow> win_state \<Rightarrow> win_state) \<Rightarrow> size_t win \<Rightarrow> size_t win"
where
  "static_local get_field set_field init = State (\<lambda>s.
     case get_field s of
       Some v \<Rightarrow> (v, s)
     | None \<Rightarrow> (let (v, s') = run_state init s in (v, set_field (Some v) s')))"


section \<open>Pages\<close>

definition size_in_blocks :: "size_t \<Rightarrow> size_t \<Rightarrow> size_t" where
  "size_in_blocks sz block = (sz + block - 1) div block"

definition page_size :: "win_os \<Rightarrow> size_t win" where
  "page_size os = static_local static_page_size (\<lambda>v s. s\<lparr>static_page_size := v\<rparr>) (ask os Get_System_Info)"

definition enable_hugepage_privilege :: "win_os \<Rightarrow> bool win" where
  "enable_hugepage_privilege os = do {
     token \<leftarrow> ask os Open_Process_Token;
     if token \<noteq> 0 then do {
       found \<leftarrow> ask os Lookup_Privilege;
       res \<leftarrow> (if found \<noteq> 0 then do { adjusted \<leftarrow> ask os Adjust_Privileges; State_Monad.return (adjusted \<noteq> 0) }
              else State_Monad.return False);
       res \<leftarrow> (if res then do { err \<leftarrow> ask os Get_Last_Error; State_Monad.return (err = 0) }
              else State_Monad.return False);
       _ \<leftarrow> ask os Close_Token;
       State_Monad.return res
     } else State_Monad.return False
   }"

definition huge_page_size :: "win_os \<Rightarrow> size_t win" where
  "huge_page_size os = static_local static_huge_page_size (\<lambda>v s. s\<lparr>static_huge_page_size := v\<rparr>) (do {
     enabled \<leftarrow> enable_hugepage_privilege os;
     if enabled then ask os Get_Large_Page_Minimum else State_Monad.return 0
   })"


section \<open>Allocation\<close>

text \<open>\<^verbatim>\<open>alloc_mem\<close> and \<^verbatim>\<open>alloc_huge_pages\<close> begin with an assert on the size.\<close>

definition alloc_mem :: "win_os \<Rightarrow> size_t \<Rightarrow> size_t outcome win" where
  "alloc_mem os sz = do {
     page \<leftarrow> page_size os;
     if sz mod page \<noteq> 0 then State_Monad.return (Inl Assert_Failed)
     else do { mem \<leftarrow> ask os (Virtual_Alloc sz False None); State_Monad.return (Inr mem) }
   }"

definition alloc_huge_pages :: "win_os \<Rightarrow> size_t \<Rightarrow> size_t option \<Rightarrow> size_t outcome win" where
  "alloc_huge_pages os sz node = do {
     page \<leftarrow> static_local static_pages_sz (\<lambda>v s. s\<lparr>static_pages_sz := v\<rparr>) (huge_page_size os);
     if page \<noteq> 0 \<and> sz mod page \<noteq> 0 then State_Monad.return (Inl Assert_Failed)
     else if page \<noteq> 0 then do {
       mem \<leftarrow> ask os (Virtual_Alloc sz True node);
       State_Monad.return (Inr mem)
     } else State_Monad.return (Inr 0)
   }"

text \<open>\<^verbatim>\<open>strict\<close> is \<open>Huge\<close> and \<^verbatim>\<open>relaxed\<close> is \<open>Memory\<close> in the source.\<close>

datatype allocation_type = Huge | Memory

record allocation_parameters =
  numa_node :: "size_t option"
  par_size :: size_t
  par_type :: allocation_type
  par_page_size :: size_t

definition whole_pages :: "allocation_parameters \<Rightarrow> size_t" where
  "whole_pages p = size_in_blocks (par_size p) (par_page_size p) * par_page_size p"

text \<open>The first attempt, with the page size and the kind of memory it asks for; then the fallback,
  which may replace its result.\<close>

definition first_kind :: "win_os \<Rightarrow> allocation_parameters \<Rightarrow> (allocation_parameters \<times> allocation_type option) win" where
  "first_kind os params = do {
     huge \<leftarrow> static_local static_region_sz (\<lambda>v s. s\<lparr>static_region_sz := v\<rparr>) (huge_page_size os);
     if huge = 0 then
       (if par_type params = Huge then State_Monad.return (params\<lparr>par_page_size := 0\<rparr>, None)
        else do {
          page \<leftarrow> page_size os;
          State_Monad.return (params\<lparr>par_page_size := page\<rparr>, Some Memory)
        })
     else State_Monad.return (params\<lparr>par_page_size := huge\<rparr>, Some Huge)
   }"

definition alloc_kind :: "win_os \<Rightarrow> allocation_parameters \<Rightarrow> allocation_type \<Rightarrow> size_t win" where
  "alloc_kind os params kind = ask os (Virtual_Alloc (whole_pages params) (kind = Huge) (numa_node params))"

definition alloc_huge_region :: "win_os \<Rightarrow> allocation_parameters \<Rightarrow> (size_t \<times> allocation_parameters) win" where
  "alloc_huge_region os params = do {
     (params1, kind) \<leftarrow> first_kind os params;
     (case kind of
        None \<Rightarrow> State_Monad.return (0, params1)
      | Some k \<Rightarrow> do {
          mem \<leftarrow> alloc_kind os params1 k;
          (mem, params2, k) \<leftarrow>
            (if mem = 0 \<and> k \<noteq> Memory \<and> par_type params1 \<noteq> Huge then do {
               page \<leftarrow> page_size os;
               mem \<leftarrow> alloc_kind os (params1\<lparr>par_page_size := page\<rparr>) Memory;
               State_Monad.return (mem, params1\<lparr>par_page_size := page\<rparr>, Memory)
             } else State_Monad.return (mem, params1, k));
          State_Monad.return (mem,
            if mem \<noteq> 0 then params2\<lparr>par_size := whole_pages params2, par_type := k\<rparr> else params2)
        })
   }"

definition alloc_huge_region_sized :: "win_os \<Rightarrow> size_t \<Rightarrow> size_t option \<Rightarrow> size_t win" where
  "alloc_huge_region_sized os sz node = do {
     (mem, _) \<leftarrow> alloc_huge_region os
       \<lparr>numa_node = node, par_size = sz, par_type = Memory, par_page_size = 0\<rparr>;
     State_Monad.return mem
   }"

text \<open>The deleter of a block, and the \<^verbatim>\<open>unique_ptr\<close> that calls it only on a block.\<close>

definition free_memory :: "win_os \<Rightarrow> size_t \<Rightarrow> unit outcome win" where
  "free_memory os mem =
     (if mem = 0 then State_Monad.return (Inl Assert_Failed)
      else do { _ \<leftarrow> ask os (Virtual_Free mem); State_Monad.return (Inr ()) })"

definition drop_block :: "win_os \<Rightarrow> size_t \<Rightarrow> unit outcome win" where
  "drop_block os mem = (if mem \<noteq> 0 then free_memory os mem else State_Monad.return (Inr ()))"

text \<open>The POSIX versions do not allocate: every call returns a null block.\<close>

definition posix_huge_page_size :: size_t where
  "posix_huge_page_size = 0"

definition posix_alloc :: "size_t \<Rightarrow> size_t option \<Rightarrow> size_t" where
  "posix_alloc sz node = 0"

definition posix_alloc_mem :: "size_t \<Rightarrow> size_t" where
  "posix_alloc_mem sz = 0"

definition posix_alloc_huge_region :: "allocation_parameters \<Rightarrow> size_t \<times> allocation_parameters" where
  "posix_alloc_huge_region params = (0, params)"

definition posix_page_size :: "int \<Rightarrow> size_t" where
  "posix_page_size sysconf_pagesize = of_int sysconf_pagesize"

definition posix_free_memory :: "size_t \<Rightarrow> unit outcome" where
  "posix_free_memory mem = (if mem = 0 then Inl Assert_Failed else Inr ())"


section \<open>Runs\<close>

lemmas run_defs = State_Monad.return_def State_Monad.bind_def

lemma run_return [simp]: "run_state (State_Monad.return x) s = (x, s)"
  by (simp add: State_Monad.return_def)

lemma run_bind: "run_state (State_Monad.bind m f) s = (let (x, s') = run_state m s in run_state (f x) s')"
  by (simp add: State_Monad.bind_def split_def Let_def)

lemma run_ask [simp]:
  "run_state (ask os c) s = (os (win_trace s) c, s\<lparr>win_trace := win_trace s @ [c]\<rparr>)"
  by (simp add: ask_def)

lemma run_static:
  "run_state (static_local g f init) s =
     (case g s of Some v \<Rightarrow> (v, s) | None \<Rightarrow> (let (v, s') = run_state init s in (v, f (Some v) s')))"
  by (simp add: static_local_def)

text \<open>The calls a run adds to the record.\<close>

definition adds :: "'a win \<Rightarrow> win_state \<Rightarrow> win_call list \<Rightarrow> bool" where
  "adds m s cs \<longleftrightarrow> win_trace (snd (run_state m s)) = win_trace s @ cs"

definition is_alloc :: "win_call \<Rightarrow> bool" where
  "is_alloc c = (case c of Virtual_Alloc _ _ _ \<Rightarrow> True | _ \<Rightarrow> False)"

definition allocs :: "win_call list \<Rightarrow> win_call list" where
  "allocs cs = filter is_alloc cs"

lemma allocs_simps [simp]:
  "allocs [] = []"
  "allocs (xs @ ys) = allocs xs @ allocs ys"
  "allocs (c # cs) = (if is_alloc c then c # allocs cs else allocs cs)"
  by (simp_all add: allocs_def)

lemma is_alloc_simps [simp]:
  "is_alloc (Virtual_Alloc a b c)"
  "\<not> is_alloc Open_Process_Token" "\<not> is_alloc Lookup_Privilege" "\<not> is_alloc Adjust_Privileges"
  "\<not> is_alloc Get_Last_Error" "\<not> is_alloc Close_Token" "\<not> is_alloc Get_Large_Page_Minimum"
  "\<not> is_alloc Get_System_Info" "\<not> is_alloc (Virtual_Free a)"
  by (simp_all add: is_alloc_def)

lemma privilege_allocs:
  "allocs (win_trace (snd (run_state (enable_hugepage_privilege os) s))) = allocs (win_trace s)"
  by (simp add: enable_hugepage_privilege_def run_bind split_def Let_def)

lemma page_size_allocs [simp]:
  "allocs (win_trace (snd (run_state (page_size os) s))) = allocs (win_trace s)"
  by (simp add: page_size_def run_static split_def Let_def split: option.splits)

lemma huge_page_size_allocs:
  "allocs (win_trace (snd (run_state (huge_page_size os) s))) = allocs (win_trace s)"
  using privilege_allocs [of os s]
  by (simp add: huge_page_size_def run_static run_bind split_def Let_def split: option.splits)

lemma region_static_allocs [simp]:
  "allocs (win_trace (snd (run_state (static_local static_region_sz
     (\<lambda>v s. s\<lparr>static_region_sz := v\<rparr>) (huge_page_size os)) s))) = allocs (win_trace s)"
  using huge_page_size_allocs [of os s] by (simp add: run_static split_def Let_def split: option.splits)

lemma first_kind_run:
  assumes "run_state (first_kind os params) s = ((params1, kind), s')"
  shows "allocs (win_trace s') = allocs (win_trace s)"
    and "par_size params1 = par_size params" and "par_type params1 = par_type params"
    and "numa_node params1 = numa_node params"
    and "par_type params = Huge \<Longrightarrow> kind \<noteq> Some Memory"
  using assms by (auto simp: first_kind_def run_bind split_def Let_def split: if_splits)


section \<open>Sizes\<close>

lemma size_in_blocks_nat:
  assumes "0 < block" and "unat sz + unat block \<le> 2 ^ 64"
  shows "unat (size_in_blocks sz block) = (unat sz + unat block - 1) div unat block"
    and "unat (size_in_blocks sz block * block) = (unat sz + unat block - 1) div unat block * unat block"
proof -
  have b: "0 < unat block" using assms(1) by (simp add: word_less_nat_alt)
  have b1: "unat (block - 1) = unat block - 1"
    using b by (simp add: unat_minus_one word_neq_0_conv assms(1))
  have "unat (sz + (block - 1)) = unat sz + unat (block - 1)"
    using assms(2) b b1 by (subst unat_add_lem [THEN iffD1]) auto
  then have sum: "unat (sz + block - 1) = unat sz + unat block - 1" using b b1 by (simp add: add_diff_eq)
  then show q: "unat (size_in_blocks sz block) = (unat sz + unat block - 1) div unat block"
    by (simp add: size_in_blocks_def unat_div_distrib)
  have "(unat sz + unat block - 1) div unat block * unat block \<le> unat sz + unat block - 1"
    by (rule div_times_less_eq_dividend)
  also have "\<dots> < 2 ^ 64" using assms(2) b by linarith
  finally have "unat (size_in_blocks sz block) * unat block < 2 ^ 64" by (simp add: q)
  then have "unat (size_in_blocks sz block * block) = unat (size_in_blocks sz block) * unat block"
    by (subst unat_mult_lem [THEN iffD1]) auto
  then show "unat (size_in_blocks sz block * block) = (unat sz + unat block - 1) div unat block * unat block"
    by (simp add: q)
qed

lemma whole_blocks_bounds:
  fixes n b :: nat
  assumes "0 < b"
  shows "n \<le> (n + b - 1) div b * b" and "(n + b - 1) div b * b < n + b"
proof -
  have d: "n + b - 1 = (n + b - 1) div b * b + (n + b - 1) mod b" by simp
  have "(n + b - 1) mod b \<le> b - 1" using assms mod_less_divisor [of b "n + b - 1"] by linarith
  with d have "n + b - 1 \<le> (n + b - 1) div b * b + (b - 1)" by linarith
  then show "n \<le> (n + b - 1) div b * b" using assms by linarith
  have "(n + b - 1) div b * b \<le> n + b - 1" by (rule div_times_less_eq_dividend)
  then show "(n + b - 1) div b * b < n + b" using assms by linarith
qed

end
