(* ===== verification/Huge_Properties.thy ===== *)
theory Huge_Properties
  imports Huge_Pages
begin

text \<open>
  Properties of the page allocation: the size in whole pages, what \<^verbatim>\<open>alloc_huge_region\<close>
  asks the system for, and the handle of the privilege change.
\<close>

section \<open>One run of alloc_huge_region\<close>

text \<open>The possible runs: no memory of the kind; one attempt; an attempt and the fallback.\<close>

lemma alloc_huge_region_cases:
  assumes "run_state (alloc_huge_region os params) s = ((mem, params'), s')"
  obtains (none) params1 s1 where "run_state (first_kind os params) s = ((params1, None), s1)"
      "mem = 0" "params' = params1" "s' = s1"
  | (once) params1 k s1 where "run_state (first_kind os params) s = ((params1, Some k), s1)"
      "run_state (alloc_kind os params1 k) s1 = (mem, s')"
      "mem \<noteq> 0 \<or> k = Memory \<or> par_type params1 = Huge"
      "params' = (if mem \<noteq> 0 then params1\<lparr>par_size := whole_pages params1, par_type := k\<rparr> else params1)"
  | (twice) params1 s1 s2 page s3 params2 where
      "run_state (first_kind os params) s = ((params1, Some Huge), s1)"
      "run_state (alloc_kind os params1 Huge) s1 = (0, s2)"
      "par_type params1 = Memory"
      "run_state (page_size os) s2 = (page, s3)"
      "params2 = params1\<lparr>par_page_size := page\<rparr>"
      "run_state (alloc_kind os params2 Memory) s3 = (mem, s')"
      "params' = (if mem \<noteq> 0 then params2\<lparr>par_size := whole_pages params2, par_type := Memory\<rparr> else params2)"
proof -
  obtain params1 kind s1 where f: "run_state (first_kind os params) s = ((params1, kind), s1)"
    by (cases "run_state (first_kind os params) s") auto
  show thesis
  proof (cases kind)
    case None
    then show ?thesis using assms f none by (simp add: alloc_huge_region_def run_bind)
  next
    case (Some k)
    obtain mem1 s2 where a: "run_state (alloc_kind os params1 k) s1 = (mem1, s2)"
      by (cases "run_state (alloc_kind os params1 k) s1")
    show ?thesis
    proof (cases "mem1 = 0 \<and> k \<noteq> Memory \<and> par_type params1 \<noteq> Huge")
      case True
      then have k: "k = Huge" "par_type params1 = Memory" by (auto intro: allocation_type.exhaust)
      obtain page s3 where p: "run_state (page_size os) s2 = (page, s3)"
        by (cases "run_state (page_size os) s2")
      let ?p2 = "params1\<lparr>par_page_size := page\<rparr>"
      obtain mem2 s4 where b: "run_state (alloc_kind os ?p2 Memory) s3 = (mem2, s4)"
        by (cases "run_state (alloc_kind os ?p2 Memory) s3")
      have "((mem, params'), s') =
          ((mem2, if mem2 \<noteq> 0 then ?p2\<lparr>par_size := whole_pages ?p2, par_type := Memory\<rparr> else ?p2), s4)"
        using assms f Some a True p b k by (auto simp: alloc_huge_region_def run_bind)
      then show ?thesis using twice [OF _ _ k(2) p refl] f Some a b k True by (auto split: if_splits)
    next
      case False
      then have "((mem, params'), s') =
          ((mem1, if mem1 \<noteq> 0 then params1\<lparr>par_size := whole_pages params1, par_type := k\<rparr> else params1), s2)"
        using assms f Some a by (auto simp: alloc_huge_region_def run_bind)
      then show ?thesis
        using once [of params1 k s1] f Some a False by (auto intro: allocation_type.exhaust)
    qed
  qed
qed

lemma alloc_kind_run:
  "run_state (alloc_kind os p k) s = (mem, s') \<Longrightarrow>
     mem = os (win_trace s) (Virtual_Alloc (whole_pages p) (k = Huge) (numa_node p)) \<and>
     win_trace s' = win_trace s @ [Virtual_Alloc (whole_pages p) (k = Huge) (numa_node p)]"
  by (auto simp: alloc_kind_def)

lemma whole_pages_update [simp]:
  "whole_pages (p\<lparr>par_size := a, par_type := k\<rparr>) = size_in_blocks a (par_page_size p) * par_page_size p"
  by (simp add: whole_pages_def)


section \<open>Systems to run it on\<close>

text \<open>A system with 2 MB pages, and one where allocating them fails.\<close>

definition large_os :: win_os where
  "large_os h c = (case c of
      Open_Process_Token \<Rightarrow> 1 | Lookup_Privilege \<Rightarrow> 1 | Adjust_Privileges \<Rightarrow> 1 | Get_Last_Error \<Rightarrow> 0
    | Close_Token \<Rightarrow> 1 | Get_Large_Page_Minimum \<Rightarrow> 0x200000 | Get_System_Info \<Rightarrow> 0x1000
    | Virtual_Alloc n large node \<Rightarrow> 0x10000000 | Virtual_Free a \<Rightarrow> 1)"

definition no_static :: win_state where
  "no_static = \<lparr>win_trace = [], static_page_size = None, static_huge_page_size = None,
     static_pages_sz = None, static_region_sz = None\<rparr>"

lemma alloc_large_os:
  "run_state (alloc_huge_region large_os
       \<lparr>numa_node = None, par_size = 1, par_type = t, par_page_size = 0\<rparr>) no_static =
   ((0x10000000, \<lparr>numa_node = None, par_size = 0x200000, par_type = Huge, par_page_size = 0x200000\<rparr>),
    \<lparr>win_trace = [Open_Process_Token, Lookup_Privilege, Adjust_Privileges, Get_Last_Error, Close_Token,
       Get_Large_Page_Minimum, Virtual_Alloc 0x200000 True None],
     static_page_size = None, static_huge_page_size = Some 0x200000,
     static_pages_sz = None, static_region_sz = Some 0x200000\<rparr>)"
  by (simp add: alloc_huge_region_def first_kind_def huge_page_size_def enable_hugepage_privilege_def
      alloc_kind_def run_bind run_static large_os_def no_static_def whole_pages_def size_in_blocks_def)


definition scarce_os :: win_os where
  "scarce_os h c = (case c of Virtual_Alloc n large node \<Rightarrow> if large then 0 else 0x10000000 | _ \<Rightarrow> large_os h c)"

lemma alloc_scarce_os:
  "run_state (alloc_huge_region scarce_os
       \<lparr>numa_node = Some 1, par_size = 5000, par_type = Memory, par_page_size = 0\<rparr>) no_static =
   ((0x10000000, \<lparr>numa_node = Some 1, par_size = 0x2000, par_type = Memory, par_page_size = 0x1000\<rparr>),
    \<lparr>win_trace = [Open_Process_Token, Lookup_Privilege, Adjust_Privileges, Get_Last_Error, Close_Token,
       Get_Large_Page_Minimum, Virtual_Alloc 0x200000 True (Some 1), Get_System_Info,
       Virtual_Alloc 0x2000 False (Some 1)],
     static_page_size = Some 0x1000, static_huge_page_size = Some 0x200000,
     static_pages_sz = None, static_region_sz = Some 0x200000\<rparr>)"
  by (simp add: alloc_huge_region_def first_kind_def huge_page_size_def page_size_def
      enable_hugepage_privilege_def alloc_kind_def run_bind run_static scarce_os_def large_os_def
      no_static_def whole_pages_def size_in_blocks_def)


section \<open>Properties\<close>

text \<open>\<^verbatim>\<open>size_in_blocks\<close>: as long as size and block do not reach 2^64 together, the
  blocks cover the size and no block is superfluous; beyond that the sum wraps around and the
  blocks are too few for the size.\<close>

theorem size_in_blocks_bounds:
  assumes "0 < block"
  shows "if unat sz + unat block \<le> 2 ^ 64
         then unat sz \<le> unat (size_in_blocks sz block * block) \<and>
              unat (size_in_blocks sz block * block) < unat sz + unat block
         else unat (size_in_blocks sz block) * unat block < unat sz"
proof (cases "unat sz + unat block \<le> 2 ^ 64")
  case True
  have "0 < unat block" using assms by (simp add: word_less_nat_alt)
  then show ?thesis
    using whole_blocks_bounds [of "unat block" "unat sz"] size_in_blocks_nat(2) [OF assms True] True
    by simp
next
  case False
  have b: "0 < unat block" using assms by (simp add: word_less_nat_alt)
  have lt: "unat sz < 2 ^ 64" "unat block < 2 ^ 64" by (rule size_t_less)+
  have b1: "unat (block - 1) = unat block - 1"
    using b by (simp add: unat_minus_one word_neq_0_conv assms)
  have "unat (sz + (block - 1)) = (unat sz + unat (block - 1)) mod 2 ^ 64"
    by (simp add: unat_word_ariths)
  also have "\<dots> = unat sz + unat block - 1 - 2 ^ 64"
    using False lt b b1 by (simp add: le_mod_geq)
  finally have sum: "unat (sz + block - 1) = unat sz + unat block - 1 - 2 ^ 64" by (simp add: add_diff_eq)
  have "unat (size_in_blocks sz block) * unat block \<le> unat (sz + block - 1)"
    by (simp add: size_in_blocks_def unat_div_distrib)
  also have "\<dots> < unat sz" using sum lt False by linarith
  finally show ?thesis using False by simp
qed

lemma size_in_blocks_bounds_witness:
  "unat (size_in_blocks 5000 4096 * 4096) < 5000 + 4096 \<and>
   unat (size_in_blocks 0xFFFFFFFFFFFFFFFF 4096) * 4096 < unat (0xFFFFFFFFFFFFFFFF :: size_t)"
  using size_in_blocks_bounds [of 4096 5000] size_in_blocks_bounds [of 4096 "0xFFFFFFFFFFFFFFFF"] by simp

text \<open>C20: a strict request never gets memory in normal pages: whatever the system answers, the call
  asks for memory at most once, in large pages and on the requested node, and if it returns memory it
  reports large pages.\<close>

theorem strict_is_huge:
  assumes "run_state (alloc_huge_region os params) s = ((mem, params'), s')" and "par_type params = Huge"
  shows "\<exists>cs. allocs (win_trace s') = allocs (win_trace s) @ cs \<and> length cs \<le> 1 \<and>
    (\<forall>c \<in> set cs. \<exists>n. c = Virtual_Alloc n True (numa_node params)) \<and>
    (mem \<noteq> 0 \<longrightarrow> cs \<noteq> [] \<and> par_type params' = Huge)"
  using assms(1)
proof (cases rule: alloc_huge_region_cases)
  case (none params1 s1)
  then show ?thesis using first_kind_run(1) [OF none(1)] by (intro exI [of _ "[]"]) simp
next
  case (once params1 k s1)
  then have "k = Huge" using first_kind_run(5) [OF once(1)] assms(2) by (cases k) auto
  then show ?thesis
    using alloc_kind_run [OF once(2)] first_kind_run(1,4) [OF once(1)] once(4)
    by (intro exI [of _ "[Virtual_Alloc (whole_pages params1) True (numa_node params)]"]) auto
next
  case (twice params1 s1 s2 page s3 params2)
  then show ?thesis using first_kind_run(3) [OF twice(1)] assms(2) by simp
qed

lemma strict_is_huge_witness:
  "\<exists>cs. allocs [Open_Process_Token, Lookup_Privilege, Adjust_Privileges, Get_Last_Error, Close_Token,
       Get_Large_Page_Minimum, Virtual_Alloc 0x200000 True None] = cs \<and> length cs \<le> 1 \<and> cs \<noteq> []"
  using strict_is_huge [OF alloc_large_os [of Huge]] by (simp add: no_static_def)

text \<open>The token that is opened to change the privilege is closed again, once and as the last
  call, on every path; if it cannot be opened nothing else is called.\<close>

theorem token_closed:
  "\<exists>cs. win_trace (snd (run_state (enable_hugepage_privilege os) s)) = win_trace s @ Open_Process_Token # cs \<and>
     (if os (win_trace s) Open_Process_Token \<noteq> 0
      then \<exists>ds. cs = ds @ [Close_Token] \<and> Close_Token \<notin> set ds
      else cs = [] \<and> \<not> fst (run_state (enable_hugepage_privilege os) s))"
  by (auto simp: enable_hugepage_privilege_def run_bind split_def Let_def)

end
