(* ===== verification/Huge_Calls.thy ===== *)
theory Huge_Calls
  imports Huge_Properties
begin

text \<open>
  The page allocation over the life of a process: any sequence of its operations, with their
  \<^verbatim>\<open>static\<close> locals in between.  The privilege and the page sizes are asked for once, and every
  allocation asks the system for whole pages of the kind it names and reports what it was given.
\<close>

section \<open>Sequences of operations\<close>

datatype page_command =
    Cmd_Page_Size
  | Cmd_Huge_Page_Size
  | Cmd_Alloc_Mem size_t
  | Cmd_Alloc_Pages size_t "size_t option"
  | Cmd_Alloc_Region allocation_parameters
  | Cmd_Drop size_t

fun run_command :: "win_os \<Rightarrow> page_command \<Rightarrow> win_state \<Rightarrow> win_state" where
  "run_command os Cmd_Page_Size s = snd (run_state (page_size os) s)"
| "run_command os Cmd_Huge_Page_Size s = snd (run_state (huge_page_size os) s)"
| "run_command os (Cmd_Alloc_Mem sz) s = snd (run_state (alloc_mem os sz) s)"
| "run_command os (Cmd_Alloc_Pages sz node) s = snd (run_state (alloc_huge_pages os sz node) s)"
| "run_command os (Cmd_Alloc_Region params) s = snd (run_state (alloc_huge_region os params) s)"
| "run_command os (Cmd_Drop mem) s = snd (run_state (drop_block os mem) s)"


section \<open>The invariant\<close>

text \<open>A question that is asked once, for a \<^verbatim>\<open>static\<close> that is \<open>known\<close> from then on; its answer;
  allocations of whole pages of a known size.\<close>

definition asked :: "win_call \<Rightarrow> size_t option \<Rightarrow> win_call list \<Rightarrow> bool" where
  "asked c known cs \<longleftrightarrow> count_list cs c \<le> (if known = None then 0 else 1)"

definition answer :: "win_os \<Rightarrow> win_call \<Rightarrow> win_call list \<Rightarrow> size_t \<Rightarrow> bool" where
  "answer os c cs v \<longleftrightarrow> (\<exists>before after. cs = before @ c # after \<and> os before c = v)"

definition in_pages :: "bool \<Rightarrow> size_t option \<Rightarrow> win_call list \<Rightarrow> bool" where
  "in_pages large known cs \<longleftrightarrow>
     (\<forall>n node. Virtual_Alloc n large node \<in> set cs \<longrightarrow>
        (\<exists>page. known = Some page \<and> n mod page = 0 \<and> (large \<longrightarrow> page \<noteq> 0)))"

definition page_inv :: "win_os \<Rightarrow> win_state \<Rightarrow> bool" where
  "page_inv os s \<longleftrightarrow>
     asked Open_Process_Token (static_huge_page_size s) (win_trace s) \<and>
     asked Get_Large_Page_Minimum (static_huge_page_size s) (win_trace s) \<and>
     (\<forall>v. static_huge_page_size s = Some v \<longrightarrow> v \<noteq> 0 \<longrightarrow> answer os Get_Large_Page_Minimum (win_trace s) v) \<and>
     (\<forall>v. static_page_size s = Some v \<longrightarrow> answer os Get_System_Info (win_trace s) v) \<and>
     asked Get_System_Info (static_page_size s) (win_trace s) \<and>
     in_pages True (static_huge_page_size s) (win_trace s) \<and>
     in_pages False (static_page_size s) (win_trace s) \<and>
     static_pages_sz s \<in> {None, static_huge_page_size s} \<and>
     static_region_sz s \<in> {None, static_huge_page_size s}"

lemma asked_first: "asked c None cs \<Longrightarrow> count_list cs' c \<le> 1 \<Longrightarrow> asked c (Some p) (cs @ cs')"
  by (simp add: asked_def)

lemma asked_other [simp]: "c \<notin> set cs' \<Longrightarrow> asked c known (cs @ cs') \<longleftrightarrow> asked c known cs"
  by (simp add: asked_def)

lemma answer_here [simp]: "answer os c (cs @ [c]) (os cs c)"
  by (auto simp: answer_def)

lemma answer_append [simp]: "answer os c cs v \<Longrightarrow> answer os c (cs @ cs') v"
  by (fastforce simp: answer_def)

lemma in_pages_append [simp]:
  "in_pages large known (cs @ cs') \<longleftrightarrow> in_pages large known cs \<and> in_pages large known cs'"
  by (auto simp: in_pages_def)

lemma in_pages_no_alloc [simp]: "\<forall>c \<in> set cs. \<not> is_alloc c \<Longrightarrow> in_pages large known cs"
  by (auto simp: in_pages_def is_alloc_def)

lemma in_pages_alloc [simp]:
  "in_pages large known [Virtual_Alloc n large' node] \<longleftrightarrow>
     (large = large' \<longrightarrow> (\<exists>page. known = Some page \<and> n mod page = 0 \<and> (large \<longrightarrow> page \<noteq> 0)))"
  by (auto simp: in_pages_def)

lemma in_pagesE:
  assumes "in_pages large known cs" and "Virtual_Alloc n large node \<in> set cs"
  obtains page where "known = Some page" "n mod page = 0" "large \<longrightarrow> page \<noteq> 0"
  using assms unfolding in_pages_def by meson

lemma in_pages_first: "in_pages large None cs \<Longrightarrow> in_pages large known cs"
  by (auto simp: in_pages_def)


section \<open>The operations\<close>

lemma page_size_inv:
  assumes "page_inv os s" and "run_state (page_size os) s = (page, s')"
  shows "page_inv os s' \<and> static_page_size s' = Some page \<and>
    static_huge_page_size s' = static_huge_page_size s"
proof (cases "static_page_size s")
  case None
  then have "s' = s\<lparr>win_trace := win_trace s @ [Get_System_Info], static_page_size := Some page\<rparr>"
    and "page = os (win_trace s) Get_System_Info"
    using assms(2) by (auto simp: page_size_def run_static)
  then show ?thesis using assms(1) None by (simp add: page_inv_def in_pages_first asked_first)
qed (use assms in \<open>simp add: page_size_def run_static\<close>)

text \<open>The calls that change the privilege.\<close>

lemma privilege_run:
  "\<exists>b cs. run_state (enable_hugepage_privilege os) s =
      (b, s\<lparr>win_trace := win_trace s @ Open_Process_Token # cs\<rparr>) \<and>
    set cs \<subseteq> {Lookup_Privilege, Adjust_Privileges, Get_Last_Error, Close_Token}"
  (is "\<exists>b cs. ?run = _ \<and> _")
proof -
  define t where "t = win_trace s @ [Open_Process_Token]"
  consider "os (win_trace s) Open_Process_Token = 0"
    | "os (win_trace s) Open_Process_Token \<noteq> 0" "os t Lookup_Privilege = 0"
    | "os (win_trace s) Open_Process_Token \<noteq> 0" "os t Lookup_Privilege \<noteq> 0"
      "os (t @ [Lookup_Privilege]) Adjust_Privileges = 0"
    | "os (win_trace s) Open_Process_Token \<noteq> 0" "os t Lookup_Privilege \<noteq> 0"
      "os (t @ [Lookup_Privilege]) Adjust_Privileges \<noteq> 0" by blast
  then show ?thesis
  proof cases
    case 1
    then have "?run = (False, s\<lparr>win_trace := win_trace s @ [Open_Process_Token]\<rparr>)"
      by (simp add: enable_hugepage_privilege_def run_bind)
    then show ?thesis by auto
  next
    case 2
    then have "?run = (False, s\<lparr>win_trace := win_trace s @ Open_Process_Token # [Lookup_Privilege, Close_Token]\<rparr>)"
      by (simp add: enable_hugepage_privilege_def run_bind t_def)
    then show ?thesis by auto
  next
    case 3
    then have "?run = (False, s\<lparr>win_trace := win_trace s @
        Open_Process_Token # [Lookup_Privilege, Adjust_Privileges, Close_Token]\<rparr>)"
      by (simp add: enable_hugepage_privilege_def run_bind t_def)
    then show ?thesis by auto
  next
    case 4
    then have "?run = (os (t @ [Lookup_Privilege, Adjust_Privileges]) Get_Last_Error = 0,
        s\<lparr>win_trace := win_trace s @
          Open_Process_Token # [Lookup_Privilege, Adjust_Privileges, Get_Last_Error, Close_Token]\<rparr>)"
      by (simp add: enable_hugepage_privilege_def run_bind t_def)
    then show ?thesis by auto
  qed
qed

lemma huge_page_size_inv:
  assumes "page_inv os s" and "run_state (huge_page_size os) s = (huge, s')"
  shows "page_inv os s' \<and> static_huge_page_size s' = Some huge \<and> static_page_size s' = static_page_size s \<and>
    static_region_sz s' = static_region_sz s \<and> static_pages_sz s' = static_pages_sz s"
proof (cases "static_huge_page_size s")
  case None
  obtain b cs where run: "run_state (enable_hugepage_privilege os) s =
      (b, s\<lparr>win_trace := win_trace s @ Open_Process_Token # cs\<rparr>)"
    and cs: "set cs \<subseteq> {Lookup_Privilege, Adjust_Privileges, Get_Last_Error, Close_Token}"
    using privilege_run by blast
  let ?h = "win_trace s @ Open_Process_Token # cs"
  define ds where "ds = (if b then [Get_Large_Page_Minimum] else [])"
  have s': "s' = s\<lparr>win_trace := ?h @ ds, static_huge_page_size := Some huge\<rparr>"
    and huge: "huge = (if b then os ?h Get_Large_Page_Minimum else 0)"
    using assms(2) None by (cases b; auto simp: huge_page_size_def run_static run_bind run ds_def)+
  have none: "Open_Process_Token \<notin> set cs" "Get_System_Info \<notin> set cs" "Get_Large_Page_Minimum \<notin> set cs"
      "\<forall>c \<in> set cs. \<not> is_alloc c"
    using cs by auto
  have "answer os Get_Large_Page_Minimum (?h @ ds) huge" if "huge \<noteq> 0"
    using that answer_here [of os Get_Large_Page_Minimum ?h] by (auto simp: huge ds_def)
  moreover have "count_list (Open_Process_Token # cs @ ds) Open_Process_Token \<le> 1"
    and "count_list (Open_Process_Token # cs @ ds) Get_Large_Page_Minimum \<le> 1"
    and "Get_System_Info \<notin> set (Open_Process_Token # cs @ ds)"
    and "\<forall>c \<in> set (Open_Process_Token # cs @ ds). \<not> is_alloc c"
    using none by (auto simp: ds_def)
  ultimately show ?thesis
    using assms(1) None unfolding s' page_inv_def
    by (simp add: in_pages_first asked_first del: count_list.simps set_simps)
qed (use assms in \<open>simp add: huge_page_size_def run_static\<close>)

text \<open>The two \<^verbatim>\<open>static\<close> copies of the size of a huge page.\<close>

lemma static_copy_inv:
  assumes "page_inv os s" and "run_state (static_local copy set_copy (huge_page_size os)) s = (huge, s')"
    and known: "\<And>v. copy s = Some v \<Longrightarrow> static_huge_page_size s = Some v"
    and keep: "\<And>v s1. page_inv os s1 \<Longrightarrow> static_huge_page_size s1 = Some v \<Longrightarrow>
      page_inv os (set_copy (Some v) s1) \<and> static_huge_page_size (set_copy (Some v) s1) = Some v"
  shows "page_inv os s' \<and> static_huge_page_size s' = Some huge"
proof (cases "copy s")
  case None
  obtain h s1 where h: "run_state (huge_page_size os) s = (h, s1)" by (cases "run_state (huge_page_size os) s")
  then have "huge = h" "s' = set_copy (Some h) s1" using assms(2) None by (auto simp: run_static)
  then show ?thesis using huge_page_size_inv [OF assms(1) h] keep by blast
next
  case (Some v)
  then show ?thesis using assms(1,2) known by (simp add: run_static)
qed

lemma region_size_inv:
  assumes "page_inv os s"
    and "run_state (static_local static_region_sz (\<lambda>v s. s\<lparr>static_region_sz := v\<rparr>) (huge_page_size os)) s =
      (huge, s')"
  shows "page_inv os s' \<and> static_huge_page_size s' = Some huge"
  by (rule static_copy_inv [OF assms]) (use assms(1) in \<open>auto simp: page_inv_def\<close>)

lemma pages_size_inv:
  assumes "page_inv os s"
    and "run_state (static_local static_pages_sz (\<lambda>v s. s\<lparr>static_pages_sz := v\<rparr>) (huge_page_size os)) s =
      (huge, s')"
  shows "page_inv os s' \<and> static_huge_page_size s' = Some huge"
  by (rule static_copy_inv [OF assms]) (use assms(1) in \<open>auto simp: page_inv_def\<close>)

lemma alloc_call_inv:
  assumes "page_inv os s" and "if large then static_huge_page_size s = Some page \<and> page \<noteq> 0
      else static_page_size s = Some page" and "n mod page = 0"
  shows "page_inv os (s\<lparr>win_trace := win_trace s @ [Virtual_Alloc n large node]\<rparr>)"
  using assms by (auto simp: page_inv_def split: if_splits)

text \<open>A size in blocks is a multiple of the block, also where the sum in it wrapped around.\<close>

lemma div_times_mod: "x div b * b mod b = (0 :: size_t)"
proof -
  have "unat (x div b) * unat b \<le> unat x" by (simp add: unat_div_distrib)
  then have "unat (x div b) * unat b < 2 ^ 64" using size_t_less [of x] by linarith
  then have "unat (x div b * b) = unat (x div b) * unat b" by (subst unat_mult_lem [THEN iffD1]) auto
  then have "unat (x div b * b mod b) = 0" by (simp add: unat_mod_distrib)
  then show ?thesis by (simp add: unat_eq_zero)
qed

lemma whole_pages_mod: "whole_pages p mod par_page_size p = 0"
  by (simp add: whole_pages_def size_in_blocks_def div_times_mod)

lemma alloc_mem_inv:
  assumes "page_inv os s"
  shows "page_inv os (snd (run_state (alloc_mem os sz) s))"
proof -
  obtain page s1 where p: "run_state (page_size os) s = (page, s1)" by (cases "run_state (page_size os) s")
  note inv = page_size_inv [OF assms p]
  then show ?thesis
    using alloc_call_inv [of os s1 False page sz None] by (simp add: alloc_mem_def run_bind p)
qed

lemma alloc_huge_pages_inv:
  assumes "page_inv os s"
  shows "page_inv os (snd (run_state (alloc_huge_pages os sz node) s))"
proof -
  let ?static = "static_local static_pages_sz (\<lambda>v s. s\<lparr>static_pages_sz := v\<rparr>) (huge_page_size os)"
  obtain page s1 where p: "run_state ?static s = (page, s1)" by (cases "run_state ?static s")
  note inv = pages_size_inv [OF assms p]
  then show ?thesis
    using alloc_call_inv [of os s1 True page sz node] by (simp add: alloc_huge_pages_def run_bind p)
qed

lemma first_kind_inv:
  assumes "page_inv os s" and "run_state (first_kind os params) s = ((params1, kind), s')"
  shows "page_inv os s' \<and>
    (kind = Some Huge \<longrightarrow> static_huge_page_size s' = Some (par_page_size params1) \<and> par_page_size params1 \<noteq> 0) \<and>
    (kind = Some Memory \<longrightarrow> static_page_size s' = Some (par_page_size params1))"
proof -
  let ?static = "static_local static_region_sz (\<lambda>v s. s\<lparr>static_region_sz := v\<rparr>) (huge_page_size os)"
  obtain huge s1 where h: "run_state ?static s = (huge, s1)" by (cases "run_state ?static s")
  obtain page s2 where p: "run_state (page_size os) s1 = (page, s2)" by (cases "run_state (page_size os) s1")
  note inv = region_size_inv [OF assms(1) h]
  show ?thesis
    using assms(2) inv page_size_inv [OF _ p] by (auto simp: first_kind_def run_bind h p split: if_splits)
qed

lemma alloc_kind_inv:
  assumes "page_inv os s" and "run_state (alloc_kind os p k) s = (mem, s')"
    and "if k = Huge then static_huge_page_size s = Some (par_page_size p) \<and> par_page_size p \<noteq> 0
      else static_page_size s = Some (par_page_size p)"
  shows "page_inv os s'"
proof -
  have "s' = s\<lparr>win_trace := win_trace s @ [Virtual_Alloc (whole_pages p) (k = Huge) (numa_node p)]\<rparr>"
    using assms(2) by (auto simp: alloc_kind_def)
  then show ?thesis using alloc_call_inv [OF assms(1) _ whole_pages_mod, of "k = Huge"] assms(3) by simp
qed

lemma alloc_huge_region_inv:
  assumes "page_inv os s"
  shows "page_inv os (snd (run_state (alloc_huge_region os params) s))"
proof -
  obtain mem params' s' where run: "run_state (alloc_huge_region os params) s = ((mem, params'), s')"
    by (cases "run_state (alloc_huge_region os params) s") auto
  have "page_inv os s'"
    using run
  proof (cases rule: alloc_huge_region_cases)
    case (none params1 s1)
    then show ?thesis using first_kind_inv [OF assms none(1)] by simp
  next
    case (once params1 k s1)
    then show ?thesis
      using first_kind_inv [OF assms once(1)] alloc_kind_inv [OF _ once(2)] by (cases k) auto
  next
    case (twice params1 s1 s2 page s3 params2)
    have "page_inv os s2" using first_kind_inv [OF assms twice(1)] alloc_kind_inv [OF _ twice(2)] by simp
    then show ?thesis using page_size_inv [OF _ twice(4)] alloc_kind_inv [OF _ twice(6)] twice(5) by simp
  qed
  with run show ?thesis by simp
qed

lemma drop_block_inv: "page_inv os s \<Longrightarrow> page_inv os (snd (run_state (drop_block os mem) s))"
  by (simp add: drop_block_def free_memory_def run_bind page_inv_def)

lemma run_command_inv: "page_inv os s \<Longrightarrow> page_inv os (run_command os cmd s)"
  by (cases cmd; cases "run_state (page_size os) s"; cases "run_state (huge_page_size os) s")
     (auto dest: page_size_inv huge_page_size_inv
       intro: alloc_mem_inv alloc_huge_pages_inv alloc_huge_region_inv drop_block_inv)

lemma run_commands_inv: "page_inv os s \<Longrightarrow> page_inv os (fold (run_command os) cmds s)"
  by (induction cmds arbitrary: s) (auto intro: run_command_inv)

lemma page_inv_start [simp]: "page_inv os no_static"
  by (simp add: page_inv_def no_static_def asked_def)


lemma page_inv_answer:
  "page_inv os s \<Longrightarrow> static_huge_page_size s = Some huge \<Longrightarrow> huge \<noteq> 0 \<Longrightarrow>
     answer os Get_Large_Page_Minimum (win_trace s) huge"
  "page_inv os s \<Longrightarrow> static_page_size s = Some page \<Longrightarrow> answer os Get_System_Info (win_trace s) page"
  by (simp_all add: page_inv_def)

lemma first_kind_page:
  assumes "page_inv os s" and "run_state (first_kind os params) s = ((params1, kind), s')"
  shows "kind = Some Huge \<Longrightarrow>
      par_page_size params1 \<noteq> 0 \<and> answer os Get_Large_Page_Minimum (win_trace s') (par_page_size params1)"
    and "kind = Some Memory \<Longrightarrow> answer os Get_System_Info (win_trace s') (par_page_size params1)"
    and "kind = None \<Longrightarrow> par_page_size params1 = 0 \<and> par_type params = Huge"
  using first_kind_inv [OF assms] page_inv_answer assms(2)
  by (auto simp: first_kind_def run_bind split_def Let_def split: if_splits)

lemma page_inv_pages:
  "page_inv os s \<Longrightarrow> in_pages True (static_huge_page_size s) (win_trace s)"
  "page_inv os s \<Longrightarrow> in_pages False (static_page_size s) (win_trace s)"
  by (simp_all add: page_inv_def)

lemma page_inv_large:
  assumes "page_inv os s" and "Virtual_Alloc n True node \<in> set (win_trace s)"
  shows "\<exists>huge. answer os Get_Large_Page_Minimum (win_trace s) huge \<and> huge \<noteq> 0 \<and> n mod huge = 0"
proof (rule in_pagesE [OF page_inv_pages(1) [OF assms(1)] assms(2)])
  fix huge
  assume h: "static_huge_page_size s = Some huge" "n mod huge = 0" and "True \<longrightarrow> huge \<noteq> 0"
  then have "huge \<noteq> 0" by simp
  from page_inv_answer(1) [OF assms(1) h(1) this] h(2) this show ?thesis by (intro exI conjI)
qed

lemma page_inv_normal:
  assumes "page_inv os s" and "Virtual_Alloc n False node \<in> set (win_trace s)"
  shows "\<exists>page. answer os Get_System_Info (win_trace s) page \<and> n mod page = 0"
proof (rule in_pagesE [OF page_inv_pages(2) [OF assms(1)] assms(2)])
  fix page
  assume p: "static_page_size s = Some page" "n mod page = 0"
  from page_inv_answer(2) [OF assms(1) p(1)] p(2) show ?thesis by (intro exI conjI)
qed

lemma page_inv_asked:
  "page_inv os s \<Longrightarrow> c \<in> {Open_Process_Token, Get_Large_Page_Minimum, Get_System_Info} \<Longrightarrow>
     count_list (win_trace s) c \<le> 1"
  by (elim insertE; simp add: page_inv_def asked_def split: if_splits)


section \<open>Properties\<close>

text \<open>C21: over the life of a process, whatever the operations and the answers of the system: the
  privilege for large pages and the two page sizes are asked for at most once; every allocation of
  large pages asks for a multiple of what the system answered as their size, which was not 0, and
  every other allocation for a multiple of the size of its pages.\<close>

theorem page_calls_whole:
  "let cs = win_trace (fold (run_command os) cmds no_static) in
     (\<forall>c \<in> {Open_Process_Token, Get_Large_Page_Minimum, Get_System_Info}. count_list cs c \<le> 1) \<and>
     (\<forall>n node. Virtual_Alloc n True node \<in> set cs \<longrightarrow>
       (\<exists>huge. answer os Get_Large_Page_Minimum cs huge \<and> huge \<noteq> 0 \<and> n mod huge = 0)) \<and>
     (\<forall>n node. Virtual_Alloc n False node \<in> set cs \<longrightarrow>
       (\<exists>page. answer os Get_System_Info cs page \<and> n mod page = 0))"
proof -
  have inv: "page_inv os (fold (run_command os) cmds no_static)" by (rule run_commands_inv) simp
  show ?thesis
    unfolding Let_def
    by (intro conjI ballI allI impI)
       (rule page_inv_asked [OF inv] page_inv_large [OF inv] page_inv_normal [OF inv], assumption)+
qed

lemma page_calls_whole_witness:
  "answer large_os Get_Large_Page_Minimum (win_trace (run_command large_os (Cmd_Alloc_Region
     \<lparr>numa_node = None, par_size = 1, par_type = Huge, par_page_size = 0\<rparr>) no_static)) 0x200000"
proof -
  let ?cmd = "Cmd_Alloc_Region \<lparr>numa_node = None, par_size = 1, par_type = Huge, par_page_size = 0\<rparr>"
  let ?cs = "win_trace (run_command large_os ?cmd no_static)"
  have "Virtual_Alloc 0x200000 True None \<in> set ?cs" by (simp add: alloc_large_os)
  then obtain huge where "answer large_os Get_Large_Page_Minimum ?cs huge"
    using page_calls_whole [of large_os "[?cmd]"] by (auto simp: Let_def)
  then show ?thesis by (auto simp: answer_def large_os_def)
qed

text \<open>C28: what the caller is told is what was allocated: whatever operations came before, if
  \<^verbatim>\<open>alloc_huge_region\<close> returns memory, the last call of the system asked for exactly the
  reported size, in the reported kind of pages, on the requested node, and its answer is the result;
  the reported size is the requested one in whole pages of the reported page size; and this is what
  the system answered as the size of its large pages, or of its normal pages, by the kind that is
  reported.  If it returns none, size and kind are as before, and the page size is the one of this
  kind, or 0 when there are no large pages.\<close>

theorem region_report:
  assumes "run_state (alloc_huge_region os params) (fold (run_command os) cmds no_static) =
    ((mem, params'), s')"
  shows "(if mem \<noteq> 0
     then par_size params' =
            size_in_blocks (par_size params) (par_page_size params') * par_page_size params' \<and>
          (\<exists>h. win_trace s' = h @ [Virtual_Alloc (par_size params') (par_type params' = Huge) (numa_node params)] \<and>
            mem = os h (Virtual_Alloc (par_size params') (par_type params' = Huge) (numa_node params)))
     else par_size params' = par_size params \<and> par_type params' = par_type params) \<and>
    numa_node params' = numa_node params \<and>
    (if par_type params' = Huge
     then mem = 0 \<and> par_page_size params' = 0 \<or>
          par_page_size params' \<noteq> 0 \<and> answer os Get_Large_Page_Minimum (win_trace s') (par_page_size params')
     else answer os Get_System_Info (win_trace s') (par_page_size params'))"
  (is "?region \<and> ?node \<and> ?page")
proof -
  let ?s = "fold (run_command os) cmds no_static"
  have inv: "page_inv os ?s" by (rule run_commands_inv) simp
  show ?thesis
    using assms
  proof (cases rule: alloc_huge_region_cases)
    case (none params1 s1)
    then show ?thesis using first_kind_run [OF none(1)] first_kind_page [OF inv none(1)] by simp
  next
    case (once params1 k s1)
    note run = first_kind_run [OF once(1)] alloc_kind_run [OF once(2)] and page = first_kind_page [OF inv once(1)]
    show ?thesis
      using run page once(3,4) by (cases k) (auto simp: whole_pages_def)
  next
    case (twice params1 s1 s2 page s3 params2)
    note run = first_kind_run [OF twice(1)] alloc_kind_run [OF twice(6)]
    have "page_inv os s2"
      using first_kind_inv [OF inv twice(1)] alloc_kind_inv [OF _ twice(2)] by simp
    from page_size_inv [OF this twice(4)] have "answer os Get_System_Info (win_trace s3) page"
      using page_inv_answer(2) by blast
    then show ?thesis using run twice(3,5,7) by (auto simp: whole_pages_def)
  qed
qed

lemma region_report_witness:
  "case run_state (alloc_huge_region scarce_os
       \<lparr>numa_node = Some 1, par_size = 5000, par_type = Memory, par_page_size = 0\<rparr>) no_static of
     ((mem, params'), s') \<Rightarrow>
       mem = 0x10000000 \<and> par_size params' = 0x2000 \<and> par_type params' = Memory \<and>
       size_in_blocks 5000 0x1000 * 0x1000 = (0x2000 :: size_t) \<and>
       last (win_trace s') = Virtual_Alloc 0x2000 False (Some 1) \<and>
       answer scarce_os Get_System_Info (win_trace s') 0x1000"
proof -
  have "run_state (alloc_huge_region scarce_os
      \<lparr>numa_node = Some 1, par_size = 5000, par_type = Memory, par_page_size = 0\<rparr>)
      (fold (run_command scarce_os) [] no_static) =
    ((0x10000000, \<lparr>numa_node = Some 1, par_size = 0x2000, par_type = Memory, par_page_size = 0x1000\<rparr>),
      snd (run_state (alloc_huge_region scarce_os
        \<lparr>numa_node = Some 1, par_size = 5000, par_type = Memory, par_page_size = 0\<rparr>) no_static))"
    by (simp add: alloc_scarce_os)
  from region_report [OF this] show ?thesis by (simp add: alloc_scarce_os)
qed

text \<open>A relaxed request has memory whenever the system has normal pages on its node.\<close>

theorem relaxed_falls_back:
  assumes "run_state (alloc_huge_region os params) s = ((mem, params'), s')" and "par_type params = Memory"
    and "\<And>h n. os h (Virtual_Alloc n False (numa_node params)) \<noteq> 0"
  shows "mem \<noteq> 0"
  using assms(1)
proof (cases rule: alloc_huge_region_cases)
  case (none params1 s1)
  then show ?thesis
    using assms(2) by (auto simp: first_kind_def run_bind split_def Let_def split: if_splits)
next
  case (once params1 k s1)
  then show ?thesis
    using assms(2,3) first_kind_run(3,4) [OF once(1)] alloc_kind_run [OF once(2)] by (cases k) auto
next
  case (twice params1 s1 s2 page s3 params2)
  then show ?thesis using assms(3) first_kind_run(4) [OF twice(1)] alloc_kind_run [OF twice(6)] by auto
qed

end
