(* ===== verification/Nic_Addresses.thy ===== *)
theory Nic_Addresses
  imports Fb_Prelude "HOL-Library.Word"
begin

text \<open>
  \<^verbatim>\<open>utils/posix/nic_addresses.cpp\<close> and \<^verbatim>\<open>utils/win/nic_addresses\<close>: the addresses
  of the network interfaces.  What \<^verbatim>\<open>getifaddrs\<close> and
  \<^verbatim>\<open>GetAdaptersAddresses\<close> answer is a parameter; the linked lists they return are lists,
  a socket address is a value of the family its \<^verbatim>\<open>sa_family\<close> names.
\<close>

section \<open>POSIX\<close>

type_synonym in_addr = "32 word"
type_synonym in6_addr = "8 word list"

text \<open>\<open>Packet\<close> is a \<^verbatim>\<open>sockaddr_ll\<close>: its length byte and its hardware address.\<close>

datatype sockaddr =
    Inet in_addr
  | Inet6 in6_addr
  | Packet "8 word" "8 word list"
  | Other_Family nat

record ifaddr =
  ifa_name :: string
  ifa_addr :: "sockaddr option"

record nic_info =
  nic_name :: string
  nic_mac :: "8 word list"
  nic_ipv4 :: "in_addr list"
  nic_ipv6 :: "in6_addr list"

definition empty_nic :: nic_info where
  "empty_nic = \<lparr>nic_name = [], nic_mac = [], nic_ipv4 = [], nic_ipv6 = []\<rparr>"

text \<open>\<^verbatim>\<open>get_nic_addresses\<close> for the two address families.\<close>

fun inet_of :: "sockaddr \<Rightarrow> in_addr option" where
  "inet_of (Inet a) = Some a"
| "inet_of _ = None"

fun inet6_of :: "sockaddr \<Rightarrow> in6_addr option" where
  "inet6_of (Inet6 a) = Some a"
| "inet6_of _ = None"

fun nic_addresses_loop :: "(sockaddr \<Rightarrow> 'a option) \<Rightarrow> string \<Rightarrow> ifaddr list \<Rightarrow> 'a list \<Rightarrow> 'a list" where
  "nic_addresses_loop family ifname [] res = res"
| "nic_addresses_loop family ifname (e # es) res =
     nic_addresses_loop family ifname es
       (case ifa_addr e of
          None \<Rightarrow> res
        | Some a \<Rightarrow>
            if ifname = ifa_name e then (case family a of Some x \<Rightarrow> res @ [x] | None \<Rightarrow> res) else res)"

definition get_nic_addresses :: "(sockaddr \<Rightarrow> 'a option) \<Rightarrow> ifaddr list option \<Rightarrow> string \<Rightarrow> 'a list" where
  "get_nic_addresses family interfaces ifname =
     (case interfaces of None \<Rightarrow> [] | Some es \<Rightarrow> nic_addresses_loop family ifname es [])"

text \<open>\<^verbatim>\<open>ll.sll_addr\<close> has 8 bytes; a length byte above 8 makes
  \<^verbatim>\<open>mac.assign\<close> read behind the local copy.\<close>

definition add_address :: "sockaddr \<Rightarrow> nic_info \<Rightarrow> nic_info outcome" where
  "add_address a info =
     (case a of
        Inet x \<Rightarrow> Inr (info\<lparr>nic_ipv4 := nic_ipv4 info @ [x]\<rparr>)
      | Inet6 x \<Rightarrow> Inr (info\<lparr>nic_ipv6 := nic_ipv6 info @ [x]\<rparr>)
      | Packet halen bytes \<Rightarrow>
          if unat halen \<le> 8 then Inr (info\<lparr>nic_mac := take (unat halen) bytes\<rparr>) else Inl Undefined
      | Other_Family _ \<Rightarrow> Inr info)"

definition add_entry :: "ifaddr \<Rightarrow> nic_info list \<Rightarrow> nic_info list outcome" where
  "add_entry e res =
     (case ifa_addr e of
        None \<Rightarrow> Inr res
      | Some a \<Rightarrow>
          (case find_idx (\<lambda>info. nic_name info = ifa_name e) res of
             None \<Rightarrow> obind (add_address a (empty_nic\<lparr>nic_name := ifa_name e\<rparr>)) (\<lambda>info. Inr (res @ [info]))
           | Some i \<Rightarrow> obind (add_address a ((res ! i)\<lparr>nic_name := ifa_name e\<rparr>)) (\<lambda>info. Inr (res[i := info]))))"

fun nic_info_loop :: "ifaddr list \<Rightarrow> nic_info list \<Rightarrow> nic_info list outcome" where
  "nic_info_loop [] res = Inr res"
| "nic_info_loop (e # es) res = obind (add_entry e res) (nic_info_loop es)"

definition get_nic_info :: "ifaddr list option \<Rightarrow> nic_info list outcome" where
  "get_nic_info interfaces = (case interfaces of None \<Rightarrow> Inr [] | Some es \<Rightarrow> nic_info_loop es [])"


section \<open>Windows\<close>

datatype address_type = Unicast | Anycast | Multicast

text \<open>A flag word of \<^verbatim>\<open>GetAdaptersAddresses\<close>, by what it leaves out of the answer.\<close>

record gaa_flags =
  skip_unicast :: bool
  skip_anycast :: bool
  skip_multicast :: bool
  skip_dns_server :: bool
  include_prefix :: bool

text \<open>An address entry: the socket address and its \<^verbatim>\<open>iSockaddrLength\<close>.\<close>

type_synonym wide = "16 word list"

record adapter =
  friendly_name :: wide
  physical_address :: "8 word list"
  unicast_addresses :: "(sockaddr \<times> nat) list"
  anycast_addresses :: "(sockaddr \<times> nat) list"
  multicast_addresses :: "(sockaddr \<times> nat) list"

datatype gaa_answer = Gaa_Success "adapter list" | Gaa_Overflow nat | Gaa_Error nat

definition error_buffer_overflow :: nat where
  "error_buffer_overflow = 111"

text \<open>\<open>make_buffer\<close>: the number of elements a buffer of that many bytes needs.\<close>

definition make_buffer :: "nat \<Rightarrow> 64 word \<Rightarrow> 64 word" where
  "make_buffer elem size_in_bytes = (size_in_bytes - 1 + of_nat elem) div of_nat elem"

text \<open>The retry loop.  \<open>call n k\<close> is the answer to the call number \<open>k\<close> with a buffer of \<open>n\<close>
  bytes; the call that is told the buffer is too small gets the size to use next.  An error is
  thrown with its code.\<close>

function adapters_loop ::
  "(nat \<Rightarrow> nat \<Rightarrow> gaa_answer) \<Rightarrow> nat \<Rightarrow> nat \<Rightarrow> nat \<Rightarrow> nat + adapter list" where
  "adapters_loop call k n retries =
     (case call n k of
        Gaa_Success adapters \<Rightarrow> Inr adapters
      | Gaa_Overflow n' \<Rightarrow>
          if retries > 1 then adapters_loop call (Suc k) n' (retries - 1)
          else Inl error_buffer_overflow
      | Gaa_Error e \<Rightarrow> Inl e)"
  by pat_completeness auto
termination
  by (relation "measure (\<lambda>(call, k, n, retries). retries)") auto

declare adapters_loop.simps [simp del]

definition get_adapters_addresses :: "(nat \<Rightarrow> nat \<Rightarrow> gaa_answer) \<Rightarrow> nat \<Rightarrow> nat + adapter list" where
  "get_adapters_addresses call retries = adapters_loop call 0 (15 * 1024) retries"

text \<open>The accessor of the list of a type, and the flags a type asks with.\<close>

definition addresses_of :: "address_type \<Rightarrow> adapter \<Rightarrow> (sockaddr \<times> nat) list" where
  "addresses_of t a =
     (case t of Unicast \<Rightarrow> unicast_addresses a | Anycast \<Rightarrow> anycast_addresses a
      | Multicast \<Rightarrow> multicast_addresses a)"

definition flags_of :: "address_type \<Rightarrow> gaa_flags" where
  "flags_of t =
     (let base = \<lparr>skip_unicast = False, skip_anycast = False, skip_multicast = False,
                  skip_dns_server = True, include_prefix = True\<rparr> in
      case t of
        Unicast \<Rightarrow> base\<lparr>skip_anycast := True, skip_multicast := True\<rparr>
      | Anycast \<Rightarrow> base\<lparr>skip_unicast := True, skip_multicast := True\<rparr>
      | Multicast \<Rightarrow> base\<lparr>skip_unicast := True, skip_anycast := True\<rparr>)"

text \<open>\<open>family\<close> reads an address of the wanted family, \<open>len\<close> is
  \<^verbatim>\<open>sizeof(AddressFamily)\<close>.\<close>

fun find_address :: "(sockaddr \<Rightarrow> 'a option) \<Rightarrow> nat \<Rightarrow> (sockaddr \<times> nat) list \<Rightarrow> 'a list" where
  "find_address family len [] = []"
| "find_address family len ((a, n) # as) =
     (case family a of
        Some x \<Rightarrow> if n \<ge> len then x # find_address family len as else find_address family len as
      | None \<Rightarrow> find_address family len as)"

text \<open>The first adapter of the name answers.\<close>

fun adapter_addresses ::
  "(sockaddr \<Rightarrow> 'a option) \<Rightarrow> nat \<Rightarrow> address_type \<Rightarrow> wide \<Rightarrow> adapter list \<Rightarrow> 'a list" where
  "adapter_addresses family len t name [] = []"
| "adapter_addresses family len t name (a # as) =
     (if name = friendly_name a then find_address family len (addresses_of t a)
      else adapter_addresses family len t name as)"

text \<open>\<^verbatim>\<open>get_nic_addresses\<close> for a wide name: the adapters are in a \<^verbatim>\<open>static\<close> local, so
  the system is asked only by the first call that does not throw.  \<open>query\<close> is the system's
  answer to \<^verbatim>\<open>get_adapters_addresses\<close> for some flags.  The state is the static; the
  parameter \<^verbatim>\<open>retries\<close> of the source is not used by it.\<close>

definition win_nic_addresses ::
  "(gaa_flags \<Rightarrow> nat + adapter list) \<Rightarrow> (sockaddr \<Rightarrow> 'a option) \<Rightarrow> nat \<Rightarrow> wide \<Rightarrow> address_type \<Rightarrow> nat \<Rightarrow>
   adapter list option \<Rightarrow> (nat + 'a list) \<times> adapter list option"
where
  "win_nic_addresses query family len name t retries cache =
     (case (case cache of Some as \<Rightarrow> Inr as | None \<Rightarrow> query (flags_of t)) of
        Inl e \<Rightarrow> (Inl e, None)
      | Inr as \<Rightarrow> (Inr (adapter_addresses family len t name as), Some as))"

text \<open>Narrow and wide strings: \<^verbatim>\<open>char\<close> is signed there, a wide character keeps its low
  byte.\<close>

definition widen :: "string \<Rightarrow> wide" where
  "widen s = map (\<lambda>c. scast (of_nat (of_char c) :: 8 word)) s"

definition narrow :: "wide \<Rightarrow> string" where
  "narrow w = map (\<lambda>c. char_of (unat c)) w"

definition win_nic_addresses_narrow ::
  "(gaa_flags \<Rightarrow> nat + adapter list) \<Rightarrow> (sockaddr \<Rightarrow> 'a option) \<Rightarrow> nat \<Rightarrow> string \<Rightarrow>
   adapter list option \<Rightarrow> (nat + 'a list) \<times> adapter list option"
where
  "win_nic_addresses_narrow query family len ifname cache =
     win_nic_addresses query family len (widen ifname) Unicast 3 cache"

definition win_nic :: "adapter \<Rightarrow> nic_info" where
  "win_nic a =
     \<lparr>nic_name = narrow (friendly_name a), nic_mac = physical_address a,
      nic_ipv4 = List.map_filter (\<lambda>(s, _). inet_of s) (unicast_addresses a),
      nic_ipv6 = List.map_filter (\<lambda>(s, _). inet6_of s) (unicast_addresses a)\<rparr>"

definition win_nic_info :: "adapter list \<Rightarrow> nic_info list" where
  "win_nic_info adapters = map win_nic adapters"

definition win_get_nic_info ::
  "(gaa_flags \<Rightarrow> nat + adapter list) \<Rightarrow> adapter list option \<Rightarrow> (nat + nic_info list) \<times> adapter list option"
where
  "win_get_nic_info query cache =
     (case (case cache of Some as \<Rightarrow> Inr as | None \<Rightarrow> query (flags_of Unicast)) of
        Inl e \<Rightarrow> (Inl e, None)
      | Inr as \<Rightarrow> (Inr (win_nic_info as), Some as))"


section \<open>What the loops compute\<close>

lemma nic_addresses_loop_eq:
  "nic_addresses_loop family ifname es res =
     res @ List.map_filter (\<lambda>e. Option.bind (ifa_addr e) family) (filter (\<lambda>e. ifa_name e = ifname) es)"
  by (induction es arbitrary: res) (auto simp: List.map_filter_simps split: option.splits)

text \<open>The summary of one interface: its entries, in order.\<close>

fun apply_addresses :: "sockaddr list \<Rightarrow> nic_info \<Rightarrow> nic_info" where
  "apply_addresses [] info = info"
| "apply_addresses (a # as) info =
     apply_addresses as (case a of
        Inet x \<Rightarrow> info\<lparr>nic_ipv4 := nic_ipv4 info @ [x]\<rparr>
      | Inet6 x \<Rightarrow> info\<lparr>nic_ipv6 := nic_ipv6 info @ [x]\<rparr>
      | Packet halen bytes \<Rightarrow> info\<lparr>nic_mac := take (unat halen) bytes\<rparr>
      | Other_Family _ \<Rightarrow> info)"

definition mac_fits :: "sockaddr \<Rightarrow> bool" where
  "mac_fits a = (case a of Packet halen _ \<Rightarrow> unat halen \<le> 8 | _ \<Rightarrow> True)"

definition addressed :: "ifaddr list \<Rightarrow> ifaddr list" where
  "addressed es = filter (\<lambda>e. ifa_addr e \<noteq> None) es"

definition addresses_for :: "ifaddr list \<Rightarrow> string \<Rightarrow> sockaddr list" where
  "addresses_for es n = map (\<lambda>e. the (ifa_addr e)) (filter (\<lambda>e. ifa_name e = n) (addressed es))"

definition summary :: "ifaddr list \<Rightarrow> string \<Rightarrow> nic_info" where
  "summary es n = apply_addresses (addresses_for es n) (empty_nic\<lparr>nic_name := n\<rparr>)"

text \<open>The names in the order of their first entry.\<close>

fun first_names :: "string list \<Rightarrow> string list" where
  "first_names [] = []"
| "first_names (n # ns) = n # filter (\<lambda>m. m \<noteq> n) (first_names ns)"

lemma set_first_names [simp]: "set (first_names ns) = set ns"
  by (induction ns) auto

lemma distinct_first_names [simp]: "distinct (first_names ns)"
  by (induction ns) auto

lemma first_names_snoc:
  "first_names (ns @ [n]) = (if n \<in> set ns then first_names ns else first_names ns @ [n])"
  by (induction ns) auto

lemma add_address_eq:
  "mac_fits a \<Longrightarrow> add_address a info = Inr (apply_addresses [a] info)"
  by (cases a) (auto simp: add_address_def mac_fits_def)

lemma apply_addresses_append:
  "apply_addresses (as @ bs) info = apply_addresses bs (apply_addresses as info)"
  by (induction as arbitrary: info) auto

lemma apply_addresses_fields:
  "nic_name (apply_addresses as info) = nic_name info"
  "nic_ipv4 (apply_addresses as info) = nic_ipv4 info @ List.map_filter inet_of as"
  "nic_ipv6 (apply_addresses as info) = nic_ipv6 info @ List.map_filter inet6_of as"
  by (induction as arbitrary: info) (auto simp: List.map_filter_simps split: sockaddr.splits)

lemma addresses_for_snoc:
  "addresses_for (es @ [e]) n =
     addresses_for es n @ (if ifa_name e = n then (case ifa_addr e of None \<Rightarrow> [] | Some a \<Rightarrow> [a]) else [])"
  by (auto simp: addresses_for_def addressed_def split: option.splits)

definition summaries :: "ifaddr list \<Rightarrow> nic_info list" where
  "summaries es = map (summary es) (first_names (map ifa_name (addressed es)))"

lemma summary_name [simp]: "nic_name (summary es n) = n"
  by (simp add: summary_def apply_addresses_fields)

lemma summary_snoc:
  "n \<noteq> ifa_name e \<Longrightarrow> summary (es @ [e]) n = summary es n"
  "ifa_addr e = Some a \<Longrightarrow>
     summary (es @ [e]) (ifa_name e) = apply_addresses [a] (summary es (ifa_name e))"
  by (simp_all add: summary_def addresses_for_snoc apply_addresses_append)

lemma addressed_snoc: "ifa_addr e = Some a \<Longrightarrow> addressed (es @ [e]) = addressed es @ [e]"
  by (simp add: addressed_def)

lemma add_entry_new:
  assumes "ifa_addr e = Some a" and "mac_fits a" and "ifa_name e \<notin> ifa_name ` set (addressed es)"
  shows "add_entry e (summaries es) = Inr (summaries (es @ [e]))"
proof -
  let ?n = "ifa_name e" and ?ns = "map ifa_name (addressed es)"
  have other: "\<forall>x \<in> set (addressed es). ifa_name x \<noteq> ?n" using assms(3) by (metis image_eqI)
  then have "find_idx (\<lambda>info. nic_name info = ?n) (summaries es) = None"
    by (auto simp: find_idx_None_iff summaries_def)
  moreover have "addresses_for es ?n = []" using other by (simp add: addresses_for_def filter_empty_conv)
  then have "summary es ?n = empty_nic\<lparr>nic_name := ?n\<rparr>" by (simp add: summary_def)
  moreover have "map (summary (es @ [e])) (first_names ?ns) = map (summary es) (first_names ?ns)"
    by (intro map_cong refl summary_snoc(1)) (use other in auto)
  ultimately show ?thesis
    using assms summary_snoc(2) [OF assms(1), of es]
    by (simp add: add_entry_def add_address_eq addressed_snoc first_names_snoc summaries_def)
qed

lemma add_entry_known:
  assumes "ifa_addr e = Some a" and "mac_fits a" and known: "ifa_name e \<in> ifa_name ` set (addressed es)"
  shows "add_entry e (summaries es) = Inr (summaries (es @ [e]))"
proof -
  let ?n = "ifa_name e" and ?ns = "map ifa_name (addressed es)"
  have "?n \<in> set (first_names ?ns)" using known by simp
  then obtain i where i: "i < length (first_names ?ns)" "first_names ?ns ! i = ?n"
    by (metis in_set_conv_nth)
  have uniq: "first_names ?ns ! j = ?n \<longleftrightarrow> j = i" if "j < length (first_names ?ns)" for j
    using i that nth_eq_iff_index_eq [OF distinct_first_names, of j ?ns i] by metis
  have found: "find_idx (\<lambda>info. nic_name info = ?n) (summaries es) = Some i"
    using i uniq by (auto simp: find_idx_Some_iff summaries_def)
  have "(summary es ?n)\<lparr>nic_name := ?n\<rparr> = summary es ?n"
    using summary_name [of es ?n]
    by (metis nic_info.surjective nic_info.update_convs(1) nic_info.select_convs(1))
  moreover have "summaries es ! i = summary es ?n" using i by (simp add: summaries_def)
  ultimately have "add_address a ((summaries es ! i)\<lparr>nic_name := ?n\<rparr>) = Inr (summary (es @ [e]) ?n)"
    by (simp only: summary_snoc(2) [OF assms(1)] add_address_eq [OF assms(2)])
  moreover have "summaries (es @ [e]) = map (summary (es @ [e])) (first_names ?ns)"
    using known by (simp add: summaries_def addressed_snoc [OF assms(1)] first_names_snoc)
  then have "(summaries es)[i := summary (es @ [e]) ?n] = summaries (es @ [e])"
    by (intro nth_equalityI) (auto simp: summaries_def nth_list_update i uniq summary_snoc(1))
  ultimately show ?thesis by (simp add: add_entry_def assms(1) found)
qed

lemma add_entry_summaries:
  assumes "\<forall>a. ifa_addr e = Some a \<longrightarrow> mac_fits a"
  shows "add_entry e (summaries es) = Inr (summaries (es @ [e]))"
proof (cases "ifa_addr e")
  case None
  then have "addresses_for (es @ [e]) = addresses_for es"
    by (simp add: fun_eq_iff addresses_for_snoc)
  then show ?thesis using None by (simp add: add_entry_def summaries_def summary_def addressed_def)
qed (use assms add_entry_new add_entry_known in blast)

lemma nic_info_loop_summaries:
  "\<forall>e \<in> set fs. \<forall>a. ifa_addr e = Some a \<longrightarrow> mac_fits a \<Longrightarrow>
     nic_info_loop fs (summaries es) = Inr (summaries (es @ fs))"
proof (induction fs arbitrary: es)
  case (Cons f fs)
  then show ?case using add_entry_summaries [of f es] Cons.IH [of "es @ [f]"] by simp
qed simp

end
