(* ===== verification/Nic_Properties.thy ===== *)
theory Nic_Properties
  imports Nic_Addresses
begin

text \<open>
  Properties of the interface addresses: the grouping of \<^verbatim>\<open>getifaddrs\<close> entries, the length
  of a hardware address, the retry loop and the cached answer on Windows.
\<close>

text \<open>The buffer sizes of the successive calls of the retry loop.\<close>

fun gaa_size :: "(nat \<Rightarrow> nat \<Rightarrow> gaa_answer) \<Rightarrow> nat \<Rightarrow> nat" where
  "gaa_size call 0 = 15 * 1024"
| "gaa_size call (Suc k) = (case call (gaa_size call k) k of Gaa_Overflow n \<Rightarrow> n | _ \<Rightarrow> gaa_size call k)"

definition overflows :: "(nat \<Rightarrow> nat \<Rightarrow> gaa_answer) \<Rightarrow> nat \<Rightarrow> bool" where
  "overflows call k = (\<exists>n. call (gaa_size call k) k = Gaa_Overflow n)"

text \<open>A success within the attempts left, behind overflows only.\<close>

definition succeeds :: "(nat \<Rightarrow> nat \<Rightarrow> gaa_answer) \<Rightarrow> nat \<Rightarrow> nat \<Rightarrow> adapter list \<Rightarrow> bool" where
  "succeeds call k retries as \<longleftrightarrow>
     (\<exists>j < max 1 retries. (\<forall>i < j. overflows call (k + i)) \<and>
        call (gaa_size call (k + j)) (k + j) = Gaa_Success as)"

lemma succeeds_last:
  assumes "\<not> overflows call k \<or> retries \<le> 1"
  shows "succeeds call k retries as \<longleftrightarrow> call (gaa_size call k) k = Gaa_Success as"
proof -
  have "j = 0" if "j < max 1 retries" "\<forall>i < j. overflows call (k + i)" for j
    using that assms by (cases j) auto
  then have "succeeds call k retries as \<longleftrightarrow>
      (\<exists>j < max 1 retries. j = 0 \<and> call (gaa_size call (k + j)) (k + j) = Gaa_Success as)"
    unfolding succeeds_def by fastforce
  then show ?thesis by auto
qed

lemma succeeds_again:
  assumes "overflows call k" and "retries > 1"
  shows "succeeds call k retries as \<longleftrightarrow> succeeds call (Suc k) (retries - 1) as"
proof
  assume "succeeds call k retries as"
  then obtain j where j: "j < max 1 retries" "\<forall>i < j. overflows call (k + i)"
    "call (gaa_size call (k + j)) (k + j) = Gaa_Success as" unfolding succeeds_def by blast
  then obtain j' where "j = Suc j'" using assms(1) by (cases j) (auto simp: overflows_def)
  then show "succeeds call (Suc k) (retries - 1) as"
    unfolding succeeds_def using j assms(2) by (intro exI [of _ j']) auto
next
  assume "succeeds call (Suc k) (retries - 1) as"
  then obtain j where j: "j < max 1 (retries - 1)" "\<forall>i < j. overflows call (Suc k + i)"
    "call (gaa_size call (Suc k + j)) (Suc k + j) = Gaa_Success as" unfolding succeeds_def by blast
  have "\<forall>i < Suc j. overflows call (k + i)" using j(2) assms(1) by (auto simp: less_Suc_eq_0_disj)
  then show "succeeds call k retries as"
    unfolding succeeds_def using j assms(2) by (intro exI [of _ "Suc j"]) auto
qed

lemma adapters_loop_success:
  "adapters_loop call k (gaa_size call k) retries = Inr as \<longleftrightarrow> succeeds call k retries as"
proof (induction retries arbitrary: k rule: less_induct)
  case (less retries)
  show ?case
  proof (cases "overflows call k \<and> retries > 1")
    case True
    then obtain n where n: "call (gaa_size call k) k = Gaa_Overflow n" by (auto simp: overflows_def)
    then have "adapters_loop call k (gaa_size call k) retries =
        adapters_loop call (Suc k) (gaa_size call (Suc k)) (retries - 1)"
      using True by (subst adapters_loop.simps) simp
    then show ?thesis using less.IH [of "retries - 1" "Suc k"] True by (simp add: succeeds_again)
  next
    case False
    then have "succeeds call k retries as \<longleftrightarrow> call (gaa_size call k) k = Gaa_Success as"
      by (intro succeeds_last) auto
    then show ?thesis
      using False by (subst adapters_loop.simps) (auto simp: overflows_def split: gaa_answer.splits)
  qed
qed

lemma nic_info_loop_undefined:
  "\<exists>e \<in> set es. \<exists>a. ifa_addr e = Some a \<and> \<not> mac_fits a \<Longrightarrow> nic_info_loop es res = Inl Undefined"
proof (induction es arbitrary: res)
  case (Cons e es)
  show ?case
  proof (cases "\<exists>a. ifa_addr e = Some a \<and> \<not> mac_fits a")
    case True
    then obtain a where a: "ifa_addr e = Some a" "\<not> mac_fits a" by blast
    then have "add_address a info = Inl Undefined" for info
      by (cases a) (auto simp: add_address_def mac_fits_def)
    then have "add_entry e res = Inl Undefined" using a by (simp add: add_entry_def split: option.splits)
    then show ?thesis by simp
  next
    case False
    then have "\<exists>x. add_entry e res = Inr x"
      by (cases "ifa_addr e") (auto simp: add_entry_def add_address_eq split: option.splits)
    then obtain x where x: "add_entry e res = Inr x" ..
    have "\<exists>e \<in> set es. \<exists>a. ifa_addr e = Some a \<and> \<not> mac_fits a" using False Cons.prems by auto
    then show ?thesis using x Cons.IH by simp
  qed
qed simp


section \<open>Properties\<close>

text \<open>C25: \<^verbatim>\<open>get_nic_info\<close> on POSIX groups the entries by name: one record for each name that
  has an address, in the order of the first one, with all its IPv4 and IPv6 addresses in order,
  exactly those \<^verbatim>\<open>get_nic_addresses\<close> finds for the name.\<close>

theorem nic_info_groups:
  assumes "\<forall>e \<in> set es. \<forall>a. ifa_addr e = Some a \<longrightarrow> mac_fits a"
  shows "\<exists>infos. get_nic_info (Some es) = Inr infos \<and>
    map nic_name infos = first_names (map ifa_name (filter (\<lambda>e. ifa_addr e \<noteq> None) es)) \<and>
    (\<forall>info \<in> set infos.
       nic_ipv4 info = get_nic_addresses inet_of (Some es) (nic_name info) \<and>
       nic_ipv6 info = get_nic_addresses inet6_of (Some es) (nic_name info))"
proof (intro exI conjI ballI)
  have s: "summaries [] = []" by (simp add: summaries_def addressed_def)
  show "get_nic_info (Some es) = Inr (summaries es)"
    using nic_info_loop_summaries [OF assms, of "[]"] s by (simp add: get_nic_info_def)
  show "map nic_name (summaries es) = first_names (map ifa_name (filter (\<lambda>e. ifa_addr e \<noteq> None) es))"
    by (simp add: summaries_def comp_def addressed_def)
  have picks: "List.map_filter f (addresses_for es n) = get_nic_addresses f (Some es) n"
    for f :: "sockaddr \<Rightarrow> 'x option" and n
    by (induction es)
       (auto simp: addresses_for_def addressed_def get_nic_addresses_def nic_addresses_loop_eq
         List.map_filter_simps split: option.splits)
  fix info assume "info \<in> set (summaries es)"
  then obtain n where "info = summary es n" by (auto simp: summaries_def)
  then show "nic_ipv4 info = get_nic_addresses inet_of (Some es) (nic_name info)"
    and "nic_ipv6 info = get_nic_addresses inet6_of (Some es) (nic_name info)"
    using picks [of inet_of n] picks [of inet6_of n]
    by (simp_all add: summary_def apply_addresses_fields empty_nic_def)
qed

lemma nic_info_groups_witness:
  "\<exists>infos. get_nic_info (Some [\<lparr>ifa_name = ''lo'', ifa_addr = Some (Inet 1)\<rparr>,
       \<lparr>ifa_name = ''eth0'', ifa_addr = Some (Packet 6 [1, 2, 3, 4, 5, 6, 0, 0])\<rparr>,
       \<lparr>ifa_name = ''lo'', ifa_addr = Some (Inet 2)\<rparr>]) = Inr infos \<and> map nic_name infos = [''lo'', ''eth0'']"
  using nic_info_groups [of "[\<lparr>ifa_name = ''lo'', ifa_addr = Some (Inet 1)\<rparr>,
       \<lparr>ifa_name = ''eth0'', ifa_addr = Some (Packet 6 [1, 2, 3, 4, 5, 6, 0, 0])\<rparr>,
       \<lparr>ifa_name = ''lo'', ifa_addr = Some (Inet 2)\<rparr>]"]
  by (auto simp: mac_fits_def)

text \<open>A hardware address longer than the 8 bytes of \<^verbatim>\<open>sockaddr_ll\<close> (20 bytes on
  InfiniBand) makes \<^verbatim>\<open>get_nic_info\<close> read behind its local copy of the address, whatever
  the other entries are: the length byte is not checked.\<close>

theorem long_mac_undefined:
  assumes "e \<in> set es" and "ifa_addr e = Some (Packet halen bytes)" and "8 < unat halen"
  shows "get_nic_info (Some es) = Inl Undefined"
proof -
  have "\<not> mac_fits (Packet halen bytes)" using assms(3) by (simp add: mac_fits_def)
  then show ?thesis
    using nic_info_loop_undefined [of es "[]"] assms(1,2) by (auto simp: get_nic_info_def)
qed

lemma long_mac_undefined_witness:
  "get_nic_info (Some [\<lparr>ifa_name = ''ib0'', ifa_addr = Some (Packet 20 (replicate 8 0))\<rparr>]) = Inl Undefined"
  by (rule long_mac_undefined [of "\<lparr>ifa_name = ''ib0'', ifa_addr = Some (Packet 20 (replicate 8 0))\<rparr>"
        _ 20 "replicate 8 0"]) simp_all

text \<open>The retry loop asks again only after an overflow, each time with the size the system asked
  for, and at most \<^verbatim>\<open>retries\<close> times (once if that is 0): it returns the adapters exactly when
  one of these calls succeeds and all before it overflowed.\<close>

theorem adapters_retries:
  "get_adapters_addresses call retries = Inr as \<longleftrightarrow>
     (\<exists>j < max 1 retries. (\<forall>i < j. overflows call i) \<and> call (gaa_size call j) j = Gaa_Success as)"
  using adapters_loop_success [of call 0 retries as] by (simp add: get_adapters_addresses_def succeeds_def)

lemma adapters_retries_witness:
  "get_adapters_addresses (\<lambda>n k. if n < 20000 then Gaa_Overflow 20000 else Gaa_Success []) 2 = Inr [] \<and>
   get_adapters_addresses (\<lambda>n k. if n < 20000 then Gaa_Overflow 20000 else Gaa_Success []) 1 \<noteq> Inr []"
  unfolding adapters_retries by (auto simp: overflows_def intro!: exI [of _ 1])

text \<open>What the call is documented to answer: it has the adapters \<open>as k\<close> at call \<open>k\<close>, which take
  \<open>need k\<close> bytes (interfaces may come and go between calls); a buffer of this size is filled, a
  smaller one is refused with the size.\<close>

definition gaa_documented ::
  "(nat \<Rightarrow> nat \<Rightarrow> gaa_answer) \<Rightarrow> (nat \<Rightarrow> nat) \<Rightarrow> (nat \<Rightarrow> adapter list) \<Rightarrow> bool" where
  "gaa_documented call need as \<longleftrightarrow>
     (\<forall>k n. call n k = (if need k \<le> n then Gaa_Success (as k) else Gaa_Overflow (need k)))"

lemma adapters_loop_documented:
  assumes doc: "gaa_documented call need as"
  shows "(\<exists>j < max 1 retries. adapters_loop call k n retries = Inr (as (k + j))) \<or>
    adapters_loop call k n retries = Inl error_buffer_overflow \<and> n < need k \<and>
      (\<forall>j. Suc j < retries \<longrightarrow> need (k + j) < need (Suc (k + j)))"
proof (induction retries arbitrary: k n rule: less_induct)
  case (less retries)
  have call: "call n k = (if need k \<le> n then Gaa_Success (as k) else Gaa_Overflow (need k))"
    using doc by (simp add: gaa_documented_def)
  consider "need k \<le> n" | "n < need k" "retries \<le> 1" | "n < need k" "1 < retries" by linarith
  then show ?case
  proof cases
    case 1
    then have "adapters_loop call k n retries = Inr (as (k + 0))"
      using call by (subst adapters_loop.simps) simp
    then show ?thesis by (intro disjI1 exI [of _ 0]) simp
  next
    case 2
    then show ?thesis using call by (subst (2) adapters_loop.simps) simp
  next
    case 3
    have again: "adapters_loop call k n retries = adapters_loop call (Suc k) (need k) (retries - 1)"
      using call 3 by (subst adapters_loop.simps) simp
    have "retries - 1 < retries" using 3 by simp
    from less.IH [OF this, of "Suc k" "need k"] show ?thesis
    proof (elim disjE exE conjE)
      fix j assume "j < max 1 (retries - 1)"
        "adapters_loop call (Suc k) (need k) (retries - 1) = Inr (as (Suc k + j))"
      then show ?thesis using again 3 by (intro disjI1 exI [of _ "Suc j"]) auto
    next
      assume err: "adapters_loop call (Suc k) (need k) (retries - 1) = Inl error_buffer_overflow"
        and first: "need k < need (Suc k)"
        and grow: "\<forall>j. Suc j < retries - 1 \<longrightarrow> need (Suc k + j) < need (Suc (Suc k + j))"
      have "need (k + j) < need (Suc (k + j))" if "Suc j < retries" for j
        using that first grow by (cases j) auto
      then show ?thesis using err again 3 by simp
    qed
  qed
qed

text \<open>With such a system the loop ends with all adapters of one of the calls, unless they have grown
  before every call; then, and only then, it throws the code of the overflow.\<close>

theorem adapters_documented:
  assumes "gaa_documented call need as"
  shows "(\<exists>j < max 1 retries. get_adapters_addresses call retries = Inr (as j)) \<or>
    get_adapters_addresses call retries = Inl error_buffer_overflow \<and>
      15 * 1024 < need 0 \<and> (\<forall>j. Suc j < retries \<longrightarrow> need j < need (Suc j))"
  using adapters_loop_documented [OF assms, of retries 0 "15 * 1024"]
  by (simp add: get_adapters_addresses_def)

lemma adapters_documented_witness:
  "get_adapters_addresses (\<lambda>n k. if 20000 - k \<le> n then Gaa_Success [] else Gaa_Overflow (20000 - k)) 3 =
     Inr []"
  using adapters_documented [of "\<lambda>n k. if 20000 - k \<le> n then Gaa_Success [] else Gaa_Overflow (20000 - k)"
      "\<lambda>k. 20000 - k" "\<lambda>_. []" 3]
  by (fastforce simp: gaa_documented_def)

text \<open>On Windows the adapters are fetched once for each address family, with the flags of the
  first call's address type.  If the system leaves out what the flags skip, a later call for another
  type finds no address at all, whatever the interface has.\<close>

theorem cached_type_only:
  assumes first: "win_nic_addresses query family len name t retries None = (Inr res, cache)"
    and other: "t' \<noteq> t"
    and skips: "\<And>as a. query (flags_of t) = Inr as \<Longrightarrow> a \<in> set as \<Longrightarrow>
        (skip_unicast (flags_of t) \<longrightarrow> unicast_addresses a = []) \<and>
        (skip_anycast (flags_of t) \<longrightarrow> anycast_addresses a = []) \<and>
        (skip_multicast (flags_of t) \<longrightarrow> multicast_addresses a = [])"
  shows "win_nic_addresses query family len name' t' retries' cache = (Inr [], cache)"
proof -
  obtain as where q: "query (flags_of t) = Inr as" and c: "cache = Some as"
    using first by (auto simp: win_nic_addresses_def split: sum.splits)
  have none: "addresses_of t' a = []" if "a \<in> set as" for a
    using skips [OF q that] other
    by (cases t; cases t') (auto simp: addresses_of_def flags_of_def Let_def)
  have "adapter_addresses family len t' name' as = []"
    using none by (induction as) auto
  then show ?thesis using c by (simp add: win_nic_addresses_def)
qed

lemma cached_type_only_witness:
  "win_nic_addresses (\<lambda>f. Inr [\<lparr>friendly_name = [], physical_address = [],
       unicast_addresses = if skip_unicast f then [] else [(Inet 1, 16)], anycast_addresses = [],
       multicast_addresses = if skip_multicast f then [] else [(Inet 2, 16)]\<rparr>]) inet_of 4 [] Multicast 3
     (snd (win_nic_addresses (\<lambda>f. Inr [\<lparr>friendly_name = [], physical_address = [],
       unicast_addresses = if skip_unicast f then [] else [(Inet 1, 16)], anycast_addresses = [],
       multicast_addresses = if skip_multicast f then [] else [(Inet 2, 16)]\<rparr>]) inet_of 4 [] Unicast 3 None)) =
   (Inr [], snd (win_nic_addresses (\<lambda>f. Inr [\<lparr>friendly_name = [], physical_address = [],
       unicast_addresses = if skip_unicast f then [] else [(Inet 1, 16)], anycast_addresses = [],
       multicast_addresses = if skip_multicast f then [] else [(Inet 2, 16)]\<rparr>]) inet_of 4 [] Unicast 3 None))"
  by (rule cached_type_only [where t = Unicast and name = "[]" and retries = 3 and res = "[1]"])
     (auto simp: win_nic_addresses_def flags_of_def addresses_of_def Let_def)

end
