(* ===== verification/Thread_Affinity.thy ===== *)
theory Thread_Affinity
  imports Flags "HOL-Library.Signed_Division"
begin

text \<open>
  \<^verbatim>\<open>utils/thread.hpp\<close> with \<^verbatim>\<open>utils/posix/thread.cpp\<close> and
  \<^verbatim>\<open>utils/win/thread.cpp\<close>: CPU sets and priorities of a thread.  The calls of the system
  are parameters; a CPU set is its array of 64-bit words, as the macros of \<^verbatim>\<open>sched.h\<close> lay it
  out.  An error code is its number, 0 for none.
\<close>

type_synonym cpu_words = "64 word list"


section \<open>The macros of sched.h\<close>

text \<open>\<^verbatim>\<open>CPU_ALLOC_SIZE(n)\<close> is 8 bytes for each word of the set.\<close>

definition cpu_alloc_words :: "nat \<Rightarrow> nat" where
  "cpu_alloc_words n = (n + 63) div 64"

definition cpu_alloc_size :: "nat \<Rightarrow> nat" where
  "cpu_alloc_size n = 8 * cpu_alloc_words n"

definition cpu_zero :: "nat \<Rightarrow> cpu_words" where
  "cpu_zero setsize = replicate (setsize div 8) 0"

text \<open>The macros test the CPU against the size they are given, in bytes; the access is to the array
  there is.\<close>

definition cpu_set_s :: "nat \<Rightarrow> nat \<Rightarrow> cpu_words \<Rightarrow> cpu_words outcome" where
  "cpu_set_s cpu setsize ws =
     (if cpu div 8 < setsize then
        (if cpu div 64 < length ws
         then Inr (ws[cpu div 64 := (ws ! (cpu div 64)) OR flag_bit (cpu mod 64)])
         else Inl Undefined)
      else Inr ws)"

definition cpu_isset_s :: "nat \<Rightarrow> nat \<Rightarrow> cpu_words \<Rightarrow> bool outcome" where
  "cpu_isset_s cpu setsize ws =
     (if cpu div 8 < setsize then
        (if cpu div 64 < length ws then Inr (bit (ws ! (cpu div 64)) (cpu mod 64)) else Inl Undefined)
      else Inr False)"


section \<open>POSIX\<close>

text \<open>\<^verbatim>\<open>cpu_set_t\<close> of \<^verbatim>\<open>pin_thread_to_core\<close> has 128 bytes.\<close>

definition pin_thread_to_core :: "(cpu_words \<Rightarrow> nat) \<Rightarrow> nat \<Rightarrow> nat outcome" where
  "pin_thread_to_core setaffinity core_id =
     obind (cpu_set_s core_id 128 (cpu_zero 128)) (\<lambda>ws. Inr (setaffinity ws))"

definition get_thread_afinity :: "nat + cpu_words \<Rightarrow> nat" where
  "get_thread_afinity getaffinity = (case getaffinity of Inl err \<Rightarrow> err | Inr _ \<Rightarrow> 0)"

text \<open>The loop runs from the last id to the first.\<close>

fun set_cpus :: "nat \<Rightarrow> nat list \<Rightarrow> nat \<Rightarrow> cpu_words \<Rightarrow> cpu_words outcome" where
  "set_cpus nprocs cpu_ids 0 ws = Inr ws"
| "set_cpus nprocs cpu_ids (Suc n) ws =
     obind (cpu_set_s (cpu_ids ! n) nprocs ws) (set_cpus nprocs cpu_ids n)"

text \<open>\<open>alloc\<close> is the error \<^verbatim>\<open>CPU_ALLOC\<close> fails with, if it does
  (\<^verbatim>\<open>errno\<close>, or 12 for \<^verbatim>\<open>not_enough_memory\<close> if that is 0).\<close>

definition alloc_error :: "nat \<Rightarrow> nat" where
  "alloc_error errno = (if errno \<noteq> 0 then errno else 12)"

definition set_thread_cpu_set :: "nat \<Rightarrow> nat option \<Rightarrow> (cpu_words \<Rightarrow> nat) \<Rightarrow> nat list \<Rightarrow> nat outcome" where
  "set_thread_cpu_set nprocs alloc setaffinity cpu_ids =
     (if nprocs = 0 then Inl Assert_Failed
      else
        (case alloc of
           Some errno \<Rightarrow> Inr (alloc_error errno)
         | None \<Rightarrow>
             obind (set_cpus nprocs cpu_ids (length cpu_ids) (cpu_zero (cpu_alloc_size nprocs)))
               (\<lambda>ws. Inr (setaffinity ws))))"

text \<open>An error of the query is thrown, with its code.\<close>

fun get_cpus :: "nat \<Rightarrow> cpu_words \<Rightarrow> nat list \<Rightarrow> nat list outcome" where
  "get_cpus nprocs ws [] = Inr []"
| "get_cpus nprocs ws (cpu # cpus) =
     obind (cpu_isset_s cpu nprocs ws) (\<lambda>on.
     obind (get_cpus nprocs ws cpus) (\<lambda>res. Inr (if on then cpu # res else res)))"

definition get_thread_cpu_set :: "nat \<Rightarrow> nat option \<Rightarrow> nat + cpu_words \<Rightarrow> (nat + nat list) outcome" where
  "get_thread_cpu_set nprocs alloc getaffinity =
     (if nprocs = 0 then Inl Assert_Failed
      else
        (case alloc of
           Some errno \<Rightarrow> Inr (Inl (alloc_error errno))
         | None \<Rightarrow>
             (case getaffinity of
                Inl err \<Rightarrow> Inr (Inl err)
              | Inr ws \<Rightarrow> obind (get_cpus nprocs ws [0..<nprocs]) (\<lambda>cpus. Inr (Inr cpus)))))"

datatype priority = Low | Normal | Highest
datatype sched_policy = Sched_Other | Sched_RR

text \<open>The policy and priority of \<^verbatim>\<open>pthread_setschedparam\<close>.\<close>

definition sched_params :: "(sched_policy \<Rightarrow> int) \<Rightarrow> (sched_policy \<Rightarrow> int) \<Rightarrow> priority \<Rightarrow> sched_policy \<times> int" where
  "sched_params prio_min prio_max prio =
     (let low = prio_min Sched_Other in
      case prio of
        Low \<Rightarrow> (Sched_Other, low)
      | Highest \<Rightarrow> (Sched_RR, prio_max Sched_RR)
      | Normal \<Rightarrow> (Sched_Other, (low + prio_max Sched_Other) sdiv 2))"

definition set_thread_priority ::
  "(sched_policy \<Rightarrow> int) \<Rightarrow> (sched_policy \<Rightarrow> int) \<Rightarrow> (sched_policy \<Rightarrow> int \<Rightarrow> nat) \<Rightarrow> priority \<Rightarrow> nat" where
  "set_thread_priority prio_min prio_max setschedparam prio =
     (let (policy, level) = sched_params prio_min prio_max prio in setschedparam policy level)"

text \<open>The overload for a number changes the priority under the policy the thread has.\<close>

definition set_thread_priority_level :: "(int \<Rightarrow> nat) \<Rightarrow> int \<Rightarrow> nat" where
  "set_thread_priority_level setschedprio level =
     (let error = setschedprio level in if error = 0 then 0 else error)"


section \<open>Windows\<close>

text \<open>Calls that answer success or failure; the code of a failure is asked for then.\<close>

definition win_code :: "bool \<Rightarrow> nat \<Rightarrow> nat" where
  "win_code ok last_error = (if ok then 0 else last_error)"

definition win_priority :: "priority \<Rightarrow> nat \<times> int" where
  "win_priority prio =
     (case prio of
        Low \<Rightarrow> (0x20, - 1)
      | Highest \<Rightarrow> (0x100, 15)
      | Normal \<Rightarrow> (0x20, 0))"

text \<open>The processor number is a \<^verbatim>\<open>DWORD\<close>, the result an \<^verbatim>\<open>int\<close>.\<close>

definition win_getcpu_id :: "32 word \<Rightarrow> int" where
  "win_getcpu_id current_processor = sint current_processor"

text \<open>Each call is given with the code \<^verbatim>\<open>GetLastError\<close> has after it.
  \<^verbatim>\<open>SetThreadIdealProcessor\<close> answers the former processor, or all ones for a failure;
  \<^verbatim>\<open>SetThreadAffinityMask\<close> the former mask, or zero.\<close>

definition win_pin_thread_to_core :: "(32 word \<Rightarrow> 32 word \<times> nat) \<Rightarrow> 32 word \<Rightarrow> nat" where
  "win_pin_thread_to_core set_ideal core_id =
     (let (former, err) = set_ideal core_id in win_code (former \<noteq> - 1) err)"

definition win_set_thread_afinity :: "(64 word \<Rightarrow> 64 word \<times> nat) \<Rightarrow> 64 word \<Rightarrow> nat" where
  "win_set_thread_afinity set_mask afinity_mask =
     (let (former, err) = set_mask afinity_mask in win_code (former \<noteq> 0) err)"

text \<open>The system is told the number of ids in 32 bits; both overloads have the same body.\<close>

definition win_set_thread_cpu_set :: "('ids \<Rightarrow> 32 word \<Rightarrow> bool \<times> nat) \<Rightarrow> 'ids \<Rightarrow> 64 word \<Rightarrow> nat" where
  "win_set_thread_cpu_set set_selected cpu_ids n =
     (let (ok, err) = set_selected cpu_ids (ucast n) in win_code ok err)"

definition win_set_thread_priority_level :: "(int \<Rightarrow> bool \<times> nat) \<Rightarrow> int \<Rightarrow> nat" where
  "win_set_thread_priority_level set_priority level =
     (let (ok, err) = set_priority level in win_code ok err)"

text \<open>The class of the process first, then the priority of the thread.\<close>

definition win_set_thread_priority :: "(nat \<Rightarrow> bool \<times> nat) \<Rightarrow> (int \<Rightarrow> bool \<times> nat) \<Rightarrow> priority \<Rightarrow> nat" where
  "win_set_thread_priority set_class set_priority prio =
     (let (cls, p) = win_priority prio; (ok, err) = set_class cls in
      if \<not> ok then win_code False err else win_set_thread_priority_level set_priority p)"

text \<open>\<^verbatim>\<open>get_thread_cpu_set\<close> with a buffer: the code, and the number of ids the system
  reports; the ids go into the buffer.  \<open>call k cap\<close> is the answer to the call number \<open>k\<close> with room
  for \<open>cap\<close> ids: whether it succeeded, what it wrote, the number it reports and the last error.\<close>

record cpu_sets_answer =
  answer_ok :: bool
  answer_ids :: "32 word list"
  answer_count :: nat
  answer_error :: nat

definition win_get_into :: "cpu_sets_answer \<Rightarrow> nat \<times> nat" where
  "win_get_into a = (win_code (answer_ok a) (answer_error a), answer_count a)"

definition win_get_thread_cpu_set :: "(nat \<Rightarrow> nat \<Rightarrow> cpu_sets_answer) \<Rightarrow> (nat + 32 word list) outcome" where
  "win_get_thread_cpu_set call =
     (let (err, n) = win_get_into (call 0 0) in
      if err = 0 then (if n = 0 then Inr (Inr []) else Inl Assert_Failed)
      else if err = 122 then
        (let a = call 1 n; (err', _) = win_get_into a in
         if err' \<noteq> 0 then Inr (Inl err')
         else Inr (Inr (take n (answer_ids a) @ replicate (n - length (answer_ids a)) 0)))
      else Inr (Inl err))"


section \<open>The bits of a set\<close>

definition cpu_on :: "cpu_words \<Rightarrow> nat \<Rightarrow> bool" where
  "cpu_on ws cpu = (cpu div 64 < length ws \<and> bit (ws ! (cpu div 64)) (cpu mod 64))"

lemma cpu_on_zero [simp]: "\<not> cpu_on (cpu_zero n) cpu"
  by (auto simp: cpu_on_def cpu_zero_def)

lemma length_cpu_zero [simp]: "length (cpu_zero (cpu_alloc_size n)) = cpu_alloc_words n"
  by (simp add: cpu_zero_def cpu_alloc_size_def)

lemma cpu_set_s_on:
  assumes "cpu_set_s cpu setsize ws = Inr ws'"
  shows "length ws' = length ws"
    and "cpu_on ws' k \<longleftrightarrow> cpu_on ws k \<or> (k = cpu \<and> cpu div 8 < setsize)"
proof -
  show "length ws' = length ws"
    using assms by (auto simp: cpu_set_s_def split: if_splits)
  show "cpu_on ws' k \<longleftrightarrow> cpu_on ws k \<or> (k = cpu \<and> cpu div 8 < setsize)"
  proof (cases "cpu div 8 < setsize")
    case False
    then show ?thesis using assms by (auto simp: cpu_set_s_def)
  next
    case True
    then have inside: "cpu div 64 < length ws"
      and ws': "ws' = ws[cpu div 64 := (ws ! (cpu div 64)) OR flag_bit (cpu mod 64)]"
      using assms by (auto simp: cpu_set_s_def split: if_splits)
    have same: "k = cpu \<longleftrightarrow> k div 64 = cpu div 64 \<and> k mod 64 = cpu mod 64"
      by (metis div_mult_mod_eq)
    show ?thesis
      using True inside same by (auto simp: cpu_on_def ws' nth_list_update bit_or_iff)
  qed
qed

lemma set_cpus_on:
  assumes "n \<le> length ids" and "\<forall>cid \<in> set ids. cid div 8 < nprocs \<longrightarrow> cid div 64 < length ws"
  shows "\<exists>ws'. set_cpus nprocs ids n ws = Inr ws' \<and> length ws' = length ws \<and>
    (\<forall>k. cpu_on ws' k \<longleftrightarrow> cpu_on ws k \<or> (k \<in> set (take n ids) \<and> k div 8 < nprocs))"
  using assms
proof (induction n arbitrary: ws)
  case (Suc n)
  then have n: "n < length ids" "ids ! n \<in> set ids" by auto
  then have "ids ! n div 8 < nprocs \<longrightarrow> ids ! n div 64 < length ws" using Suc.prems(2) by blast
  then have "\<exists>ws1. cpu_set_s (ids ! n) nprocs ws = Inr ws1" by (simp add: cpu_set_s_def)
  then obtain ws1 where ws1: "cpu_set_s (ids ! n) nprocs ws = Inr ws1" ..
  note on1 = cpu_set_s_on [OF ws1]
  obtain ws' where ws': "set_cpus nprocs ids n ws1 = Inr ws'" "length ws' = length ws1"
      "\<forall>k. cpu_on ws' k \<longleftrightarrow> cpu_on ws1 k \<or> (k \<in> set (take n ids) \<and> k div 8 < nprocs)"
    using Suc.IH [of ws1] Suc.prems on1(1) by auto
  have "set (take (Suc n) ids) = insert (ids ! n) (set (take n ids))"
    using n(1) by (simp add: take_Suc_conv_app_nth)
  then show ?case using ws1 ws' on1 by auto
qed simp

lemma set_cpus_undefined:
  assumes "n \<le> length ids" and "cid \<in> set (take n ids)" and "cid div 8 < nprocs" and "length ws \<le> cid div 64"
  shows "set_cpus nprocs ids n ws = Inl Undefined"
  using assms
proof (induction n arbitrary: ws)
  case (Suc n)
  show ?case
  proof (cases "cpu_set_s (ids ! n) nprocs ws")
    case (Inl e)
    then show ?thesis by (auto simp: cpu_set_s_def split: if_splits)
  next
    case (Inr ws1)
    have "ids ! n \<noteq> cid" using Inr Suc.prems(3,4) by (auto simp: cpu_set_s_def split: if_splits)
    then have "cid \<in> set (take n ids)" using Suc.prems(1,2) by (auto simp: take_Suc_conv_app_nth)
    then show ?thesis using Inr Suc cpu_set_s_on(1) [OF Inr] by simp
  qed
qed simp

lemma get_cpus_on:
  "\<forall>c \<in> set cpus. c div 8 < nprocs \<and> c div 64 < length ws \<Longrightarrow>
     get_cpus nprocs ws cpus = Inr (filter (cpu_on ws) cpus)"
  by (induction cpus) (auto simp: cpu_isset_s_def cpu_on_def)

lemma below_nprocs: "c < nprocs \<Longrightarrow> c div 8 < nprocs \<and> c div 64 < cpu_alloc_words nprocs"
proof
  assume c: "c < nprocs"
  then show "c div 8 < nprocs" using div_le_dividend [of c 8] by linarith
  show "c div 64 < cpu_alloc_words nprocs"
    unfolding cpu_alloc_words_def using c by linarith
qed

end
