(* ===== verification/Thread_Properties.thy ===== *)
theory Thread_Properties
  imports Thread_Affinity
begin

text \<open>Properties of the CPU sets: the mask the system is given, the ids read back, and the access
  behind the mask.\<close>

text \<open>C26: for ids of configured processors, \<^verbatim>\<open>set_thread_cpu_set\<close> passes the system a mask of
  the size it allocated with exactly these processors, and \<^verbatim>\<open>get_thread_cpu_set\<close> reads
  from such a mask exactly these ids, ascending.\<close>

theorem cpu_set_roundtrip:
  assumes "nprocs \<noteq> 0" and "\<forall>cid \<in> set ids. cid < nprocs"
  shows "\<exists>ws. set_thread_cpu_set nprocs None setaffinity ids = Inr (setaffinity ws) \<and>
    length ws = cpu_alloc_words nprocs \<and> (\<forall>k. cpu_on ws k \<longleftrightarrow> k \<in> set ids) \<and>
    get_thread_cpu_set nprocs None (Inr ws) = Inr (Inr (filter (\<lambda>k. k \<in> set ids) [0..<nprocs]))"
proof -
  let ?z = "cpu_zero (cpu_alloc_size nprocs)"
  have "\<forall>cid \<in> set ids. cid div 8 < nprocs \<longrightarrow> cid div 64 < length ?z"
    using assms(2) below_nprocs by auto
  then obtain ws where ws: "set_cpus nprocs ids (length ids) ?z = Inr ws" "length ws = cpu_alloc_words nprocs"
      "\<forall>k. cpu_on ws k \<longleftrightarrow> k \<in> set ids \<and> k div 8 < nprocs"
    using set_cpus_on [of "length ids" ids nprocs ?z] by auto
  then have on: "cpu_on ws k \<longleftrightarrow> k \<in> set ids" for k using assms(2) below_nprocs by blast
  have "get_cpus nprocs ws [0..<nprocs] = Inr (filter (cpu_on ws) [0..<nprocs])"
    using below_nprocs ws(2) by (intro get_cpus_on) auto
  moreover have "cpu_on ws = (\<lambda>k. k \<in> set ids)" using on by (simp add: fun_eq_iff)
  ultimately show ?thesis
    using assms(1) ws on by (intro exI [of _ ws]) (simp add: set_thread_cpu_set_def get_thread_cpu_set_def)
qed

lemma cpu_set_roundtrip_witness:
  "\<exists>ws. set_thread_cpu_set 4 None (\<lambda>_. 0) [2, 0] = Inr 0 \<and>
     get_thread_cpu_set 4 None (Inr ws) = Inr (Inr [0, 2])"
  using cpu_set_roundtrip [of 4 "[2, 0]" "\<lambda>_. 0"] by (auto simp: upt_rec numeral_2_eq_2)

text \<open>\<^verbatim>\<open>CPU_SET_S\<close> is given the number of processors where it expects the size of the set
  in bytes, so an id that is no processor's is written behind the set instead of being ignored: with
  \<open>n\<close> processors, every id from the end of the allocated set up to \<open>8 n\<close> is undefined
  behaviour.\<close>

theorem cpu_set_out_of_bounds:
  assumes "nprocs \<noteq> 0" and "cid \<in> set ids" and "64 * cpu_alloc_words nprocs \<le> cid" and "cid < 8 * nprocs"
  shows "set_thread_cpu_set nprocs None setaffinity ids = Inl Undefined"
proof -
  have "cid div 8 < nprocs" "cpu_alloc_words nprocs \<le> cid div 64"
    using assms(3,4) by linarith+
  then have "set_cpus nprocs ids (length ids) (cpu_zero (cpu_alloc_size nprocs)) = Inl Undefined"
    using assms(2) by (intro set_cpus_undefined [where cid = cid]) auto
  then show ?thesis using assms(1) by (simp add: set_thread_cpu_set_def)
qed

lemma cpu_set_out_of_bounds_witness: "set_thread_cpu_set 16 None (\<lambda>_. 0) [3, 64] = Inl Undefined"
  by (rule cpu_set_out_of_bounds [of _ 64]) (simp_all add: cpu_alloc_words_def)

text \<open>\<^verbatim>\<open>pin_thread_to_core\<close> passes the system a mask with exactly the given core for
  ids the fixed 1024-bit mask has room for, and the empty mask for every other id, without an access
  behind the mask.\<close>

theorem pin_mask:
  "\<exists>ws. pin_thread_to_core setaffinity core_id = Inr (setaffinity ws) \<and> length ws = 16 \<and>
     (\<forall>k. cpu_on ws k \<longleftrightarrow> k = core_id \<and> core_id < 1024)"
proof -
  have "core_id div 8 < 128 \<longleftrightarrow> core_id < 1024" by linarith
  moreover have len: "length (cpu_zero 128) = 16" by (simp add: cpu_zero_def)
  moreover have "core_id div 64 < 16 \<longleftrightarrow> core_id < 1024" by linarith
  ultimately obtain ws where ws: "cpu_set_s core_id 128 (cpu_zero 128) = Inr ws"
    by (cases "core_id < 1024") (simp_all add: cpu_set_s_def)
  show ?thesis
    using cpu_set_s_on [OF ws] ws len \<open>core_id div 8 < 128 \<longleftrightarrow> core_id < 1024\<close>
    by (auto simp: pin_thread_to_core_def)
qed

text \<open>\<^verbatim>\<open>set_thread_cpu_set\<close> on Windows tells the system the low 32 bits of the number
  of ids, so a multiple of 2^32 ids becomes no id, which takes the restriction off the thread.\<close>

lemma win_cpu_set_count:
  "\<exists>count. win_set_thread_cpu_set set_selected cpu_ids n =
       win_code (fst (set_selected cpu_ids count)) (snd (set_selected cpu_ids count)) \<and>
     unat count = unat n mod 2 ^ 32"
proof -
  have "unat (ucast n :: 32 word) = unat n mod 2 ^ 32"
    by (simp add: unsigned_ucast_eq take_bit_eq_mod)
  then show ?thesis
    by (intro exI [of _ "ucast n"]) (simp add: win_set_thread_cpu_set_def split_def Let_def)
qed

text \<open>\<^verbatim>\<open>get_thread_cpu_set\<close> on Windows, with a system that at call \<open>k\<close> has the selected sets
  \<open>sets k\<close> and answers as documented.  The result has the size of the first answer: if sets were
  taken away before the second call, the ids are followed by zeros, and if sets were added the second
  error is thrown.\<close>

definition selected_documented :: "(nat \<Rightarrow> nat \<Rightarrow> cpu_sets_answer) \<Rightarrow> (nat \<Rightarrow> 32 word list) \<Rightarrow> bool" where
  "selected_documented call sets \<longleftrightarrow>
     (\<forall>k cap. call k cap =
        (if length (sets k) \<le> cap
         then \<lparr>answer_ok = True, answer_ids = sets k, answer_count = length (sets k), answer_error = 0\<rparr>
         else \<lparr>answer_ok = False, answer_ids = [], answer_count = length (sets k), answer_error = 122\<rparr>))"

theorem win_selected_sets:
  assumes "selected_documented call sets"
  shows "win_get_thread_cpu_set call =
    (if sets 0 = [] then Inr (Inr [])
     else if length (sets 1) \<le> length (sets 0)
     then Inr (Inr (sets 1 @ replicate (length (sets 0) - length (sets 1)) 0))
     else Inr (Inl 122))"
  using assms
  by (simp add: win_get_thread_cpu_set_def win_get_into_def win_code_def selected_documented_def)

lemma win_selected_sets_witness:
  "win_get_thread_cpu_set (\<lambda>k cap.
     if length (if k = 0 then [1, 2] else [7 :: 32 word]) \<le> cap
     then \<lparr>answer_ok = True, answer_ids = (if k = 0 then [1, 2] else [7]),
            answer_count = length (if k = 0 then [1, 2] else [7 :: 32 word]), answer_error = 0\<rparr>
     else \<lparr>answer_ok = False, answer_ids = [],
            answer_count = length (if k = 0 then [1, 2] else [7 :: 32 word]), answer_error = 122\<rparr>) =
   Inr (Inr [7, 0])"
  by (subst win_selected_sets [of _ "\<lambda>k. if k = 0 then [1, 2] else [7]"])
     (simp_all add: selected_documented_def)

end
