(* ===== verification/Sys_Info.thy ===== *)
theory Sys_Info
  imports Fb_Prelude "HOL-Library.Word"
begin

text \<open>
  \<^verbatim>\<open>utils/sysinfo.hpp\<close> with \<^verbatim>\<open>utils/win/sysinfo.cpp\<close> and
  \<^verbatim>\<open>utils/posix/sysinfo.cpp\<close>: the topology of the processors, read from a buffer of
  records of different lengths.  What the system answers is a parameter: a buffer is its length and
  the record its bytes are at every offset.  The walk over a buffer and the loop that grows one may
  run for ever and are partial functions.
\<close>

section \<open>Buffers and records\<close>

text \<open>\<^verbatim>\<open>make_bytesize_vector\<close> of \<^verbatim>\<open>buffer.hpp\<close>: that many bytes, all zero.
  Where its allocator puts them is not a value the code reads.\<close>

definition make_bytesize_vector :: "nat \<Rightarrow> 8 word list" where
  "make_bytesize_vector size_in_bytes = replicate size_in_bytes 0"

datatype relationship =
    Relation_Processor_Core
  | Relation_Numa_Node
  | Relation_Cache
  | Relation_Numa_Node_Ex
  | Relation_Other

record group_afinity =
  aff_group :: "16 word"
  aff_mask :: "64 word"

text \<open>\<^verbatim>\<open>SYSTEM_LOGICAL_PROCESSOR_INFORMATION_EX\<close> with the members the code reads of its
  variants; \<open>lp_masks\<close> is the array of group masks of a node or a core.\<close>

record lp_record =
  lp_relationship :: relationship
  lp_size :: nat
  lp_cache_level :: "8 word"
  lp_cache_line :: "16 word"
  lp_numa_node :: nat
  lp_efficiency :: "8 word"
  lp_group_count :: nat
  lp_masks :: "nat \<Rightarrow> group_afinity"

record lp_buffer =
  lpb_size :: nat
  lpb_at :: "nat \<Rightarrow> lp_record"

datatype lp_answer =
    Lp_Success nat "nat \<Rightarrow> lp_record"
  | Lp_Failure nat nat

text \<open>The loop that asks again with the size the system asked for (122 is
  \<^verbatim>\<open>ERROR_INSUFFICIENT_BUFFER\<close>), for as long as the system says so.  \<open>call k n\<close> is
  the answer to call \<open>k\<close> with a buffer of \<open>n\<close> bytes: the size and the records, or the error and
  the size.  The inner sum is the error code the caller gets.\<close>

partial_function (option) lp_loop ::
  "(nat \<Rightarrow> nat \<Rightarrow> lp_answer) \<Rightarrow> nat \<Rightarrow> nat \<Rightarrow> (nat + lp_buffer) outcome option"
where
  "lp_loop call k n =
     (case call k n of
        Lp_Success size' at \<Rightarrow> Some (Inr (Inr \<lparr>lpb_size = size', lpb_at = at\<rparr>))
      | Lp_Failure err size' \<Rightarrow>
          if err = 122 then lp_loop call (Suc k) size'
          else if err = 0 then Some (Inl Assert_Failed)
          else Some (Inr (Inl err)))"

text \<open>\<open>entry\<close> is the error \<^verbatim>\<open>GetProcAddress\<close> fails with, if it does;
  \<open>elem\<close> is the size of the record type.  A failure with error code 0 is an
  \<^verbatim>\<open>error_code\<close> that says there is none: the caller gets an empty buffer.\<close>

definition no_records :: "nat \<Rightarrow> lp_record" where
  "no_records p = \<lparr>lp_relationship = Relation_Other, lp_size = 0, lp_cache_level = 0, lp_cache_line = 0,
     lp_numa_node = 0, lp_efficiency = 0, lp_group_count = 0,
     lp_masks = (\<lambda>_. \<lparr>aff_group = 0, aff_mask = 0\<rparr>)\<rparr>"

definition logical_processor_info ::
  "nat option \<Rightarrow> nat \<Rightarrow> (nat \<Rightarrow> nat \<Rightarrow> lp_answer) \<Rightarrow> (nat + lp_buffer) outcome option" where
  "logical_processor_info entry elem call =
     (case entry of
        Some err \<Rightarrow>
          if err = 0 then Some (Inr (Inr \<lparr>lpb_size = 0, lpb_at = no_records\<rparr>))
          else Some (Inr (Inl err))
      | None \<Rightarrow> lp_loop call 0 (length (make_bytesize_vector (5 * elem))))"


section \<open>Walking a buffer\<close>

text \<open>\<^verbatim>\<open>for (info = data; info < end; info += info->Size)\<close> with a body that goes on with
  a new value or returns one.\<close>

partial_function (option) walk ::
  "(nat \<Rightarrow> 'r) \<Rightarrow> ('r \<Rightarrow> nat) \<Rightarrow> ('r \<Rightarrow> 'a \<Rightarrow> ('a \<times> bool) outcome) \<Rightarrow> nat \<Rightarrow> nat \<Rightarrow> 'a \<Rightarrow> 'a outcome option"
where
  "walk at sz body e p acc =
     (if p < e then
        (case body (at p) acc of
           Inl f \<Rightarrow> Some (Inl f)
         | Inr r \<Rightarrow> if snd r then Some (Inr (fst r)) else walk at sz body e (p + sz (at p)) (fst r))
      else Some (Inr acc))"

definition cache_line_body :: "lp_record \<Rightarrow> nat \<Rightarrow> (nat \<times> bool) outcome" where
  "cache_line_body info res =
     (if lp_relationship info = Relation_Cache \<and> lp_cache_level info = 1
      then Inr (unat (lp_cache_line info), True) else Inr (res, False))"

definition cache_line_size :: "(nat + lp_buffer) outcome option \<Rightarrow> nat outcome option" where
  "cache_line_size info =
     (case info of
        None \<Rightarrow> None
      | Some (Inl f) \<Rightarrow> Some (Inl f)
      | Some (Inr (Inl err)) \<Rightarrow> Some (Inr 64)
      | Some (Inr (Inr b)) \<Rightarrow> walk (lpb_at b) lp_size cache_line_body (lpb_size b) 0 64)"

text \<open>A node that reports no group has one: older systems leave the count 0.\<close>

definition numa_body :: "nat \<Rightarrow> lp_record \<Rightarrow> group_afinity list \<Rightarrow> (group_afinity list \<times> bool) outcome" where
  "numa_body node info res =
     (if lp_relationship info \<noteq> Relation_Numa_Node \<and> lp_relationship info \<noteq> Relation_Numa_Node_Ex
      then Inl Assert_Failed
      else if node = lp_numa_node info then
        (let n = (if lp_group_count info = 0 then 1 else lp_group_count info) in
         Inr (res @ map (lp_masks info) [0..<n], False))
      else Inr (res, False))"

text \<open>The query for \<^verbatim>\<open>RelationNumaNodeEx\<close>, and the one for
  \<^verbatim>\<open>RelationNumaNode\<close> if the first fails.  An error of the second is thrown.\<close>

definition numa_node_workset ::
  "(relationship \<Rightarrow> (nat + lp_buffer) outcome option) \<Rightarrow> nat \<Rightarrow> (nat + group_afinity list) outcome option"
where
  "numa_node_workset info node =
     (let second = (case info Relation_Numa_Node_Ex of
           Some (Inr (Inl err)) \<Rightarrow> info Relation_Numa_Node
         | r \<Rightarrow> r)
      in case second of
           None \<Rightarrow> None
         | Some (Inl f) \<Rightarrow> Some (Inl f)
         | Some (Inr (Inl err)) \<Rightarrow> Some (Inr (Inl err))
         | Some (Inr (Inr b)) \<Rightarrow>
             map_option (\<lambda>r. obind r (\<lambda>x. Inr (Inr x)))
               (walk (lpb_at b) lp_size (numa_body node) (lpb_size b) 0 []))"

record core_info =
  efficency_class :: "16 word"
  core_groups :: "group_afinity list"

definition core_body :: "lp_record \<Rightarrow> core_info list \<Rightarrow> (core_info list \<times> bool) outcome" where
  "core_body info res =
     (if lp_relationship info \<noteq> Relation_Processor_Core then Inl Assert_Failed
      else Inr (res @ [\<lparr>efficency_class = ucast (lp_efficiency info),
                       core_groups = map (lp_masks info) [0..<lp_group_count info]\<rparr>], False))"

definition cores_info :: "(nat + lp_buffer) outcome option \<Rightarrow> (nat + core_info list) outcome option" where
  "cores_info info =
     (case info of
        None \<Rightarrow> None
      | Some (Inl f) \<Rightarrow> Some (Inl f)
      | Some (Inr (Inl err)) \<Rightarrow> Some (Inr (Inl err))
      | Some (Inr (Inr b)) \<Rightarrow>
          map_option (\<lambda>r. obind r (\<lambda>x. Inr (Inr x)))
            (walk (lpb_at b) lp_size core_body (lpb_size b) 0 []))"


section \<open>CPU sets\<close>

text \<open>\<^verbatim>\<open>SYSTEM_CPU_SET_INFORMATION\<close> and the entry made of one of the CPU set type; a
  one-bit flag keeps the lowest bit.\<close>

record cpu_set_record =
  cs_is_cpu_set :: bool
  cs_size :: nat
  cs_id :: "32 word"
  cs_group :: "16 word"
  cs_logical :: "8 word"
  cs_core :: "8 word"
  cs_numa :: "8 word"
  cs_efficiency :: "8 word"
  cs_parked :: bool
  cs_allocated :: bool
  cs_to_target :: bool
  cs_real_time :: bool

record cpu_info =
  ci_id :: "16 word"
  ci_group :: "16 word"
  ci_cpu_ix :: "8 word"
  ci_core_ix :: "8 word"
  ci_numa_node :: "8 word"
  ci_efficiency_class :: "8 word"
  ci_parked :: bool
  ci_allocated :: bool
  ci_to_target :: bool
  ci_real_time :: bool

definition cpu_info_of :: "cpu_set_record \<Rightarrow> cpu_info" where
  "cpu_info_of r =
     \<lparr>ci_id = ucast (cs_id r), ci_group = cs_group r, ci_cpu_ix = cs_logical r, ci_core_ix = cs_core r,
      ci_numa_node = cs_numa r, ci_efficiency_class = cs_efficiency r, ci_parked = cs_parked r,
      ci_allocated = cs_allocated r, ci_to_target = cs_to_target r, ci_real_time = cs_real_time r\<rparr>"

definition cpu_body :: "cpu_set_record \<Rightarrow> cpu_info list \<Rightarrow> (cpu_info list \<times> bool) outcome" where
  "cpu_body r res = Inr (if cs_is_cpu_set r then res @ [cpu_info_of r] else res, False)"

text \<open>Two calls at most: the second with the size the first asked for.  An error is thrown with its
  code.\<close>

datatype cs_answer =
    Cs_Success nat "nat \<Rightarrow> cpu_set_record"
  | Cs_Failure nat nat

definition cpu_set_query :: "nat \<Rightarrow> (nat \<Rightarrow> nat \<Rightarrow> cs_answer) \<Rightarrow> nat + (nat \<times> (nat \<Rightarrow> cpu_set_record))" where
  "cpu_set_query first_size call =
     (case call 0 first_size of
        Cs_Success n at \<Rightarrow> Inr (n, at)
      | Cs_Failure err n \<Rightarrow>
          if err \<noteq> 122 then Inl err
          else (case call 1 n of Cs_Success n' at \<Rightarrow> Inr (n', at) | Cs_Failure err' _ \<Rightarrow> Inl err'))"

definition cpus_info :: "nat \<Rightarrow> (nat \<Rightarrow> nat \<Rightarrow> cs_answer) \<Rightarrow> (nat + cpu_info list) outcome option" where
  "cpus_info elem call =
     (case cpu_set_query (length (make_bytesize_vector (elem * 16))) call of
        Inl err \<Rightarrow> Some (Inr (Inl err))
      | Inr (n, at) \<Rightarrow>
          map_option (\<lambda>r. obind r (\<lambda>x. Inr (Inr x))) (walk at cs_size cpu_body n 0 []))"

text \<open>The iterator of \<^verbatim>\<open>win/experimental/sysinfo.hpp\<close> stops at equality with the end, not
  behind it.\<close>

partial_function (option) iterate_sets :: "(nat \<Rightarrow> cpu_set_record) \<Rightarrow> nat \<Rightarrow> nat \<Rightarrow> cpu_set_record list option" where
  "iterate_sets at e p =
     (if p = e then Some []
      else Option.bind (iterate_sets at e (p + cs_size (at p))) (\<lambda>rs. Some (at p # rs)))"

text \<open>The constructor of \<^verbatim>\<open>cpu_set_info\<close> keeps the buffer, and \<^verbatim>\<open>cpu_set\<close> is a filter
  and a transformation over a static one: the first call asks the system, later calls see the same
  buffer, and a constructor that throws is run again by the next call.  The second component is the
  static object.\<close>

definition cpu_set_info :: "nat \<Rightarrow> (nat \<Rightarrow> nat \<Rightarrow> cs_answer) \<Rightarrow> nat + (nat \<times> (nat \<Rightarrow> cpu_set_record))" where
  "cpu_set_info elem call = cpu_set_query (length (make_bytesize_vector (elem * 32))) call"

definition cpu_set_view ::
  "nat \<Rightarrow> (nat \<Rightarrow> nat \<Rightarrow> cs_answer) \<Rightarrow> (nat \<times> (nat \<Rightarrow> cpu_set_record)) option \<Rightarrow>
     (nat + cpu_set_record list option) \<times> (nat \<times> (nat \<Rightarrow> cpu_set_record)) option" where
  "cpu_set_view elem call info =
     (case (case info of None \<Rightarrow> cpu_set_info elem call | Some data \<Rightarrow> Inr data) of
        Inl err \<Rightarrow> (Inl err, None)
      | Inr (n, at) \<Rightarrow> (Inr (map_option (filter cs_is_cpu_set) (iterate_sets at n 0)), Some (n, at)))"

text \<open>POSIX.\<close>

definition posix_numa_node_workset :: "nat \<Rightarrow> group_afinity list" where
  "posix_numa_node_workset node = []"

definition posix_cache_line_size :: "int \<Rightarrow> 64 word" where
  "posix_cache_line_size sysconf_linesize = of_int sysconf_linesize"

end
