(* ===== verification/Sys_Properties.thy ===== *)
theory Sys_Properties
  imports Sys_Info
begin

text \<open>
  The queries of the processor topology: the loop that grows a buffer ends on a system that answers
  as documented, and the walks over the buffers lose nothing.
\<close>

section \<open>Buffers filled with records\<close>

text \<open>The records lie one behind the other and fill the buffer.\<close>

fun laid_out :: "(nat \<Rightarrow> 'r) \<Rightarrow> ('r \<Rightarrow> nat) \<Rightarrow> nat \<Rightarrow> 'r list \<Rightarrow> nat \<Rightarrow> bool" where
  "laid_out at sz p [] e = (p = e)"
| "laid_out at sz p (r # rs) e = (at p = r \<and> 0 < sz r \<and> laid_out at sz (p + sz r) rs e)"

fun walk_list :: "('r \<Rightarrow> 'a \<Rightarrow> ('a \<times> bool) outcome) \<Rightarrow> 'r list \<Rightarrow> 'a \<Rightarrow> 'a outcome" where
  "walk_list body [] acc = Inr acc"
| "walk_list body (r # rs) acc =
     obind (body r acc) (\<lambda>(acc', stop). if stop then Inr acc' else walk_list body rs acc')"

lemma laid_out_le: "laid_out at sz p rs e \<Longrightarrow> p \<le> e"
  by (induction rs arbitrary: p) (auto dest: add_leD1)

lemma walk_laid_out:
  "laid_out at sz p rs e \<Longrightarrow> walk at sz body e p acc = Some (walk_list body rs acc)"
proof (induction rs arbitrary: p acc)
  case Nil
  then show ?case by (subst walk.simps) simp
next
  case (Cons r rs)
  then have at: "at p = r" and rest: "laid_out at sz (p + sz r) rs e" and pos: "0 < sz r" by auto
  then have "p < e" using laid_out_le [OF rest] by linarith
  then show ?case
    using at Cons.IH [OF rest] by (subst walk.simps) (auto split: sum.splits)
qed

lemma iterate_laid_out:
  "laid_out at cs_size p rs e \<Longrightarrow> iterate_sets at e p = Some rs"
proof (induction rs arbitrary: p)
  case Nil
  then show ?case by (subst iterate_sets.simps) simp
next
  case (Cons r rs)
  then have at: "at p = r" and rest: "laid_out at cs_size (p + cs_size r) rs e" and pos: "0 < cs_size r"
    by auto
  then have "p \<noteq> e" using laid_out_le [OF rest] by linarith
  then show ?case using at Cons.IH [OF rest] by (subst iterate_sets.simps) simp
qed

lemma walk_list_cache:
  "walk_list cache_line_body rs d =
     Inr (case find (\<lambda>r. lp_relationship r = Relation_Cache \<and> lp_cache_level r = 1) rs of
            None \<Rightarrow> d | Some r \<Rightarrow> unat (lp_cache_line r))"
  by (induction rs) (auto simp: cache_line_body_def)

definition is_node :: "lp_record \<Rightarrow> bool" where
  "is_node r = (lp_relationship r = Relation_Numa_Node \<or> lp_relationship r = Relation_Numa_Node_Ex)"

lemma walk_list_numa:
  "\<forall>r \<in> set rs. is_node r \<Longrightarrow>
     walk_list (numa_body node) rs res =
       Inr (res @ concat (map (\<lambda>r. map (lp_masks r) [0..<max 1 (lp_group_count r)])
         (filter (\<lambda>r. lp_numa_node r = node) rs)))"
  by (induction rs arbitrary: res) (auto simp: numa_body_def is_node_def Let_def max_def)

lemma walk_list_cores:
  "\<forall>r \<in> set rs. lp_relationship r = Relation_Processor_Core \<Longrightarrow>
     walk_list core_body rs res =
       Inr (res @ map (\<lambda>r. \<lparr>efficency_class = ucast (lp_efficiency r),
                           core_groups = map (lp_masks r) [0..<lp_group_count r]\<rparr>) rs)"
  by (induction rs arbitrary: res) (auto simp: core_body_def)

lemma walk_list_cpus:
  "walk_list cpu_body rs res = Inr (res @ map cpu_info_of (filter cs_is_cpu_set rs))"
  by (induction rs arbitrary: res) (auto simp: cpu_body_def)


section \<open>What the system is documented to answer\<close>

text \<open>At call \<open>k\<close> the system has the records \<open>rs k\<close> (processors may come and go between
  calls): a buffer they fit into is filled with them, a smaller one is refused with the size they
  need.\<close>

definition bytes :: "('r \<Rightarrow> nat) \<Rightarrow> 'r list \<Rightarrow> nat" where
  "bytes sz rs = sum_list (map sz rs)"

definition lp_documented :: "(nat \<Rightarrow> nat \<Rightarrow> lp_answer) \<Rightarrow> (nat \<Rightarrow> lp_record list) \<Rightarrow> bool" where
  "lp_documented call rs \<longleftrightarrow>
     (\<forall>k. \<exists>at. laid_out at lp_size 0 (rs k) (bytes lp_size (rs k)) \<and>
        (\<forall>n. call k n = (if bytes lp_size (rs k) \<le> n then Lp_Success (bytes lp_size (rs k)) at
                        else Lp_Failure 122 (bytes lp_size (rs k)))))"

definition cs_documented :: "(nat \<Rightarrow> nat \<Rightarrow> cs_answer) \<Rightarrow> (nat \<Rightarrow> cpu_set_record list) \<Rightarrow> bool" where
  "cs_documented call rs \<longleftrightarrow>
     (\<forall>k. \<exists>at. laid_out at cs_size 0 (rs k) (bytes cs_size (rs k)) \<and>
        (\<forall>n. call k n = (if bytes cs_size (rs k) \<le> n then Cs_Success (bytes cs_size (rs k)) at
                        else Cs_Failure 122 (bytes cs_size (rs k)))))"

text \<open>The loop asks with the size of the call before, so it goes on only while the records grow; if
  they do not grow for ever, it ends, in the records of its last call.\<close>

definition holds_records :: "lp_buffer \<Rightarrow> lp_record list \<Rightarrow> bool" where
  "holds_records b rs \<longleftrightarrow> lpb_size b = bytes lp_size rs \<and> laid_out (lpb_at b) lp_size 0 rs (lpb_size b)"

lemma walk_records:
  "holds_records b rs \<Longrightarrow>
     walk (lpb_at b) lp_size body (lpb_size b) 0 acc = Some (walk_list body rs acc)"
  unfolding holds_records_def by (blast intro: walk_laid_out)

lemma lp_loop_ends:
  assumes doc: "lp_documented call rs" and bound: "\<And>k. bytes lp_size (rs k) \<le> most"
  shows "\<exists>j b. lp_loop call k n = Some (Inr (Inr b)) \<and> holds_records b (rs j)"
proof (induction "Suc most - n" arbitrary: k n rule: less_induct)
  case less
  from doc obtain at where at: "laid_out at lp_size 0 (rs k) (bytes lp_size (rs k))"
    and call: "call k n = (if bytes lp_size (rs k) \<le> n then Lp_Success (bytes lp_size (rs k)) at
                  else Lp_Failure 122 (bytes lp_size (rs k)))"
    unfolding lp_documented_def by blast
  show ?case
  proof (cases "bytes lp_size (rs k) \<le> n")
    case True
    then have "lp_loop call k n = Some (Inr (Inr \<lparr>lpb_size = bytes lp_size (rs k), lpb_at = at\<rparr>))"
      using call by (subst lp_loop.simps) simp
    then show ?thesis using at by (auto simp: holds_records_def)
  next
    case False
    then have "lp_loop call k n = lp_loop call (Suc k) (bytes lp_size (rs k))"
      using call by (subst lp_loop.simps) simp
    moreover have "Suc most - bytes lp_size (rs k) < Suc most - n" using False bound [of k] by simp
    ultimately show ?thesis using less.hyps by metis
  qed
qed

lemma info_ends:
  assumes "lp_documented call rs" and "\<And>k. bytes lp_size (rs k) \<le> most"
  shows "\<exists>j b. logical_processor_info None elem call = Some (Inr (Inr b)) \<and> holds_records b (rs j)"
  unfolding logical_processor_info_def using lp_loop_ends [OF assms] by simp

text \<open>A query that is refused with another error.\<close>

definition lp_refuses :: "(nat \<Rightarrow> nat \<Rightarrow> lp_answer) \<Rightarrow> bool" where
  "lp_refuses call \<longleftrightarrow> (\<forall>n. \<exists>err n'. call 0 n = Lp_Failure err n' \<and> err \<noteq> 122 \<and> err \<noteq> 0)"

lemma info_refused:
  assumes "lp_refuses call"
  shows "\<exists>err. logical_processor_info None elem call = Some (Inr (Inl err))"
proof -
  let ?n = "length (make_bytesize_vector (5 * elem))"
  from assms obtain err n' where "call 0 ?n = Lp_Failure err n'" "err \<noteq> 122" "err \<noteq> 0"
    unfolding lp_refuses_def by blast
  then show ?thesis
    unfolding logical_processor_info_def by (subst lp_loop.simps) simp
qed

lemma numa_of_buffer:
  assumes "holds_records b rs" and "\<forall>r \<in> set rs. is_node r"
    and "info Relation_Numa_Node_Ex = Some (Inr (Inr b)) \<or>
      (\<exists>err. info Relation_Numa_Node_Ex = Some (Inr (Inl err))) \<and> info Relation_Numa_Node = Some (Inr (Inr b))"
  shows "numa_node_workset info node =
     Some (Inr (Inr (concat (map (\<lambda>r. map (lp_masks r) [0..<max 1 (lp_group_count r)])
       (filter (\<lambda>r. lp_numa_node r = node) rs)))))"
  using assms(3) walk_list_numa [OF assms(2), of node "[]"]
  by (auto simp: numa_node_workset_def walk_records [OF assms(1)])

lemma cores_of_buffer:
  assumes "holds_records b rs" and "\<forall>r \<in> set rs. lp_relationship r = Relation_Processor_Core"
  shows "cores_info (Some (Inr (Inr b))) =
     Some (Inr (Inr (map (\<lambda>r. \<lparr>efficency_class = ucast (lp_efficiency r),
       core_groups = map (lp_masks r) [0..<lp_group_count r]\<rparr>) rs)))"
  using walk_list_cores [OF assms(2), of "[]"]
  by (simp add: cores_info_def walk_records [OF assms(1)])

text \<open>The CPU sets are asked for twice at most: if they grow between the two calls, the second error is
  thrown.\<close>

lemma cpu_set_query_documented:
  assumes "cs_documented call rs"
  shows "(\<exists>j at. cpu_set_query n call = Inr (bytes cs_size (rs j), at) \<and>
            laid_out at cs_size 0 (rs j) (bytes cs_size (rs j))) \<or>
         n < bytes cs_size (rs 0) \<and> bytes cs_size (rs 0) < bytes cs_size (rs 1) \<and>
           cpu_set_query n call = Inl 122"
proof -
  have doc: "\<exists>at. laid_out at cs_size 0 (rs k) (bytes cs_size (rs k)) \<and>
        (\<forall>n. call k n = (if bytes cs_size (rs k) \<le> n then Cs_Success (bytes cs_size (rs k)) at
                        else Cs_Failure 122 (bytes cs_size (rs k))))" for k
    using assms unfolding cs_documented_def by blast
  obtain at0 where
    a: "laid_out at0 cs_size 0 (rs 0) (bytes cs_size (rs 0))"
       "\<And>n. call 0 n = (if bytes cs_size (rs 0) \<le> n then Cs_Success (bytes cs_size (rs 0)) at0
                        else Cs_Failure 122 (bytes cs_size (rs 0)))"
    using doc [of 0] by blast
  obtain at1 where
    b: "laid_out at1 cs_size 0 (rs 1) (bytes cs_size (rs 1))"
       "\<And>n. call 1 n = (if bytes cs_size (rs 1) \<le> n then Cs_Success (bytes cs_size (rs 1)) at1
                        else Cs_Failure 122 (bytes cs_size (rs 1)))"
    using doc [of 1] by blast
  consider "bytes cs_size (rs 0) \<le> n" | "n < bytes cs_size (rs 0)" "bytes cs_size (rs 1) \<le> bytes cs_size (rs 0)"
    | "n < bytes cs_size (rs 0)" "bytes cs_size (rs 0) < bytes cs_size (rs 1)" by linarith
  then show ?thesis
  proof cases
    case 1
    then show ?thesis using a by (auto simp: cpu_set_query_def)
  next
    case 2
    then show ?thesis using a b by (auto simp: cpu_set_query_def)
  next
    case 3
    then show ?thesis using a b by (simp add: cpu_set_query_def)
  qed
qed


section \<open>Properties\<close>

text \<open>On a buffer that the records fill, \<^verbatim>\<open>cache_line_size\<close> returns, and returns the line
  size of the first level 1 cache in it, or 64 if there is none.\<close>

theorem cache_line_first_l1:
  assumes "laid_out (lpb_at b) lp_size 0 rs (lpb_size b)"
  shows "cache_line_size (Some (Inr (Inr b))) =
    Some (Inr (case find (\<lambda>r. lp_relationship r = Relation_Cache \<and> lp_cache_level r = 1) rs of
                 None \<Rightarrow> 64 | Some r \<Rightarrow> unat (lp_cache_line r)))"
  using walk_laid_out [OF assms, of cache_line_body 64]
  by (simp add: cache_line_size_def walk_list_cache)

definition l1_record :: lp_record where
  "l1_record = \<lparr>lp_relationship = Relation_Cache, lp_size = 52, lp_cache_level = 1, lp_cache_line = 128,
     lp_numa_node = 0, lp_efficiency = 0, lp_group_count = 0,
     lp_masks = (\<lambda>_. \<lparr>aff_group = 0, aff_mask = 0\<rparr>)\<rparr>"

lemma cache_line_first_l1_witness:
  "cache_line_size (Some (Inr (Inr \<lparr>lpb_size = 52, lpb_at = (\<lambda>_. l1_record)\<rparr>))) = Some (Inr 128)"
  using cache_line_first_l1 [of "\<lparr>lpb_size = 52, lpb_at = (\<lambda>_. l1_record)\<rparr>" "[l1_record]"]
  by (simp add: l1_record_def)

text \<open>C16: the topology of a system that answers as documented, whose processors may change between calls
  but do not grow in number for ever: the loop that grows the buffer ends,
  \<^verbatim>\<open>numa_node_workset\<close> (also by its second query, on systems that refuse the first) and
  \<^verbatim>\<open>cores_info\<close> return, in order, everything that was there at one of the calls: the groups of
  the node's records (one for a record that reports none), and one core for each record;
  \<^verbatim>\<open>cpus_info\<close> has one entry for each CPU set, or throws, which it does only if the CPU sets
  grew between its two calls.\<close>

theorem topology_complete:
  assumes "lp_documented (sys Relation_Numa_Node_Ex) nodes \<or>
      lp_refuses (sys Relation_Numa_Node_Ex) \<and> lp_documented (sys Relation_Numa_Node) nodes"
    and "lp_documented (sys Relation_Processor_Core) cores" and "cs_documented call sets"
    and "\<And>k. bytes lp_size (nodes k) \<le> most" and "\<And>k. bytes lp_size (cores k) \<le> most"
    and "\<And>k. \<forall>r \<in> set (nodes k). is_node r"
    and "\<And>k. \<forall>r \<in> set (cores k). lp_relationship r = Relation_Processor_Core"
  shows "(\<exists>j. numa_node_workset (\<lambda>type. logical_processor_info None elem (sys type)) node =
        Some (Inr (Inr (concat (map (\<lambda>r. map (lp_masks r) [0..<max 1 (lp_group_count r)])
          (filter (\<lambda>r. lp_numa_node r = node) (nodes j))))))) \<and>
    (\<exists>j. cores_info (logical_processor_info None elem (sys Relation_Processor_Core)) =
        Some (Inr (Inr (map (\<lambda>r. \<lparr>efficency_class = ucast (lp_efficiency r),
          core_groups = map (lp_masks r) [0..<lp_group_count r]\<rparr>) (cores j))))) \<and>
    ((\<exists>j. cpus_info elem' call = Some (Inr (Inr (map cpu_info_of (filter cs_is_cpu_set (sets j)))))) \<or>
      bytes cs_size (sets 0) < bytes cs_size (sets 1) \<and> cpus_info elem' call = Some (Inr (Inl 122)))"
proof (intro conjI)
  let ?info = "\<lambda>type. logical_processor_info None elem (sys type)"
  have "\<exists>j b. holds_records b (nodes j) \<and> (?info Relation_Numa_Node_Ex = Some (Inr (Inr b)) \<or>
      (\<exists>err. ?info Relation_Numa_Node_Ex = Some (Inr (Inl err))) \<and> ?info Relation_Numa_Node = Some (Inr (Inr b)))"
    using assms(1)
  proof (elim disjE conjE)
    assume "lp_documented (sys Relation_Numa_Node_Ex) nodes"
    from info_ends [OF this assms(4), of elem] show ?thesis by blast
  next
    assume "lp_refuses (sys Relation_Numa_Node_Ex)" and doc: "lp_documented (sys Relation_Numa_Node) nodes"
    then show ?thesis using info_refused [of _ elem] info_ends [OF doc assms(4), of elem] by blast
  qed
  then obtain j b where b: "holds_records b (nodes j)" and q: "?info Relation_Numa_Node_Ex = Some (Inr (Inr b)) \<or>
      (\<exists>err. ?info Relation_Numa_Node_Ex = Some (Inr (Inl err))) \<and> ?info Relation_Numa_Node = Some (Inr (Inr b))"
    by blast
  show "\<exists>j. numa_node_workset ?info node =
        Some (Inr (Inr (concat (map (\<lambda>r. map (lp_masks r) [0..<max 1 (lp_group_count r)])
          (filter (\<lambda>r. lp_numa_node r = node) (nodes j))))))"
    using numa_of_buffer [OF b assms(6) q] by blast
next
  obtain j b where b: "logical_processor_info None elem (sys Relation_Processor_Core) = Some (Inr (Inr b))"
      "holds_records b (cores j)"
    using info_ends [OF assms(2,5), of elem] by blast
  show "\<exists>j. cores_info (logical_processor_info None elem (sys Relation_Processor_Core)) =
        Some (Inr (Inr (map (\<lambda>r. \<lparr>efficency_class = ucast (lp_efficiency r),
          core_groups = map (lp_masks r) [0..<lp_group_count r]\<rparr>) (cores j))))"
    unfolding b(1) using cores_of_buffer [OF b(2) assms(7)] by blast
next
  show "(\<exists>j. cpus_info elem' call = Some (Inr (Inr (map cpu_info_of (filter cs_is_cpu_set (sets j)))))) \<or>
      bytes cs_size (sets 0) < bytes cs_size (sets 1) \<and> cpus_info elem' call = Some (Inr (Inl 122))"
    using cpu_set_query_documented [OF assms(3), of "length (make_bytesize_vector (elem' * 16))"]
    by (auto simp: cpus_info_def walk_laid_out walk_list_cpus)
qed

text \<open>A system of one node without a group count, one core and one CPU set, which needs more than the
  first buffer of one byte records.\<close>

definition one_cpu :: cpu_set_record where
  "one_cpu = \<lparr>cs_is_cpu_set = True, cs_size = 32, cs_id = 0x10100, cs_group = 1, cs_logical = 2,
     cs_core = 3, cs_numa = 0, cs_efficiency = 0, cs_parked = False, cs_allocated = True,
     cs_to_target = False, cs_real_time = False\<rparr>"

definition one_node :: lp_record where
  "one_node = l1_record\<lparr>lp_relationship := Relation_Numa_Node_Ex\<rparr>"

definition one_core :: lp_record where
  "one_core = l1_record\<lparr>lp_relationship := Relation_Processor_Core, lp_group_count := 1\<rparr>"

definition small_system :: "relationship \<Rightarrow> nat \<Rightarrow> nat \<Rightarrow> lp_answer" where
  "small_system type k n =
     (if 52 \<le> n then Lp_Success 52 (if type = Relation_Numa_Node_Ex then (\<lambda>_. one_node) else (\<lambda>_. one_core))
      else Lp_Failure 122 52)"

definition small_sets :: "nat \<Rightarrow> nat \<Rightarrow> cs_answer" where
  "small_sets k n = (if 32 \<le> n then Cs_Success 32 (\<lambda>_. one_cpu) else Cs_Failure 122 32)"

lemma topology_complete_witness:
  "numa_node_workset (\<lambda>type. logical_processor_info None 1 (small_system type)) 0 =
     Some (Inr (Inr [\<lparr>aff_group = 0, aff_mask = 0\<rparr>])) \<and>
   cpus_info 1 small_sets = Some (Inr (Inr [cpu_info_of one_cpu]))"
proof -
  have sizes: "lp_size one_node = 52" "lp_size one_core = 52" "cs_size one_cpu = 32"
    by (simp_all add: one_node_def one_core_def l1_record_def one_cpu_def)
  have "lp_documented (small_system Relation_Numa_Node_Ex) (\<lambda>_. [one_node])"
    unfolding lp_documented_def
    by (auto simp: bytes_def small_system_def sizes intro!: exI [of _ "\<lambda>_. one_node"])
  moreover have "lp_documented (small_system Relation_Processor_Core) (\<lambda>_. [one_core])"
    unfolding lp_documented_def
    by (auto simp: bytes_def small_system_def sizes intro!: exI [of _ "\<lambda>_. one_core"])
  moreover have "cs_documented small_sets (\<lambda>_. [one_cpu])"
    unfolding cs_documented_def
    by (auto simp: bytes_def small_sets_def sizes intro!: exI [of _ "\<lambda>_. one_cpu"])
  ultimately show ?thesis
    using topology_complete [of small_system "\<lambda>_. [one_node]" "\<lambda>_. [one_core]"
        small_sets "\<lambda>_. [one_cpu]" 52 1 0 1]
    by (simp add: bytes_def one_node_def one_core_def l1_record_def one_cpu_def is_node_def)
qed

text \<open>\<^verbatim>\<open>cpu_set\<close> sees the CPU sets of its first call that returned, whatever the system
  would answer later.\<close>

theorem cpu_set_first_answer:
  "cpu_set_view elem call None = (Inr v, info) \<Longrightarrow> cpu_set_view elem' call' info = (Inr v, info)"
  by (auto simp: cpu_set_view_def split: sum.splits)

theorem cpu_set_filters:
  assumes "cpu_set_info elem call = Inr (n, at)" and "laid_out at cs_size 0 sets n"
  shows "fst (cpu_set_view elem call None) = Inr (Some (filter cs_is_cpu_set sets))"
  using assms by (simp add: cpu_set_view_def iterate_laid_out)

end
