(* ===== verification/X3_Grammar.thy ===== *)
theory X3_Grammar
  imports Flags
begin

text \<open>
  The parser expressions the sources write with Boost.Spirit X3, as terms.  The library that runs
  them is not part of the repository: it is a function \<open>parse\<close> from a grammar and an input to the
  attribute and the rest of the input, and the locale states what its documentation says of the
  constructs used.  Theorems about the grammars hold for every such function; \<open>peg\<close> is one.
\<close>

section \<open>Grammars and attributes\<close>

datatype char_class = Any_Char | Any_But char

text \<open>\<open>Plus\<close> is \<^verbatim>\<open>+(char_ - c)\<close> or \<^verbatim>\<open>+char_\<close>, \<open>Uint max\<close> the parser of an
  unsigned decimal number up to \<open>max\<close>, \<open>Symbols\<close> a table of \<^verbatim>\<open>x3::symbols\<close>,
  \<open>Sep_By g l\<close> the list \<^verbatim>\<open>g % l\<close>.\<close>

datatype attribute =
    No_Attr
  | Str_Attr string
  | Num_Attr nat
  | Pair_Attr attribute attribute
  | List_Attr "attribute list"

datatype grammar =
    Lit string
  | Plus char_class
  | Uint nat
  | Attr attribute
  | Symbols "(string \<times> nat) list"
  | Seq grammar grammar
  | Alt grammar grammar
  | Sep_By grammar string

type_synonym x3_parse = "grammar \<Rightarrow> string \<Rightarrow> (attribute \<times> string) option"

fun in_class :: "char_class \<Rightarrow> char \<Rightarrow> bool" where
  "in_class Any_Char c = True"
| "in_class (Any_But d) c = (c \<noteq> d)"

text \<open>A sequence has the pair of its parts' attributes; a part without one does not count.\<close>

fun pair_attr :: "attribute \<Rightarrow> attribute \<Rightarrow> attribute" where
  "pair_attr No_Attr b = b"
| "pair_attr a No_Attr = a"
| "pair_attr a b = Pair_Attr a b"

text \<open>The longest symbol of a table that the input begins with.\<close>

definition longest_symbol :: "(string \<times> nat) list \<Rightarrow> string \<Rightarrow> (string \<times> nat) option" where
  "longest_symbol table s =
     (let hits = filter (\<lambda>(k, _). prefix k s) table in
      find (\<lambda>(k, _). list_all (\<lambda>(k', _). length k' \<le> length k) hits) hits)"

locale x3_parser =
  fixes parse :: x3_parse
  assumes lit: "parse (Lit l) s =
      (if prefix l s then Some (No_Attr, drop (length l) s) else None)"
    and plus: "parse (Plus k) s =
      (let w = takeWhile (in_class k) s in
       if w = [] then None else Some (Str_Attr w, drop (length w) s))"
    and uint: "parse (Uint m) s =
      (let ds = takeWhile (is_digit 10) s in
       if ds = [] \<or> digits_value 10 ds > m then None
       else Some (Num_Attr (digits_value 10 ds), drop (length ds) s))"
    and attr: "parse (Attr a) s = Some (a, s)"
    and symbols: "parse (Symbols t) s =
      map_option (\<lambda>(k, v). (Num_Attr v, drop (length k) s)) (longest_symbol t s)"
    and seq: "parse (Seq g h) s =
      (case parse g s of
         None \<Rightarrow> None
       | Some (a, r) \<Rightarrow> map_option (\<lambda>(b, r'). (pair_attr a b, r')) (parse h r))"
    and alt: "parse (Alt g h) s = (case parse g s of None \<Rightarrow> parse h s | Some x \<Rightarrow> Some x)"
    and sep: "l \<noteq> [] \<Longrightarrow> parse (Sep_By g l) s =
      (case parse g s of
         None \<Rightarrow> None
       | Some (a, r) \<Rightarrow>
           Some (case (if prefix l r then parse (Sep_By g l) (drop (length l) r) else None) of
                   Some (List_Attr as, r') \<Rightarrow> (List_Attr (a # as), r')
                 | _ \<Rightarrow> (List_Attr [a], r)))"
begin

lemmas laws = lit plus uint attr symbols seq alt sep

lemma plus_word:
  "w \<noteq> [] \<Longrightarrow> \<forall>c \<in> set w. in_class k c \<Longrightarrow> r = [] \<or> \<not> in_class k (hd r) \<Longrightarrow>
     parse (Plus k) (w @ r) = Some (Str_Attr w, r)"
proof -
  assume w: "w \<noteq> []" "\<forall>c \<in> set w. in_class k c" and r: "r = [] \<or> \<not> in_class k (hd r)"
  have "takeWhile (in_class k) (w @ r) = w @ takeWhile (in_class k) r"
    using w(2) by (simp add: takeWhile_append)
  also have "takeWhile (in_class k) r = []" using r by (cases r) auto
  finally show ?thesis using w(1) by (simp add: plus)
qed

lemma plus_none: "s = [] \<or> \<not> in_class k (hd s) \<Longrightarrow> parse (Plus k) s = None"
  by (cases s) (auto simp: plus)

lemma uint_number:
  "r = [] \<or> \<not> is_digit 10 (hd r) \<Longrightarrow>
     parse (Uint m) (dec_string n @ r) = (if n \<le> m then Some (Num_Attr n, r) else None)"
proof -
  assume r: "r = [] \<or> \<not> is_digit 10 (hd r)"
  have "takeWhile (is_digit 10) (dec_string n @ r) = dec_string n @ takeWhile (is_digit 10) r"
    using dec_string_digits [of n] by (simp add: takeWhile_append)
  also have "takeWhile (is_digit 10) r = []" using r by (cases r) auto
  finally have t: "takeWhile (is_digit 10) (dec_string n @ r) = dec_string n" by simp
  show ?thesis unfolding uint t by (simp add: Let_def digits_value_dec)
qed

lemma lit_append [simp]: "parse (Lit l) (l @ r) = Some (No_Attr, r)"
  by (simp add: lit)

end


section \<open>An interpreter\<close>

text \<open>The elements behind the first one of a list; a separator that no element follows is left.\<close>

fun sep_tail ::
  "(string \<Rightarrow> (attribute \<times> string) option) \<Rightarrow> string \<Rightarrow> nat \<Rightarrow> string \<Rightarrow> attribute list \<times> string"
where
  "sep_tail g l 0 r = ([], r)"
| "sep_tail g l (Suc n) r =
     (if prefix l r then
        (case g (drop (length l) r) of
           None \<Rightarrow> ([], r)
         | Some (a, r') \<Rightarrow> (let (as, r'') = sep_tail g l n r' in (a # as, r'')))
      else ([], r))"

fun peg :: x3_parse where
  "peg (Lit l) s = (if prefix l s then Some (No_Attr, drop (length l) s) else None)"
| "peg (Plus k) s =
     (let w = takeWhile (in_class k) s in
      if w = [] then None else Some (Str_Attr w, drop (length w) s))"
| "peg (Uint m) s =
     (let ds = takeWhile (is_digit 10) s in
      if ds = [] \<or> digits_value 10 ds > m then None
      else Some (Num_Attr (digits_value 10 ds), drop (length ds) s))"
| "peg (Attr a) s = Some (a, s)"
| "peg (Symbols t) s = map_option (\<lambda>(k, v). (Num_Attr v, drop (length k) s)) (longest_symbol t s)"
| "peg (Seq g h) s =
     (case peg g s of
        None \<Rightarrow> None
      | Some (a, r) \<Rightarrow> map_option (\<lambda>(b, r'). (pair_attr a b, r')) (peg h r))"
| "peg (Alt g h) s = (case peg g s of None \<Rightarrow> peg h s | Some x \<Rightarrow> Some x)"
| "peg (Sep_By g l) s =
     (case peg g s of
        None \<Rightarrow> None
      | Some (a, r) \<Rightarrow> let (as, r') = sep_tail (peg g) l (length r) r in Some (List_Attr (a # as), r'))"

lemma sep_tail_shorter:
  assumes "\<And>s a r. g s = Some (a, r) \<Longrightarrow> length r \<le> length s"
  shows "length (snd (sep_tail g l n r)) \<le> length r"
proof (induction n arbitrary: r)
  case (Suc n)
  then show ?case
    using assms [of "drop (length l) r"]
    by (fastforce simp: Let_def split: option.split prod.split dest: order_trans)
qed simp

lemma peg_shorter: "peg g s = Some (a, r) \<Longrightarrow> length r \<le> length s"
proof (induction g arbitrary: s a r)
  case (Seq g h)
  then show ?case by (fastforce split: option.splits dest: order_trans)
next
  case (Sep_By g l)
  then obtain a1 r1 where g: "peg g s = Some (a1, r1)" by (auto split: option.splits)
  then have "r = snd (sep_tail (peg g) l (length r1) r1)"
    using Sep_By.prems by (auto simp: split_beta Let_def)
  then show ?case using sep_tail_shorter [of "peg g" l "length r1" r1] Sep_By.IH g by fastforce
qed (auto simp: Let_def split: if_splits option.splits)

text \<open>One turn for each character is enough.\<close>

lemma sep_tail_enough:
  assumes "l \<noteq> []" and "length r \<le> n"
  shows "sep_tail (peg g) l n r = sep_tail (peg g) l (length r) r"
  using assms(2)
proof (induction n arbitrary: r rule: less_induct)
  case (less n)
  show ?case
  proof (cases "prefix l r")
    case True
    then have len: "0 < length l" "length l \<le> length r" using assms(1) by (auto dest: prefix_length_le)
    then obtain m k where mk: "n = Suc m" "length r = Suc k" using less.prems by (cases n; cases "length r") auto
    have "sep_tail (peg g) l m r' = sep_tail (peg g) l k r'" if "peg g (drop (length l) r) = Some (a, r')" for a r'
    proof -
      have "length r' \<le> length r - length l" using peg_shorter [OF that] by simp
      then have "length r' \<le> k" using mk(2) len by linarith
      then show ?thesis using less.IH [of m r'] less.IH [of k r'] less.prems mk
        by (cases "k = n") (simp_all add: le_less_trans)
    qed
    then show ?thesis using True by (simp add: mk split: option.split)
  next
    case False
    then show ?thesis by (cases n; cases "length r") simp_all
  qed
qed

lemma peg_sep:
  assumes "l \<noteq> []"
  shows "peg (Sep_By g l) s =
      (case peg g s of
         None \<Rightarrow> None
       | Some (a, r) \<Rightarrow>
           Some (case (if prefix l r then peg (Sep_By g l) (drop (length l) r) else None) of
                   Some (List_Attr as, r') \<Rightarrow> (List_Attr (a # as), r')
                 | _ \<Rightarrow> (List_Attr [a], r)))"
proof (cases "peg g s")
  case (Some x)
  obtain a r where x: "x = (a, r)" by (cases x)
  show ?thesis
  proof (cases "prefix l r")
    case True
    then have len: "0 < length l" "length l \<le> length r" using assms by (auto dest: prefix_length_le)
    then obtain k where k: "length r = Suc k" by (cases "length r") auto
    show ?thesis
    proof (cases "peg g (drop (length l) r)")
      case None
      then show ?thesis using Some x True by (simp add: k)
    next
      case inner: (Some y)
      obtain b r' where y: "y = (b, r')" by (cases y)
      have "length r' \<le> length r - length l" using peg_shorter [of g "drop (length l) r" b r'] inner y by simp
      then have "length r' \<le> k" using len k by linarith
      then have "sep_tail (peg g) l k r' = sep_tail (peg g) l (length r') r'"
        by (rule sep_tail_enough [OF assms])
      then show ?thesis using Some x True inner y by (simp add: k split_beta Let_def)
    qed
  next
    case False
    then show ?thesis using Some x by (cases "length r") simp_all
  qed
qed simp

interpretation peg: x3_parser peg
proof (unfold_locales, goal_cases)
  case (8 l g s)
  then show ?case by (rule peg_sep)
qed simp_all

lemma x3_parser_peg: "x3_parser peg"
  by (rule peg.x3_parser_axioms)

end
