(* ===== verification/Net_Options.thy ===== *)
theory Net_Options
  imports X3_Grammar Options_Ini
begin

text \<open>
  The grammars and validators of \<^verbatim>\<open>utils/program_options\<close>: endpoints and credentials
  (\<^verbatim>\<open>net.hpp\<close>), durations (\<^verbatim>\<open>chrono.hpp\<close>), the \<^verbatim>\<open>validate\<close> overloads that read an
  option's value with them, and the selection of the log settings (\<^verbatim>\<open>log.cpp\<close>).
\<close>

section \<open>Grammars\<close>

record endpoint =
  ep_host :: string
  ep_port :: nat

record scheme_endpoint =
  se_scheme :: string
  se_ep :: endpoint

record credentials =
  cr_username :: string
  cr_password :: string

abbreviation colon :: char where "colon \<equiv> CHR '':''"

definition endpoint_grammar :: "nat \<Rightarrow> grammar" where
  "endpoint_grammar default_port =
     Seq (Plus (Any_But colon)) (Alt (Seq (Lit '':'') (Uint 65535)) (Attr (Num_Attr default_port)))"

definition scheme_endpoint_grammar :: "nat \<Rightarrow> grammar" where
  "scheme_endpoint_grammar default_port =
     Seq (Plus (Any_But colon))
       (Alt (Seq (Lit ''://'') (endpoint_grammar default_port))
            (Seq (Lit '':'') (Attr (Pair_Attr (Str_Attr []) (Num_Attr default_port)))))"

definition credentials_grammar :: grammar where
  "credentials_grammar = Seq (Seq (Plus (Any_But colon)) (Lit '':'')) (Plus Any_Char)"

fun to_endpoint :: "attribute \<Rightarrow> endpoint option" where
  "to_endpoint (Pair_Attr (Str_Attr h) (Num_Attr p)) = Some \<lparr>ep_host = h, ep_port = p\<rparr>"
| "to_endpoint _ = None"

fun to_scheme_endpoint :: "attribute \<Rightarrow> scheme_endpoint option" where
  "to_scheme_endpoint (Pair_Attr (Str_Attr s) a) =
     map_option (\<lambda>e. \<lparr>se_scheme = s, se_ep = e\<rparr>) (to_endpoint a)"
| "to_scheme_endpoint _ = None"

fun to_credentials :: "attribute \<Rightarrow> credentials option" where
  "to_credentials (Pair_Attr (Str_Attr u) (Str_Attr p)) = Some \<lparr>cr_username = u, cr_password = p\<rparr>"
| "to_credentials _ = None"

text \<open>A number and a unit.  The unit is its length in nanoseconds; 0 stands for the default cast,
  which takes the number as ticks of the target.\<close>

definition duration_units :: "(string \<times> nat) list" where
  "duration_units =
     [(''ns'', 1), (''us'', 1000), (''ms'', 1000000), (''s'', 1000000000),
      (''m'', 60000000000), (''h'', 3600000000000)]"

definition max_rep :: nat where
  "max_rep = 2 ^ 63 - 1"

definition duration_grammar :: grammar where
  "duration_grammar = Seq (Uint max_rep) (Alt (Symbols duration_units) (Attr (Num_Attr 0)))"

text \<open>\<^verbatim>\<open>duration_cast\<close> to ticks of \<open>tick\<close> nanoseconds: multiplication and division by the
  reduced ratio of the periods, on a signed 64-bit representation.\<close>

definition duration_cast :: "nat \<Rightarrow> nat \<Rightarrow> nat \<Rightarrow> nat outcome" where
  "duration_cast unit_ns tick n =
     (let g = gcd unit_ns tick; m = n * (unit_ns div g) in
      if m > max_rep then Inl Undefined else Inr (m div (tick div g)))"

fun to_duration :: "nat \<Rightarrow> attribute \<Rightarrow> nat outcome option" where
  "to_duration tick (Pair_Attr (Num_Attr n) (Num_Attr u)) =
     Some (if u = 0 then Inr n else duration_cast u tick n)"
| "to_duration tick _ = None"

text \<open>Durations with commas between them, each cast when it is read.\<close>

definition durations_grammar :: grammar where
  "durations_grammar = Sep_By duration_grammar '',''"

fun cast_all :: "nat \<Rightarrow> attribute list \<Rightarrow> nat list outcome option" where
  "cast_all tick [] = Some (Inr [])"
| "cast_all tick (a # as) =
     (case to_duration tick a of
        None \<Rightarrow> None
      | Some (Inl f) \<Rightarrow> Some (Inl f)
      | Some (Inr d) \<Rightarrow> map_option (\<lambda>r. obind r (\<lambda>ds. Inr (d # ds))) (cast_all tick as))"

fun to_durations :: "nat \<Rightarrow> attribute \<Rightarrow> nat list outcome option" where
  "to_durations tick (List_Attr as) = cast_all tick as"
| "to_durations tick _ = None"


section \<open>Validators\<close>

text \<open>The errors of the option library, and a \<^verbatim>\<open>runtime_error\<close> with its message.\<close>

datatype validation =
    Multiple_Occurrences
  | Multiple_Values
  | Value_Required
  | Invalid_Option string
  | Validation_Runtime string
  | Validation_Fault fault

text \<open>\<^verbatim>\<open>check_first_occurrence\<close> and \<^verbatim>\<open>get_single_string\<close> of the library: an
  option that has a value already, and a list that is not one value, are errors.\<close>

definition single_value :: "'v option \<Rightarrow> string list \<Rightarrow> validation + string" where
  "single_value v values =
     (if v \<noteq> None then Inl Multiple_Occurrences
      else (case values of [x] \<Rightarrow> Inr x | [] \<Rightarrow> Inl Value_Required | _ \<Rightarrow> Inl Multiple_Values))"

text \<open>\<^verbatim>\<open>!x3::parse(begin, end, g, res) || begin != end\<close>: the attribute, if all of the input
  was parsed.\<close>

definition parse_all :: "x3_parse \<Rightarrow> grammar \<Rightarrow> string \<Rightarrow> attribute option" where
  "parse_all parse g s = (case parse g s of Some (a, []) \<Rightarrow> Some a | _ \<Rightarrow> None)"

definition validate_endpoint :: "x3_parse \<Rightarrow> endpoint option \<Rightarrow> string list \<Rightarrow> validation + endpoint" where
  "validate_endpoint parse v values =
     (case single_value v values of
        Inl e \<Rightarrow> Inl e
      | Inr value \<Rightarrow>
          (case Option.bind (parse_all parse (endpoint_grammar 0) value) to_endpoint of
             None \<Rightarrow> Inl (Invalid_Option ''invalid endpoint'')
           | Some ep \<Rightarrow> Inr ep))"

definition validate_credentials ::
  "x3_parse \<Rightarrow> credentials option \<Rightarrow> string list \<Rightarrow> validation + credentials" where
  "validate_credentials parse v values =
     (case single_value v values of
        Inl e \<Rightarrow> Inl e
      | Inr value \<Rightarrow>
          (case Option.bind (parse_all parse credentials_grammar value) to_credentials of
             None \<Rightarrow> Inl (Invalid_Option ''invalid credentials'')
           | Some cr \<Rightarrow> Inr cr))"

text \<open>An endpoint without a scheme is tried when the text is not one with a scheme.\<close>

definition validate_scheme_endpoint ::
  "x3_parse \<Rightarrow> scheme_endpoint option \<Rightarrow> string list \<Rightarrow> validation + scheme_endpoint" where
  "validate_scheme_endpoint parse v values =
     (case single_value v values of
        Inl e \<Rightarrow> Inl e
      | Inr value \<Rightarrow>
          (case Option.bind (parse_all parse (scheme_endpoint_grammar 0) value) to_scheme_endpoint of
             Some se \<Rightarrow> Inr se
           | None \<Rightarrow>
               (case Option.bind (parse_all parse (endpoint_grammar 0) value) to_endpoint of
                  None \<Rightarrow> Inl (Invalid_Option ''schema-endpoint'')
                | Some ep \<Rightarrow> Inr \<lparr>se_scheme = [], se_ep = ep\<rparr>)))"

text \<open>Addresses and URLs are read by Boost; \<open>read\<close> is its answer, an error with its message or a
  value.  \<open>kind\<close> is the word the message has for the address.\<close>

definition validate_address ::
  "string \<Rightarrow> (string \<Rightarrow> string + 'a) \<Rightarrow> 'a option \<Rightarrow> string list \<Rightarrow> validation + 'a" where
  "validate_address kind read v values =
     (case single_value v values of
        Inl e \<Rightarrow> Inl e
      | Inr value \<Rightarrow>
          (case read value of
             Inl msg \<Rightarrow> Inl (Validation_Runtime (''can'' @ [squote] @ ''t parse '' @ kind @ '' address '' @
                          quoted value @ '' : '' @ msg))
           | Inr a \<Rightarrow> Inr a))"

text \<open>A URL that ends too early is a host; \<open>need_more\<close> says that the error is this one.\<close>

definition validate_url ::
  "(string \<Rightarrow> (bool \<times> string) + 'u) \<Rightarrow> (string \<Rightarrow> 'u) \<Rightarrow> 'u option \<Rightarrow> string list \<Rightarrow> validation + 'u" where
  "validate_url parse_uri with_host v values =
     (case single_value v values of
        Inl e \<Rightarrow> Inl e
      | Inr value \<Rightarrow>
          (case parse_uri value of
             Inl (need_more, msg) \<Rightarrow>
               if \<not> need_more then
                 Inl (Validation_Runtime (''can'' @ [squote] @ ''t parse url '' @ quoted value @ '' : '' @ msg))
               else Inr (with_host value)
           | Inr url \<Rightarrow> Inr url))"

text \<open>The cast is part of the parse: it is made before the end of the input is looked at.\<close>

definition parse_cast ::
  "x3_parse \<Rightarrow> grammar \<Rightarrow> (attribute \<Rightarrow> 'a outcome option) \<Rightarrow> string \<Rightarrow> string \<Rightarrow> validation + 'a" where
  "parse_cast parse g cast message value =
     (case parse g value of
        None \<Rightarrow> Inl (Invalid_Option message)
      | Some (a, rest) \<Rightarrow>
          (case cast a of
             None \<Rightarrow> Inl (Invalid_Option message)
           | Some (Inl f) \<Rightarrow> Inl (Validation_Fault f)
           | Some (Inr d) \<Rightarrow> if rest = [] then Inr d else Inl (Invalid_Option message)))"

definition validate_duration ::
  "x3_parse \<Rightarrow> nat \<Rightarrow> nat option \<Rightarrow> string list \<Rightarrow> validation + nat" where
  "validate_duration parse tick v values =
     (case single_value v values of
        Inl e \<Rightarrow> Inl e
      | Inr value \<Rightarrow> parse_cast parse duration_grammar (to_duration tick) ''invalid duration'' value)"

definition validate_durations ::
  "x3_parse \<Rightarrow> nat \<Rightarrow> nat list option \<Rightarrow> string list \<Rightarrow> validation + nat list" where
  "validate_durations parse tick v values =
     (case single_value v values of
        Inl e \<Rightarrow> Inl e
      | Inr value \<Rightarrow>
          parse_cast parse durations_grammar (to_durations tick) ''invalid durations list'' value)"

text \<open>\<open>read\<close> is \<^verbatim>\<open>time_from_string\<close> with the conversions behind it; what it throws is nested
  in the error.\<close>

definition validate_time_point ::
  "(string \<Rightarrow> string + 't) \<Rightarrow> 't option \<Rightarrow> string list \<Rightarrow> validation + 't" where
  "validate_time_point read v values =
     (case single_value v values of
        Inl e \<Rightarrow> Inl e
      | Inr value \<Rightarrow>
          (case read value of
             Inl msg \<Rightarrow> Inl (Validation_Runtime (''can'' @ [squote] @ ''t parse date-time '' @
                          quoted value @ '' : '' @ msg))
           | Inr t \<Rightarrow> Inr t))"


section \<open>Log settings among the options\<close>

definition log_name_grammar :: grammar where
  "log_name_grammar =
     Seq (Alt (Seq (Seq (Lit ''Sinks.'') (Uint (2 ^ 32 - 1))) (Lit ''.'')) (Lit ''Core.''))
       (Plus (Any_But CHR ''.''))"

definition is_log_name :: "x3_parse \<Rightarrow> string \<Rightarrow> bool" where
  "is_log_name parse name = (parse_all parse log_name_grammar name \<noteq> None)"

text \<open>What goes to the property tree of the log library, in the order of the \<^verbatim>\<open>put\<close> calls.  The
  first variant takes names and values in turn.\<close>

fun log_tree_of_list :: "x3_parse \<Rightarrow> string list \<Rightarrow> (string \<times> string) list" where
  "log_tree_of_list parse (n # v # rest) =
     (if is_log_name parse n then (n, v) # log_tree_of_list parse rest else log_tree_of_list parse rest)"
| "log_tree_of_list parse _ = []"

definition init_log_from_list :: "x3_parse \<Rightarrow> string list \<Rightarrow> ((string \<times> string) list \<times> bool) outcome" where
  "init_log_from_list parse unrecognized =
     (if length unrecognized mod 2 \<noteq> 0 then Inl Assert_Failed
      else let tree = log_tree_of_list parse unrecognized in Inr (tree, tree \<noteq> []))"

text \<open>The second variant takes parsed options; an unregistered one that is no log setting goes to
  the map of the options' values, where \<^verbatim>\<open>emplace\<close> keeps what is there.\<close>

type_synonym options_map = "string \<Rightarrow> string option"

definition emplace :: "string \<Rightarrow> string \<Rightarrow> options_map \<Rightarrow> options_map" where
  "emplace k v m = (if m k = None then m(k \<mapsto> v) else m)"

fun init_log_loop ::
  "x3_parse \<Rightarrow> basic_option list \<Rightarrow> (string \<times> string) list \<Rightarrow> bool \<Rightarrow> options_map \<Rightarrow>
   (string \<times> string) list \<times> bool \<times> options_map"
where
  "init_log_loop parse [] tree found m = (tree, found, m)"
| "init_log_loop parse (opt # opts) tree found m =
     (case original_tokens opt of
        [k, v] \<Rightarrow>
          if unregistered opt then
            (if is_log_name parse k then init_log_loop parse opts (tree @ [(k, v)]) True m
             else init_log_loop parse opts tree found (emplace k v m))
          else init_log_loop parse opts tree found m
      | _ \<Rightarrow> init_log_loop parse opts tree found m)"

definition init_log_from_options ::
  "x3_parse \<Rightarrow> basic_option list \<Rightarrow> options_map \<Rightarrow> (string \<times> string) list \<times> bool \<times> options_map" where
  "init_log_from_options parse opts m = init_log_loop parse opts [] False m"

end
