(* ===== verification/Net_Properties.thy ===== *)
theory Net_Properties
  imports Net_Options Options_Properties
begin

text \<open>
  Properties of the option values: what texts are endpoints, credentials and durations, and where
  the options of an ini file that the description does not know end up.
\<close>

section \<open>Running the grammars\<close>

lemma parse_all_Some: "parse g s = Some (a, []) \<Longrightarrow> parse_all parse g s = Some a"
  by (simp add: parse_all_def)

lemma parse_all_rest: "parse g s = Some (a, c # r) \<Longrightarrow> parse_all parse g s = None"
  by (simp add: parse_all_def)

lemma parse_all_None: "parse g s = None \<Longrightarrow> parse_all parse g s = None"
  by (simp add: parse_all_def)

lemma prefix_behind: "c \<notin> set k \<Longrightarrow> prefix k (u @ c # r) \<longleftrightarrow> prefix k u"
  by (auto simp: prefix_append prefix_Cons)

lemma longest_symbol_behind:
  assumes "\<forall>(k, _) \<in> set table. c \<notin> set k"
  shows "longest_symbol table (u @ c # r) = longest_symbol table u"
proof -
  have "filter (\<lambda>(k, _). prefix k (u @ c # r)) table = filter (\<lambda>(k, _). prefix k u) table"
    using assms by (intro filter_cong) (auto simp: prefix_behind)
  then show ?thesis by (simp only: longest_symbol_def)
qed

text \<open>The texts of the values, as a reader would say them: a host with a port or without; a scheme in
  front of it, or a scheme alone; a user name and a password; a number with a unit or without, which
  is cast to ticks of the target.  Numbers may begin with zeros.\<close>

definition digit_text :: "string \<Rightarrow> bool" where
  "digit_text ds \<longleftrightarrow> ds \<noteq> [] \<and> (\<forall>c \<in> set ds. is_digit 10 c)"

definition endpoint_text :: "string \<Rightarrow> endpoint \<Rightarrow> bool" where
  "endpoint_text s e \<longleftrightarrow> ep_host e \<noteq> [] \<and> colon \<notin> set (ep_host e) \<and>
     (s = ep_host e \<and> ep_port e = 0 \<or>
      (\<exists>ds. digit_text ds \<and> s = ep_host e @ colon # ds \<and> ep_port e = digits_value 10 ds \<and> ep_port e \<le> 65535))"

definition scheme_endpoint_text :: "string \<Rightarrow> scheme_endpoint \<Rightarrow> bool" where
  "scheme_endpoint_text s se \<longleftrightarrow>
     (if se_scheme se = [] then endpoint_text s (se_ep se)
      else colon \<notin> set (se_scheme se) \<and>
        ((\<exists>rest. s = se_scheme se @ ''://'' @ rest \<and> endpoint_text rest (se_ep se)) \<or>
         s = se_scheme se @ '':'' \<and> se_ep se = \<lparr>ep_host = [], ep_port = 0\<rparr>))"

definition credentials_text :: "string \<Rightarrow> credentials \<Rightarrow> bool" where
  "credentials_text s cr \<longleftrightarrow> cr_username cr \<noteq> [] \<and> colon \<notin> set (cr_username cr) \<and> cr_password cr \<noteq> [] \<and>
     s = cr_username cr @ colon # cr_password cr"

definition duration_text :: "nat \<Rightarrow> string \<Rightarrow> nat \<Rightarrow> bool" where
  "duration_text tick s d \<longleftrightarrow> d \<le> max_rep \<and>
     (\<exists>ds u. digit_text ds \<and> s = ds @ u \<and> digits_value 10 ds \<le> max_rep \<and>
        (u = [] \<and> d = digits_value 10 ds \<or>
         (\<exists>ns. (u, ns) \<in> set duration_units \<and> digits_value 10 ds * (ns div gcd ns tick) \<le> max_rep \<and>
            d = digits_value 10 ds * (ns div gcd ns tick) div (tick div gcd ns tick))))"

context x3_parser begin

lemma host_only:
  assumes "host \<noteq> []" and "colon \<notin> set host"
  shows "parse (Plus (Any_But colon)) host = Some (Str_Attr host, [])"
    and "parse (Plus (Any_But colon)) (host @ colon # r) = Some (Str_Attr host, colon # r)"
  using assms plus_word [of host "Any_But colon" "[]"] plus_word [of host "Any_But colon" "colon # r"]
  by auto

lemma endpoint_host:
  "host \<noteq> [] \<Longrightarrow> colon \<notin> set host \<Longrightarrow>
     parse (endpoint_grammar d) host = Some (Pair_Attr (Str_Attr host) (Num_Attr d), [])"
  by (simp add: endpoint_grammar_def seq alt lit attr host_only)

lemma endpoint_host_port:
  assumes "host \<noteq> []" and "colon \<notin> set host"
  shows "parse (endpoint_grammar d) (host @ colon # dec_string n) =
     (if n \<le> 65535 then Some (Pair_Attr (Str_Attr host) (Num_Attr n), [])
      else Some (Pair_Attr (Str_Attr host) (Num_Attr d), colon # dec_string n))"
  using uint_number [of "[]" 65535 n] lit [of "[colon]"]
  by (simp add: endpoint_grammar_def seq alt attr host_only [OF assms])

lemma scheme_full:
  assumes "sch \<noteq> []" "colon \<notin> set sch" "host \<noteq> []" "colon \<notin> set host" "n \<le> 65535"
  shows "parse (scheme_endpoint_grammar d) (sch @ ''://'' @ host @ colon # dec_string n) =
     Some (Pair_Attr (Str_Attr sch) (Pair_Attr (Str_Attr host) (Num_Attr n)), [])"
proof -
  have "parse (Lit ''://'') (''://'' @ host @ colon # dec_string n) = Some (No_Attr, host @ colon # dec_string n)"
    by (rule lit_append)
  then show ?thesis
    using endpoint_host_port [OF assms(3,4), of d n] host_only(2) [OF assms(1,2)] assms(5)
    by (simp add: scheme_endpoint_grammar_def seq [of "Plus (Any_But colon)"] alt seq [of "Lit ''://''"])
qed

lemma scheme_alone:
  assumes "sch \<noteq> []" "colon \<notin> set sch"
  shows "parse (scheme_endpoint_grammar d) (sch @ '':'') =
     Some (Pair_Attr (Str_Attr sch) (Pair_Attr (Str_Attr []) (Num_Attr d)), [])"
  using host_only(2) [OF assms, of "[]"]
  by (simp add: scheme_endpoint_grammar_def seq alt lit attr)

lemma scheme_none:
  assumes "host \<noteq> []" "colon \<notin> set host"
  shows "parse (scheme_endpoint_grammar d) host = None"
    and "\<exists>a. parse (scheme_endpoint_grammar d) (host @ colon # dec_string n) = Some (a, dec_string n)"
proof -
  show "parse (scheme_endpoint_grammar d) host = None"
    using host_only(1) [OF assms] by (simp add: scheme_endpoint_grammar_def seq alt lit)
  have "hd (dec_string n) \<noteq> CHR ''/''"
    using dec_string_digits [of n] dec_string_nonempty [of n]
    by (cases "dec_string n") (auto simp: is_digit_def digit_value_def)
  then have "\<not> prefix ''://'' (colon # dec_string n)"
    by (cases "dec_string n") auto
  then show "\<exists>a. parse (scheme_endpoint_grammar d) (host @ colon # dec_string n) = Some (a, dec_string n)"
    using host_only(2) [OF assms]
    by (simp add: scheme_endpoint_grammar_def seq [of "Plus (Any_But colon)"] alt
        seq [of "Lit ''://''"] seq [of "Lit '':''"] lit attr)
qed

lemma credentials_parts:
  assumes "user \<noteq> []" "colon \<notin> set user" "pass \<noteq> []"
  shows "parse credentials_grammar (user @ colon # pass) =
     Some (Pair_Attr (Str_Attr user) (Str_Attr pass), [])"
  using host_only(2) [OF assms(1,2), of pass] plus_word [of pass Any_Char "[]"] assms(3)
  by (simp add: credentials_grammar_def seq lit)

lemma duration_number:
  "n \<le> max_rep \<Longrightarrow> parse duration_grammar (dec_string n) = Some (Pair_Attr (Num_Attr n) (Num_Attr 0), [])"
  using uint_number [of "[]" max_rep n]
  by (simp add: duration_grammar_def seq alt symbols attr longest_symbol_def duration_units_def)

lemma duration_number_unit:
  assumes "n \<le> max_rep" and "(u, ns) \<in> set duration_units"
  shows "parse duration_grammar (dec_string n @ u) = Some (Pair_Attr (Num_Attr n) (Num_Attr ns), [])"
proof -
  have u: "u = [] \<or> \<not> is_digit 10 (hd u)"
    using assms(2) by (auto simp: duration_units_def is_digit_def digit_value_def)
  have "longest_symbol duration_units u = Some (u, ns)"
    using assms(2) by (auto simp: duration_units_def longest_symbol_def Let_def)
  then show ?thesis
    using uint_number [OF u, of max_rep n] assms(1) by (simp add: duration_grammar_def seq alt symbols)
qed

text \<open>An item of a list of durations: a number, its unit or nothing, and the unit's length.\<close>

lemma duration_item:
  assumes "n \<le> max_rep" and "(u, ns) \<in> set duration_units \<or> u = []"
    and "r = [] \<or> hd r = CHR '',''"
  shows "parse duration_grammar (dec_string n @ u @ r) =
     Some (Pair_Attr (Num_Attr n) (Num_Attr (if u = [] then 0 else ns)), r)"
proof -
  have ur: "u @ r = [] \<or> \<not> is_digit 10 (hd (u @ r))"
    using assms(2,3) by (auto simp: duration_units_def is_digit_def digit_value_def hd_append)
  have "longest_symbol duration_units (u @ r) = (if u = [] then None else Some (u, ns))"
  proof -
    have "\<forall>(k, _) \<in> set duration_units. CHR '','' \<notin> set k" by (simp add: duration_units_def)
    then have "longest_symbol duration_units (u @ r) = longest_symbol duration_units u"
      using assms(3) longest_symbol_behind by (cases r) fastforce+
    also have "\<dots> = (if u = [] then None else Some (u, ns))"
      using assms(2) by (auto simp: duration_units_def longest_symbol_def Let_def)
    finally show ?thesis .
  qed
  then show ?thesis
    using uint_number [OF ur, of max_rep n] assms(1)
    by (simp add: duration_grammar_def seq alt symbols attr)
qed

lemma duration_items:
  assumes "items \<noteq> []"
    and "\<forall>(n, u, ns) \<in> set items. n \<le> max_rep \<and> ((u, ns) \<in> set duration_units \<or> u = [])"
  shows "parse durations_grammar (join '','' (map (\<lambda>(n, u, ns). dec_string n @ u) items)) =
     Some (List_Attr (map (\<lambda>(n, u, ns). Pair_Attr (Num_Attr n) (Num_Attr (if u = [] then 0 else ns))) items), [])"
  using assms
proof (induction items rule: induct_list012)
  case (2 x)
  obtain n u ns where x: "x = (n, u, ns)" by (cases x)
  then show ?case
    using 2 duration_item [of n u ns "[]"] by (auto simp: durations_grammar_def sep [of "'',''"])
next
  case (3 x y zs)
  obtain n u ns where x: "x = (n, u, ns)" by (cases x)
  let ?rest = "join '','' (map (\<lambda>(n, u, ns). dec_string n @ u) (y # zs))"
  have "parse duration_grammar (dec_string n @ u @ CHR '','' # ?rest) =
      Some (Pair_Attr (Num_Attr n) (Num_Attr (if u = [] then 0 else ns)), CHR '','' # ?rest)"
    using 3(3,4) x by (intro duration_item) auto
  moreover have "parse durations_grammar ?rest =
      Some (List_Attr (map (\<lambda>(n, u, ns). Pair_Attr (Num_Attr n) (Num_Attr (if u = [] then 0 else ns))) (y # zs)), [])"
    using 3 by simp
  ultimately have "parse durations_grammar (dec_string n @ u @ CHR '','' # ?rest) =
      Some (List_Attr (map (\<lambda>(n, u, ns). Pair_Attr (Num_Attr n) (Num_Attr (if u = [] then 0 else ns))) (x # y # zs)), [])"
    unfolding durations_grammar_def by (subst sep) (simp_all add: x)
  then show ?case by (simp add: x)
qed simp

text \<open>A parse read backwards: what the input was.\<close>

lemma plus_Some: "parse (Plus k) s = Some (a, r) \<Longrightarrow>
   \<exists>w. w \<noteq> [] \<and> a = Str_Attr w \<and> (\<forall>c \<in> set w. in_class k c) \<and> s = w @ r"
  by (auto simp: plus Let_def split: if_splits dest: set_takeWhileD simp: takeWhile_dropWhile_id
      dropWhile_eq_drop [symmetric])

lemma lit_Some: "parse (Lit l) s = Some (a, r) \<Longrightarrow> a = No_Attr \<and> s = l @ r"
  by (auto simp: lit prefix_def split: if_splits)

lemma uint_Some: "parse (Uint m) s = Some (a, r) \<Longrightarrow>
   \<exists>ds. digit_text ds \<and> s = ds @ r \<and> digits_value 10 ds \<le> m \<and> a = Num_Attr (digits_value 10 ds)"
  by (auto simp: uint Let_def digit_text_def split: if_splits dest: set_takeWhileD
      simp: dropWhile_eq_drop [symmetric] intro!: exI [of _ "takeWhile (is_digit 10) s"])

lemma uint_digits:
  assumes "digit_text ds" and "r = [] \<or> \<not> is_digit 10 (hd r)"
  shows "parse (Uint m) (ds @ r) =
    (if digits_value 10 ds \<le> m then Some (Num_Attr (digits_value 10 ds), r) else None)"
proof -
  have "takeWhile (is_digit 10) (ds @ r) = ds @ takeWhile (is_digit 10) r"
    using assms(1) by (simp add: takeWhile_append digit_text_def)
  also have "takeWhile (is_digit 10) r = []" using assms(2) by (cases r) auto
  finally have "takeWhile (is_digit 10) (ds @ r) = ds" by simp
  then show ?thesis using assms(1) by (simp add: uint Let_def digit_text_def not_less)
qed

lemma seq_Some: "parse (Seq g h) s = Some (c, t) \<Longrightarrow>
   \<exists>a r b. parse g s = Some (a, r) \<and> parse h r = Some (b, t) \<and> c = pair_attr a b"
  by (auto simp: seq split: option.splits)

lemma alt_Some: "parse (Alt g h) s = Some x \<Longrightarrow> parse g s = Some x \<or> parse h s = Some x"
  by (auto simp: alt split: option.splits)

lemma attr_Some: "parse (Attr a) s = Some (b, r) \<longleftrightarrow> b = a \<and> r = s"
  by (auto simp: attr)

lemma word_Some:
  assumes "parse (Seq (Plus (Any_But colon)) g) s = Some (a, t)"
  obtains w r b where "w \<noteq> []" "colon \<notin> set w" "s = w @ r" "parse g r = Some (b, t)" "a = pair_attr (Str_Attr w) b"
proof -
  obtain a1 r b where "parse (Plus (Any_But colon)) s = Some (a1, r)" and b: "parse g r = Some (b, t)" "a = pair_attr a1 b"
    using seq_Some [OF assms] by blast
  moreover from this(1) obtain w where "w \<noteq> []" "a1 = Str_Attr w" "\<forall>c \<in> set w. in_class (Any_But colon) c" "s = w @ r"
    using plus_Some by blast
  moreover from this(3) have "colon \<notin> set w" by auto
  ultimately show thesis using that by blast
qed

lemma lit_seq_Some:
  "parse (Seq (Lit l) g) s = Some (a, t) \<Longrightarrow> \<exists>r b. s = l @ r \<and> parse g r = Some (b, t) \<and> a = b"
  by (drule seq_Some) (auto dest: lit_Some)

lemma endpoint_exact:
  "parse (endpoint_grammar 0) s = Some (a, []) \<longleftrightarrow>
     (\<exists>e. a = Pair_Attr (Str_Attr (ep_host e)) (Num_Attr (ep_port e)) \<and> endpoint_text s e)"
proof
  assume "parse (endpoint_grammar 0) s = Some (a, [])"
  then obtain h r b where h: "h \<noteq> []" "colon \<notin> set h" "s = h @ r" "a = pair_attr (Str_Attr h) b"
    and "parse (Alt (Seq (Lit '':'') (Uint 65535)) (Attr (Num_Attr 0))) r = Some (b, [])"
    unfolding endpoint_grammar_def by (rule word_Some) blast
  from alt_Some [OF this(5)]
  have b: "parse (Seq (Lit '':'') (Uint 65535)) r = Some (b, []) \<or> b = Num_Attr 0 \<and> r = []"
    by (auto simp: attr_Some)
  have "\<exists>e. b = Num_Attr (ep_port e) \<and> ep_host e = h \<and> endpoint_text s e"
    using b
  proof
    assume "parse (Seq (Lit '':'') (Uint 65535)) r = Some (b, [])"
    then obtain ds where "digit_text ds" "r = colon # ds" "digits_value 10 ds \<le> 65535"
        "b = Num_Attr (digits_value 10 ds)"
      by (auto dest!: lit_seq_Some uint_Some)
    then show ?thesis
      using h by (intro exI [of _ "\<lparr>ep_host = h, ep_port = digits_value 10 ds\<rparr>"]) (auto simp: endpoint_text_def)
  next
    assume "b = Num_Attr 0 \<and> r = []"
    then show ?thesis
      using h by (intro exI [of _ "\<lparr>ep_host = h, ep_port = 0\<rparr>"]) (auto simp: endpoint_text_def)
  qed
  then show "\<exists>e. a = Pair_Attr (Str_Attr (ep_host e)) (Num_Attr (ep_port e)) \<and> endpoint_text s e"
    using h(4) by auto
next
  assume "\<exists>e. a = Pair_Attr (Str_Attr (ep_host e)) (Num_Attr (ep_port e)) \<and> endpoint_text s e"
  then obtain e where a: "a = Pair_Attr (Str_Attr (ep_host e)) (Num_Attr (ep_port e))"
    and et: "endpoint_text s e" by blast
  from et have e: "ep_host e \<noteq> []" "colon \<notin> set (ep_host e)"
    and s: "s = ep_host e \<and> ep_port e = 0 \<or>
      (\<exists>ds. digit_text ds \<and> s = ep_host e @ colon # ds \<and> ep_port e = digits_value 10 ds \<and> ep_port e \<le> 65535)"
    by (simp_all add: endpoint_text_def)
  from s show "parse (endpoint_grammar 0) s = Some (a, [])"
  proof (elim disjE exE conjE)
    fix ds
    assume "digit_text ds" "s = ep_host e @ colon # ds" "ep_port e = digits_value 10 ds" "ep_port e \<le> 65535"
    then show ?thesis
      using uint_digits [of ds "[]" 65535] a
      by (simp add: endpoint_grammar_def seq alt lit host_only [OF e])
  qed (use endpoint_host [OF e] a in simp)
qed

lemma scheme_exact:
  "parse (scheme_endpoint_grammar 0) s = Some (a, []) \<longleftrightarrow>
     (\<exists>se. a = Pair_Attr (Str_Attr (se_scheme se))
         (Pair_Attr (Str_Attr (ep_host (se_ep se))) (Num_Attr (ep_port (se_ep se)))) \<and>
       se_scheme se \<noteq> [] \<and> scheme_endpoint_text s se)"
proof
  assume "parse (scheme_endpoint_grammar 0) s = Some (a, [])"
  then obtain w r b where w: "w \<noteq> []" "colon \<notin> set w" "s = w @ r" "a = pair_attr (Str_Attr w) b"
    and "parse (Alt (Seq (Lit ''://'') (endpoint_grammar 0))
      (Seq (Lit '':'') (Attr (Pair_Attr (Str_Attr []) (Num_Attr 0))))) r = Some (b, [])"
    unfolding scheme_endpoint_grammar_def by (rule word_Some) blast
  from alt_Some [OF this(5)]
  have b: "parse (Seq (Lit ''://'') (endpoint_grammar 0)) r = Some (b, []) \<or>
      parse (Seq (Lit '':'') (Attr (Pair_Attr (Str_Attr []) (Num_Attr 0)))) r = Some (b, [])" .
  have "\<exists>e. b = Pair_Attr (Str_Attr (ep_host e)) (Num_Attr (ep_port e)) \<and>
      scheme_endpoint_text s \<lparr>se_scheme = w, se_ep = e\<rparr>"
    using b
  proof
    assume "parse (Seq (Lit ''://'') (endpoint_grammar 0)) r = Some (b, [])"
    then obtain r' where "r = ''://'' @ r'" "parse (endpoint_grammar 0) r' = Some (b, [])"
      by (auto dest!: lit_seq_Some)
    then show ?thesis using w by (auto simp: endpoint_exact scheme_endpoint_text_def)
  next
    assume "parse (Seq (Lit '':'') (Attr (Pair_Attr (Str_Attr []) (Num_Attr 0)))) r = Some (b, [])"
    then have "r = [colon]" "b = Pair_Attr (Str_Attr []) (Num_Attr 0)"
      by (auto simp: attr_Some dest!: lit_seq_Some)
    then show ?thesis
      using w by (intro exI [of _ "\<lparr>ep_host = [], ep_port = 0\<rparr>"]) (auto simp: scheme_endpoint_text_def)
  qed
  then show "\<exists>se. a = Pair_Attr (Str_Attr (se_scheme se))
         (Pair_Attr (Str_Attr (ep_host (se_ep se))) (Num_Attr (ep_port (se_ep se)))) \<and>
       se_scheme se \<noteq> [] \<and> scheme_endpoint_text s se"
    using w(1,4) by (elim exE conjE) (rule exI, rule conjI [rotated], rule conjI [rotated], assumption, simp_all)
next
  assume "\<exists>se. a = Pair_Attr (Str_Attr (se_scheme se))
         (Pair_Attr (Str_Attr (ep_host (se_ep se))) (Num_Attr (ep_port (se_ep se)))) \<and>
       se_scheme se \<noteq> [] \<and> scheme_endpoint_text s se"
  then obtain w e where a: "a = Pair_Attr (Str_Attr w) (Pair_Attr (Str_Attr (ep_host e)) (Num_Attr (ep_port e)))"
    and w: "w \<noteq> []" "colon \<notin> set w"
    and s: "(\<exists>rest. s = w @ ''://'' @ rest \<and> endpoint_text rest e) \<or>
      s = w @ '':'' \<and> e = \<lparr>ep_host = [], ep_port = 0\<rparr>"
    by (auto simp: scheme_endpoint_text_def)
  from s show "parse (scheme_endpoint_grammar 0) s = Some (a, [])"
  proof (elim disjE exE conjE)
    fix rest
    assume s: "s = w @ ''://'' @ rest" and "endpoint_text rest e"
    then have "parse (endpoint_grammar 0) rest = Some (Pair_Attr (Str_Attr (ep_host e)) (Num_Attr (ep_port e)), [])"
      by (auto simp: endpoint_exact)
    moreover have "parse (Lit ''://'') (''://'' @ rest) = Some (No_Attr, rest)" by (rule lit_append)
    ultimately show ?thesis
      using host_only(2) [OF w, of "''//'' @ rest"] s a
      by (simp add: scheme_endpoint_grammar_def seq [of "Plus (Any_But colon)"] alt seq [of "Lit ''://''"])
  qed (use scheme_alone [OF w, of 0] a in simp)
qed

lemma credentials_exact:
  "parse credentials_grammar s = Some (a, []) \<longleftrightarrow>
     (\<exists>cr. a = Pair_Attr (Str_Attr (cr_username cr)) (Str_Attr (cr_password cr)) \<and> credentials_text s cr)"
proof
  assume "parse credentials_grammar s = Some (a, [])"
  then obtain a1 r b where a1: "parse (Seq (Plus (Any_But colon)) (Lit '':'')) s = Some (a1, r)"
    and b: "parse (Plus Any_Char) r = Some (b, [])" "a = pair_attr a1 b"
    unfolding credentials_grammar_def using seq_Some by blast
  from a1 obtain u r1 b1 where u: "u \<noteq> []" "colon \<notin> set u" "s = u @ r1" "parse (Lit '':'') r1 = Some (b1, r)"
      "a1 = pair_attr (Str_Attr u) b1"
    by (rule word_Some) blast
  obtain p where "p \<noteq> []" "b = Str_Attr p" "r = p" using plus_Some [OF b(1)] by auto
  with u b(2) lit_Some [OF u(4)] have "u \<noteq> []" "colon \<notin> set u" "p \<noteq> []" "s = u @ colon # p"
      "a = Pair_Attr (Str_Attr u) (Str_Attr p)" by auto
  then show "\<exists>cr. a = Pair_Attr (Str_Attr (cr_username cr)) (Str_Attr (cr_password cr)) \<and> credentials_text s cr"
    by (intro exI [of _ "\<lparr>cr_username = u, cr_password = p\<rparr>"]) (simp add: credentials_text_def)
qed (use credentials_parts in \<open>auto simp: credentials_text_def\<close>)

lemma duration_exact:
  "parse duration_grammar s = Some (a, []) \<longleftrightarrow>
     (\<exists>ds u ns. a = Pair_Attr (Num_Attr (digits_value 10 ds)) (Num_Attr ns) \<and> s = ds @ u \<and> digit_text ds \<and>
       digits_value 10 ds \<le> max_rep \<and> ((u, ns) \<in> set duration_units \<or> u = [] \<and> ns = 0))"
proof
  assume "parse duration_grammar s = Some (a, [])"
  then obtain a1 r b where a1: "parse (Uint max_rep) s = Some (a1, r)" and a: "a = pair_attr a1 b"
    and "parse (Alt (Symbols duration_units) (Attr (Num_Attr 0))) r = Some (b, [])"
    unfolding duration_grammar_def using seq_Some by blast
  from alt_Some [OF this(3)] have b: "parse (Symbols duration_units) r = Some (b, []) \<or> b = Num_Attr 0 \<and> r = []"
    by (auto simp: attr_Some)
  from uint_Some [OF a1] a obtain ds where ds: "digit_text ds" "s = ds @ r" "digits_value 10 ds \<le> max_rep"
      "a = pair_attr (Num_Attr (digits_value 10 ds)) b" by blast
  have "\<exists>ns. b = Num_Attr ns \<and> ((r, ns) \<in> set duration_units \<or> r = [] \<and> ns = 0)"
    using b
  proof
    assume "parse (Symbols duration_units) r = Some (b, [])"
    then obtain k ns where "longest_symbol duration_units r = Some (k, ns)" "b = Num_Attr ns"
        "drop (length k) r = []"
      by (auto simp: symbols)
    moreover from this(1) have "(k, ns) \<in> set duration_units" "prefix k r"
      by (auto simp: longest_symbol_def Let_def find_Some_iff in_set_conv_nth dest: nth_mem)
    ultimately show ?thesis by (auto simp: prefix_def)
  qed blast
  then obtain ns where "b = Num_Attr ns" "(r, ns) \<in> set duration_units \<or> r = [] \<and> ns = 0" by blast
  then show "\<exists>ds u ns. a = Pair_Attr (Num_Attr (digits_value 10 ds)) (Num_Attr ns) \<and> s = ds @ u \<and> digit_text ds \<and>
       digits_value 10 ds \<le> max_rep \<and> ((u, ns) \<in> set duration_units \<or> u = [] \<and> ns = 0)"
    using ds by (intro exI [of _ ds] exI [of _ r] exI [of _ ns]) simp
next
  assume "\<exists>ds u ns. a = Pair_Attr (Num_Attr (digits_value 10 ds)) (Num_Attr ns) \<and> s = ds @ u \<and> digit_text ds \<and>
       digits_value 10 ds \<le> max_rep \<and> ((u, ns) \<in> set duration_units \<or> u = [] \<and> ns = 0)"
  then obtain ds u ns where s: "s = ds @ u" and ds: "digit_text ds" "digits_value 10 ds \<le> max_rep"
    and a: "a = Pair_Attr (Num_Attr (digits_value 10 ds)) (Num_Attr ns)"
    and u: "(u, ns) \<in> set duration_units \<or> u = [] \<and> ns = 0" by blast
  have "u = [] \<or> \<not> is_digit 10 (hd u)"
    using u by (auto simp: duration_units_def is_digit_def digit_value_def)
  from uint_digits [OF ds(1) this] have "parse (Uint max_rep) s = Some (Num_Attr (digits_value 10 ds), u)"
    using s ds(2) by simp
  moreover have "longest_symbol duration_units u = (if u = [] then None else Some (u, ns))"
    using u by (auto simp: duration_units_def longest_symbol_def Let_def)
  ultimately show "parse duration_grammar s = Some (a, [])"
    using a u by (auto simp: duration_grammar_def seq alt symbols attr duration_units_def)
qed

lemma is_log_name_core:
  assumes "rest \<noteq> []" and "CHR ''.'' \<notin> set rest"
  shows "is_log_name parse (''Core.'' @ rest)"
proof -
  have "parse (Lit ''Sinks.'') (''Core.'' @ rest) = None" by (simp add: lit)
  moreover have "parse (Lit ''Core.'') (''Core.'' @ rest) = Some (No_Attr, rest)" by (rule lit_append)
  moreover have "parse (Plus (Any_But CHR ''.'')) rest = Some (Str_Attr rest, [])"
    using plus_word [of rest "Any_But CHR ''.''" "[]"] assms by auto
  ultimately show ?thesis
    by (simp add: is_log_name_def parse_all_def log_name_grammar_def seq alt)
qed

end


lemma emplace_map_of: "map_of xs ++ emplace k v m = map_of ((k, v) # xs) ++ m"
  by (auto simp: emplace_def fun_eq_iff map_add_def split: option.splits)

lemma init_log_loop_pairs:
  "init_log_loop parse (map (\<lambda>(k, v). \<lparr>string_key = k, opt_value = [v],
       unregistered = \<not> is_registered a k, original_tokens = [k, v]\<rparr>) kvs) tree found m =
   (let free = filter (\<lambda>kv. \<not> is_registered a (fst kv)) kvs;
        logs = filter (\<lambda>kv. is_log_name parse (fst kv)) free;
        others = filter (\<lambda>kv. \<not> is_log_name parse (fst kv)) free
    in (tree @ logs, found \<or> logs \<noteq> [], map_of others ++ m))"
proof (induction kvs arbitrary: tree found m)
  case (Cons kv kvs)
  obtain k v where kv: "kv = (k, v)" by (cases kv)
  show ?case
    using Cons.IH by (simp add: kv Let_def emplace_map_of)
qed simp


lemma single_value_Inr: "single_value v vs = Inr x \<Longrightarrow> v = None \<and> vs = [x]"
  by (auto simp: single_value_def split: if_splits list.splits)

lemma duration_cast_bound: "duration_cast u tick n = Inr d \<Longrightarrow> d \<le> max_rep"
  by (auto simp: duration_cast_def Let_def split: if_splits intro: order_trans [OF div_le_dividend])

lemma parse_all_eq_Some: "parse_all parse g s = Some a \<longleftrightarrow> parse g s = Some (a, [])"
  by (auto simp: parse_all_def split: option.splits list.splits)

lemma to_endpoint_Some: "to_endpoint a = Some e \<longleftrightarrow> a = Pair_Attr (Str_Attr (ep_host e)) (Num_Attr (ep_port e))"
  by (cases e; cases a rule: to_endpoint.cases) auto

lemma to_scheme_endpoint_Some:
  "to_scheme_endpoint a = Some se \<longleftrightarrow>
     a = Pair_Attr (Str_Attr (se_scheme se))
       (Pair_Attr (Str_Attr (ep_host (se_ep se))) (Num_Attr (ep_port (se_ep se))))"
  by (cases se; cases a rule: to_scheme_endpoint.cases) (auto simp: to_endpoint_Some)

lemma to_credentials_Some:
  "to_credentials a = Some cr \<longleftrightarrow> a = Pair_Attr (Str_Attr (cr_username cr)) (Str_Attr (cr_password cr))"
  by (cases cr; cases a rule: to_credentials.cases) auto

text \<open>What is read from all of a text.\<close>

lemma read_endpoint:
  assumes "x3_parser parse"
  shows "Option.bind (parse_all parse (endpoint_grammar 0) s) to_endpoint = Some e \<longleftrightarrow> endpoint_text s e"
  by (auto simp: bind_eq_Some_conv parse_all_eq_Some x3_parser.endpoint_exact [OF assms] to_endpoint_Some)
     (metis endpoint.equality old.unit.exhaust)

lemma read_scheme_endpoint:
  assumes "x3_parser parse"
  shows "Option.bind (parse_all parse (scheme_endpoint_grammar 0) s) to_scheme_endpoint = Some se \<longleftrightarrow>
    se_scheme se \<noteq> [] \<and> scheme_endpoint_text s se"
  by (auto simp: bind_eq_Some_conv parse_all_eq_Some x3_parser.scheme_exact [OF assms] to_scheme_endpoint_Some)
     (metis endpoint.equality scheme_endpoint.equality old.unit.exhaust)+

lemma read_credentials:
  assumes "x3_parser parse"
  shows "Option.bind (parse_all parse credentials_grammar s) to_credentials = Some cr \<longleftrightarrow> credentials_text s cr"
  by (auto simp: bind_eq_Some_conv parse_all_eq_Some x3_parser.credentials_exact [OF assms] to_credentials_Some)
     (metis credentials.equality old.unit.exhaust)

text \<open>A text with a scheme is not one of an endpoint alone.\<close>

lemma colon_split:
  "c \<notin> set u \<Longrightarrow> c \<notin> set v \<Longrightarrow> u @ c # x = v @ c # y \<longleftrightarrow> u = v \<and> x = y"
  by (auto simp: append_eq_append_conv2 Cons_eq_append_conv append_eq_Cons_conv)

lemma scheme_not_endpoint:
  assumes "se_scheme se \<noteq> []" and "scheme_endpoint_text s se"
  shows "\<not> endpoint_text s e"
proof
  assume e: "endpoint_text s e"
  from assms obtain r where r: "s = se_scheme se @ colon # r" "colon \<notin> set (se_scheme se)" "r = [] \<or> hd r = CHR ''/''"
    by (auto simp: scheme_endpoint_text_def)
  then have "colon \<in> set s" by simp
  with e obtain ds where ds: "digit_text ds" "s = ep_host e @ colon # ds" "colon \<notin> set (ep_host e)"
    by (auto simp: endpoint_text_def)
  then have "ds = r" using r colon_split by metis
  then show False using ds(1) r(3) by (cases ds) (auto simp: digit_text_def is_digit_def digit_value_def)
qed

lemma validated:
  "(case single_value v vs of Inl e \<Rightarrow> Inl e | Inr s \<Rightarrow> (case f s of None \<Rightarrow> Inl (err s) | Some x \<Rightarrow> Inr x)) = Inr y
     \<longleftrightarrow> v = None \<and> (\<exists>s. vs = [s] \<and> f s = Some y)"
  by (auto simp: single_value_def split: list.splits option.splits)

lemma validate_endpoint_exact:
  assumes "x3_parser parse"
  shows "validate_endpoint parse v vs = Inr e \<longleftrightarrow> v = None \<and> (\<exists>s. vs = [s] \<and> endpoint_text s e)"
  unfolding validate_endpoint_def validated read_endpoint [OF assms] ..

lemma validate_credentials_exact:
  assumes "x3_parser parse"
  shows "validate_credentials parse v vs = Inr cr \<longleftrightarrow> v = None \<and> (\<exists>s. vs = [s] \<and> credentials_text s cr)"
  unfolding validate_credentials_def validated read_credentials [OF assms] ..

lemma validate_scheme_endpoint_exact:
  assumes "x3_parser parse"
  shows "validate_scheme_endpoint parse v vs = Inr se \<longleftrightarrow>
    v = None \<and> (\<exists>s. vs = [s] \<and> scheme_endpoint_text s se)"
proof -
  let ?scheme = "\<lambda>s. Option.bind (parse_all parse (scheme_endpoint_grammar 0) s) to_scheme_endpoint"
  let ?plain = "\<lambda>s. map_option (\<lambda>ep. \<lparr>se_scheme = [], se_ep = ep\<rparr>)
    (Option.bind (parse_all parse (endpoint_grammar 0) s) to_endpoint)"
  have "validate_scheme_endpoint parse v vs = (case single_value v vs of Inl e \<Rightarrow> Inl e
      | Inr s \<Rightarrow> (case (case ?scheme s of Some se \<Rightarrow> Some se | None \<Rightarrow> ?plain s) of
          None \<Rightarrow> Inl (Invalid_Option ''schema-endpoint'') | Some se \<Rightarrow> Inr se))"
    by (auto simp: validate_scheme_endpoint_def split: sum.split option.split)
  then have "validate_scheme_endpoint parse v vs = Inr se \<longleftrightarrow>
      v = None \<and> (\<exists>s. vs = [s] \<and> (case ?scheme s of Some se \<Rightarrow> Some se | None \<Rightarrow> ?plain s) = Some se)"
    by (simp only: validated)
  moreover have "(case ?scheme s of Some se \<Rightarrow> Some se | None \<Rightarrow> ?plain s) = Some se \<longleftrightarrow>
      scheme_endpoint_text s se" for s
  proof (cases "?scheme s")
    case None
    then have "\<not> (se_scheme se \<noteq> [] \<and> scheme_endpoint_text s se)"
      using read_scheme_endpoint [OF assms, of s se] by simp
    moreover have "?plain s = Some se \<longleftrightarrow> se_scheme se = [] \<and> endpoint_text s (se_ep se)"
      using read_endpoint [OF assms] by (cases se) auto
    ultimately show ?thesis using None by (auto simp: scheme_endpoint_text_def)
  next
    case (Some se')
    then have se': "se_scheme se' \<noteq> []" "scheme_endpoint_text s se'"
      using read_scheme_endpoint [OF assms, of s se'] by auto
    have "scheme_endpoint_text s se \<Longrightarrow> se_scheme se \<noteq> []"
      using scheme_not_endpoint [OF se'] by (auto simp: scheme_endpoint_text_def)
    then show ?thesis using Some read_scheme_endpoint [OF assms, of s se] by auto
  qed
  ultimately show ?thesis by simp
qed

lemma parse_cast_Inr:
  "parse_cast parse g cast msg s = Inr d \<longleftrightarrow> (\<exists>a. parse g s = Some (a, []) \<and> cast a = Some (Inr d))"
  by (auto simp: parse_cast_def split: option.splits sum.splits)

lemma duration_cast_Inr:
  "duration_cast ns tick n = Inr d \<longleftrightarrow>
     n * (ns div gcd ns tick) \<le> max_rep \<and> d = n * (ns div gcd ns tick) div (tick div gcd ns tick)"
  by (auto simp: duration_cast_def Let_def)

lemma unit_cast:
  "(\<exists>ns. ((u, ns) \<in> set duration_units \<or> u = [] \<and> ns = 0) \<and>
      to_duration tick (Pair_Attr (Num_Attr n) (Num_Attr ns)) = Some (Inr d)) \<longleftrightarrow>
     u = [] \<and> d = n \<or> (\<exists>ns. (u, ns) \<in> set duration_units \<and> duration_cast ns tick n = Inr d)"
proof -
  have "ns \<noteq> 0" if "(u, ns) \<in> set duration_units" for ns
    using that by (auto simp: duration_units_def)
  then show ?thesis by (simp del: set_simps) (metis neq0_conv)
qed

lemma duration_text_cast:
  "duration_text tick s d \<longleftrightarrow>
     (\<exists>ds u. s = ds @ u \<and> digit_text ds \<and> digits_value 10 ds \<le> max_rep \<and>
        (u = [] \<and> d = digits_value 10 ds \<or>
         (\<exists>ns. (u, ns) \<in> set duration_units \<and> duration_cast ns tick (digits_value 10 ds) = Inr d)))"
  (is "_ \<longleftrightarrow> ?cast")
proof -
  have "?cast \<Longrightarrow> d \<le> max_rep" using duration_cast_bound by blast
  then show ?thesis unfolding duration_text_def duration_cast_Inr by blast
qed

lemma validate_duration_exact:
  assumes "x3_parser parse"
  shows "validate_duration parse tick v vs = Inr d \<longleftrightarrow> v = None \<and> (\<exists>s. vs = [s] \<and> duration_text tick s d)"
proof -
  have "parse_cast parse duration_grammar (to_duration tick) ''invalid duration'' s = Inr d \<longleftrightarrow>
      (\<exists>ds u. s = ds @ u \<and> digit_text ds \<and> digits_value 10 ds \<le> max_rep \<and>
        (\<exists>ns. ((u, ns) \<in> set duration_units \<or> u = [] \<and> ns = 0) \<and>
          to_duration tick (Pair_Attr (Num_Attr (digits_value 10 ds)) (Num_Attr ns)) = Some (Inr d)))" for s
    unfolding parse_cast_Inr x3_parser.duration_exact [OF assms] by blast
  then have "parse_cast parse duration_grammar (to_duration tick) ''invalid duration'' s = Inr d \<longleftrightarrow>
      duration_text tick s d" for s
    unfolding unit_cast duration_text_cast .
  then show ?thesis
    by (auto simp: validate_duration_def single_value_def split: list.splits)
qed

lemma reduced_quotient:
  assumes "0 < (ns :: nat)"
  shows "n * (ns div gcd ns tick) div (tick div gcd ns tick) = n * ns div tick"
proof -
  let ?g = "gcd ns tick"
  have g: "0 < ?g" using assms by simp
  have "n * ns = n * (ns div ?g) * ?g" by simp
  moreover have "tick = tick div ?g * ?g" by simp
  ultimately have "n * ns div tick = (n * (ns div ?g) * ?g) div (tick div ?g * ?g)" by metis
  also have "\<dots> = n * (ns div ?g) div (tick div ?g)" using g by (simp only: div_mult_mult2)
  finally show ?thesis by simp
qed

lemma duration_cast_value:
  "0 < ns \<Longrightarrow> n * (ns div gcd ns tick) \<le> max_rep \<Longrightarrow> duration_cast ns tick n = Inr (n * ns div tick)"
  by (simp add: duration_cast_def Let_def reduced_quotient)


section \<open>Properties\<close>

text \<open>\<^verbatim>\<open>host:port\<close> and \<^verbatim>\<open>host\<close> are endpoints: for every host without a colon
  and every port number, the value is read as exactly these, the port 0 if there is none, and a
  number above 65535 is an error.\<close>

theorem endpoint_value:
  assumes "x3_parser parse" and "host \<noteq> []" and "colon \<notin> set host"
  shows "validate_endpoint parse None [host] = Inr \<lparr>ep_host = host, ep_port = 0\<rparr> \<and>
    validate_endpoint parse None [host @ colon # dec_string n] =
      (if n \<le> 65535 then Inr \<lparr>ep_host = host, ep_port = n\<rparr>
       else Inl (Invalid_Option ''invalid endpoint''))"
  using x3_parser.endpoint_host [OF assms, of 0] x3_parser.endpoint_host_port [OF assms, of 0 n]
  by (simp add: validate_endpoint_def single_value_def parse_all_def)

lemma endpoint_value_witness:
  "validate_endpoint peg None [''localhost'' @ colon # dec_string 8080] =
     Inr \<lparr>ep_host = ''localhost'', ep_port = 8080\<rparr>"
  using endpoint_value [OF x3_parser_peg, of "''localhost''" 8080] by simp

text \<open>C36: an endpoint with a scheme: \<^verbatim>\<open>scheme://host:port\<close> is read as its three parts,
  \<^verbatim>\<open>scheme:\<close> as a scheme alone, and a plain endpoint, which is no text with a scheme, by the
  second attempt with an empty scheme.\<close>

theorem scheme_endpoint_value:
  assumes "x3_parser parse" and "sch \<noteq> []" and "colon \<notin> set sch"
    and "host \<noteq> []" and "colon \<notin> set host" and "n \<le> 65535"
  shows "validate_scheme_endpoint parse None [sch @ ''://'' @ host @ colon # dec_string n] =
      Inr \<lparr>se_scheme = sch, se_ep = \<lparr>ep_host = host, ep_port = n\<rparr>\<rparr> \<and>
    validate_scheme_endpoint parse None [sch @ '':''] =
      Inr \<lparr>se_scheme = sch, se_ep = \<lparr>ep_host = [], ep_port = 0\<rparr>\<rparr> \<and>
    validate_scheme_endpoint parse None [host @ colon # dec_string n] =
      Inr \<lparr>se_scheme = [], se_ep = \<lparr>ep_host = host, ep_port = n\<rparr>\<rparr> \<and>
    validate_scheme_endpoint parse None [host] =
      Inr \<lparr>se_scheme = [], se_ep = \<lparr>ep_host = host, ep_port = 0\<rparr>\<rparr>"
  using x3_parser.scheme_full [OF assms(1) assms(2-6), of 0] x3_parser.scheme_alone [OF assms(1-3), of 0]
    x3_parser.scheme_none(1) [OF assms(1,4,5), of 0] x3_parser.scheme_none(2) [OF assms(1,4,5), of 0 n]
    x3_parser.endpoint_host [OF assms(1,4,5), of 0] x3_parser.endpoint_host_port [OF assms(1,4,5), of 0 n]
    assms(6) dec_string_nonempty [of n]
  by (auto simp: validate_scheme_endpoint_def single_value_def parse_all_def split: list.splits)

lemma scheme_endpoint_value_witness:
  "validate_scheme_endpoint peg None [''udp'' @ ''://'' @ ''host'' @ colon # dec_string 53] =
     Inr \<lparr>se_scheme = ''udp'', se_ep = \<lparr>ep_host = ''host'', ep_port = 53\<rparr>\<rparr>"
  using scheme_endpoint_value [OF x3_parser_peg, of "''udp''" "''host''" 53] by simp

text \<open>C23: the validators accept exactly the texts of their values, and one text gives one value:
  a host that is not empty and has no colon, alone or with a port of 16 bits; the same behind a scheme
  without a colon, or such a scheme alone, as in \<^verbatim>\<open>http:\<close>, with an empty host and the port 0;
  a user name without a colon and a password, neither of them empty; a number of the representation,
  alone or with a unit, whose cast fits the representation.  An option is never given a second value.\<close>

theorem accepted_values:
  assumes "x3_parser parse"
  shows "(validate_endpoint parse v vs = Inr ep \<longleftrightarrow> v = None \<and> (\<exists>s. vs = [s] \<and> endpoint_text s ep)) \<and>
    (validate_scheme_endpoint parse w vs = Inr se \<longleftrightarrow> w = None \<and> (\<exists>s. vs = [s] \<and> scheme_endpoint_text s se)) \<and>
    (validate_credentials parse x vs = Inr cr \<longleftrightarrow> x = None \<and> (\<exists>s. vs = [s] \<and> credentials_text s cr)) \<and>
    (validate_duration parse tick y vs = Inr d \<longleftrightarrow> y = None \<and> (\<exists>s. vs = [s] \<and> duration_text tick s d))"
  by (intro conjI validate_endpoint_exact [OF assms] validate_scheme_endpoint_exact [OF assms]
      validate_credentials_exact [OF assms] validate_duration_exact [OF assms])

lemma accepted_values_witness:
  "validate_endpoint peg None [''localhost:080''] = Inr \<lparr>ep_host = ''localhost'', ep_port = 80\<rparr> \<and>
   validate_scheme_endpoint peg None [''http:''] =
     Inr \<lparr>se_scheme = ''http'', se_ep = \<lparr>ep_host = [], ep_port = 0\<rparr>\<rparr>"
proof -
  note exact = accepted_values [OF x3_parser_peg]
  have "digit_text ''080''" "digits_value 10 ''080'' = 80" by code_simp+
  then have "endpoint_text ''localhost:080'' \<lparr>ep_host = ''localhost'', ep_port = 80\<rparr>"
    by (auto simp: endpoint_text_def intro!: exI [of _ "''080''"])
  moreover have "scheme_endpoint_text ''http:'' \<lparr>se_scheme = ''http'', se_ep = \<lparr>ep_host = [], ep_port = 0\<rparr>\<rparr>"
    by (simp add: scheme_endpoint_text_def)
  ultimately show ?thesis
    using exact [THEN conjunct1, of None "[''localhost:080'']" "\<lparr>ep_host = ''localhost'', ep_port = 80\<rparr>"]
      exact [THEN conjunct2, THEN conjunct1, of None "[''http:'']"] by simp
qed

text \<open>C35: durations: a number with a unit is read as the duration cast from that unit, a number
  alone as ticks of the target type; so with the unit of the target itself the number comes back.
  The cast multiplies without a check: a number that passes the parser but not the product, as in
  \<^verbatim>\<open>3000000h\<close> for nanoseconds, is a signed overflow.\<close>

theorem duration_value:
  assumes "x3_parser parse" and "n \<le> max_rep" and "(u, ns) \<in> set duration_units" and "0 < tick"
  shows "validate_duration parse tick None [dec_string n] = Inr n \<and>
    validate_duration parse tick None [dec_string n @ u] =
      (if n * (ns div gcd ns tick) > max_rep then Inl (Validation_Fault Undefined)
       else Inr (n * ns div tick)) \<and>
    validate_duration parse ns None [dec_string n @ u] = Inr n"
proof -
  have pos: "0 < ns" using assms(3) by (auto simp: duration_units_def)
  note q = reduced_quotient [OF pos]
  have "gcd ns ns = ns" by simp
  then have own: "ns div gcd ns ns = 1" using pos by simp
  show ?thesis
    using x3_parser.duration_number [OF assms(1,2)] x3_parser.duration_number_unit [OF assms(1-3)] pos own q
      assms(2)
    by (simp add: validate_duration_def single_value_def parse_cast_def duration_cast_def Let_def)
qed

lemma duration_value_witness:
  "validate_duration peg 1 None [dec_string 3000000 @ ''h''] = Inl (Validation_Fault Undefined) \<and>
   validate_duration peg 1000000000 None [dec_string 90 @ ''m''] = Inr 5400"
  using duration_value [OF x3_parser_peg, of 3000000 "''h''" 3600000000000 1]
    duration_value [OF x3_parser_peg, of 90 "''m''" 60000000000 1000000000]
  by (simp add: max_rep_def duration_units_def)

text \<open>C34: lists of durations: numbers with units, or alone, with commas between them are read in order,
  each with its own unit, as the casts to the period of the target; with the target's own unit, or
  none, the numbers come back.\<close>

theorem durations_value:
  assumes "x3_parser parse" and "items \<noteq> []" and "0 < tick"
    and "\<forall>(n, u, ns) \<in> set items. n \<le> max_rep \<and> n * (ns div gcd ns tick) \<le> max_rep \<and>
      ((u, ns) \<in> set duration_units \<or> u = [] \<and> ns = tick)"
  shows "validate_durations parse tick None [join '','' (map (\<lambda>(n, u, ns). dec_string n @ u) items)] =
    Inr (map (\<lambda>(n, u, ns). n * ns div tick) items)"
proof -
  have "parse durations_grammar (join '','' (map (\<lambda>(n, u, ns). dec_string n @ u) items)) =
      Some (List_Attr (map (\<lambda>(n, u, ns). Pair_Attr (Num_Attr n) (Num_Attr (if u = [] then 0 else ns))) items), [])"
    using assms(2,4) by (intro x3_parser.duration_items [OF assms(1)]) auto
  moreover have "cast_all tick (map (\<lambda>(n, u, ns). Pair_Attr (Num_Attr n) (Num_Attr (if u = [] then 0 else ns))) items) =
      Some (Inr (map (\<lambda>(n, u, ns). n * ns div tick) items))"
    using assms(4)
  proof (induction items)
    case (Cons x items)
    obtain n u ns where x: "x = (n, u, ns)" by (cases x)
    have "to_duration tick (Pair_Attr (Num_Attr n) (Num_Attr (if u = [] then 0 else ns))) = Some (Inr (n * ns div tick))"
      using Cons.prems x assms(3) duration_cast_value [of ns n tick] by (auto simp: duration_units_def)
    then show ?case using Cons x by simp
  qed simp
  ultimately show ?thesis by (simp add: validate_durations_def single_value_def parse_cast_def)
qed

lemma durations_value_witness:
  "validate_durations peg 1000000 None
     [join '','' [dec_string 15 @ ''s'', dec_string 7 @ [], dec_string 2 @ ''ms'']] = Inr [15000, 7, 2]"
  using durations_value [OF x3_parser_peg,
      of "[(15, ''s'', 1000000000), (7, [], 1000000), (2, ''ms'', 1000000)]" 1000000]
  by (simp add: max_rep_def duration_units_def)

text \<open>The options of an ini file that its description does not know: when
  \<^verbatim>\<open>parse_ini\<close> allows them, each unregistered pair whose key is a log setting goes to the
  settings of the log, in file order, and each other one to the map of values, where the first of
  equal keys wins; registered ones go to neither.\<close>

theorem unregistered_options_split:
  assumes "register_options ns no_options = Inr a" and "parse_file fuel fs filename = Inr kvs"
    and "parse_ini fuel fs filename ns True = Inr opts"
  shows "init_log_from_options parse opts m =
    (let free = filter (\<lambda>kv. \<not> is_registered a (fst kv)) kvs;
         logs = filter (\<lambda>kv. is_log_name parse (fst kv)) free;
         others = filter (\<lambda>kv. \<not> is_log_name parse (fst kv)) free
     in (logs, logs \<noteq> [], map_of others ++ m))"
proof -
  have opts: "opts = map (\<lambda>(k, v). \<lparr>string_key = k, opt_value = [v], unregistered = \<not> is_registered a k,
      original_tokens = [k, v]\<rparr>) kvs"
    using assms by (auto simp: parse_ini_def make_options_eq split: list.splits)
  show ?thesis
    by (simp add: init_log_from_options_def opts init_log_loop_pairs Let_def)
qed

lemma unregistered_options_split_witness:
  "init_log_from_options peg [\<lparr>string_key = ''Core.x'', opt_value = [''1''], unregistered = True,
     original_tokens = [''Core.x'', ''1'']\<rparr>] Map.empty = ([(''Core.x'', ''1'')], True, Map.empty)"
proof -
  let ?fs = "flat_fs [(''/a'', print_doc [Entry ''Core.x'' ''1''])]"
  let ?opts = "[\<lparr>string_key = ''Core.x'', opt_value = [''1''], unregistered = True,
     original_tokens = [''Core.x'', ''1'']\<rparr>]"
  have "ini_parse 1 ?fs (print_doc [Entry ''Core.x'' ''1'']) ''/a'' empty_state =
      Inr (add_values (doc_pairs [] [Entry ''Core.x'' ''1'']) empty_state)"
    by (rule ini_parse_print_doc) (simp_all add: is_absolute_def empty_state_def trim_eq_Nil_iff is_space_eq)
  then have f: "parse_file 1 ?fs ''/a'' = Inr [(''Core.x'', ''1'')]"
    by (simp add: parse_file_def parse_impl_def empty_state_def)
  have r: "register_options [] no_options = Inr no_options" by simp
  have un: "\<not> is_registered no_options ''Core.x''"
    by (simp add: is_registered_def no_options_def lower_bound_def)
  have p: "parse_ini 1 ?fs ''/a'' [] True = Inr ?opts"
    using f un by (simp add: parse_ini_def make_option_def)
  have "is_log_name peg ''Core.x''"
    using x3_parser.is_log_name_core [OF x3_parser_peg, of "''x''"] by simp
  then show ?thesis
    using unregistered_options_split [OF r f p, of peg Map.empty] un by simp
qed

end
