(* ===== verification/Readable_Time.thy ===== *)
theory Readable_Time
  imports Fb_Prelude
begin

text \<open>
  \<^verbatim>\<open>readable_time\<close> of \<^verbatim>\<open>utils/histogram/chrono_axes.hpp\<close>: a duration as text.  From
  one minute on the text is \<^verbatim>\<open>std::to_string\<close> of a quotient of doubles, which is a
  parameter; below, the text is an integer number of the largest unit that fits.
\<close>

definition int_string :: "int \<Rightarrow> string" where
  "int_string n = (if n < 0 then ''-'' @ dec_string (nat (- n)) else dec_string (nat n))"

definition time_units :: "(string \<times> int) list" where
  "time_units = [('' s'', 1000000000), ('' ms'', 1000000), ('' us'', 1000), ('' ns'', 1)]"

text \<open>\<open>tick\<close> is the period of the duration in nanoseconds, \<open>count\<close> its ticks; the cast to
  nanoseconds is a product of signed 64-bit integers.  \<open>fmt_quot a b\<close> stands for
  \<^verbatim>\<open>std::to_string(double(a) / b)\<close>.\<close>

definition readable_time :: "(int \<Rightarrow> int \<Rightarrow> string) \<Rightarrow> int \<Rightarrow> int \<Rightarrow> string outcome" where
  "readable_time fmt_quot tick count =
     (let ns = count * tick in
      if ns \<ge> 2 ^ 63 \<or> ns < - (2 ^ 63) then Inl Undefined
      else if ns = 0 then Inr ''0''
      else if ns < 60 * 1000000000 then
        Inr (if ns mod 1000000000 = 0 then int_string (ns div 1000000000) @ '' s''
             else if ns mod 1000000 = 0 then int_string (ns div 1000000) @ '' ms''
             else if ns mod 1000 = 0 then int_string (ns div 1000) @ '' us''
             else int_string ns @ '' ns'')
      else if ns < 9 * (60 * 1000000000) then Inr (fmt_quot ns 1000000000 @ '' s'')
      else Inr (fmt_quot ns 60000000000 @ '' min''))"

text \<open>C37: below a minute \<^verbatim>\<open>readable_time\<close> loses nothing: the text is the integer number
  of a unit that makes up the duration, and no larger unit divides it.\<close>

theorem readable_time_exact:
  assumes "count * tick < 60 * 1000000000" and "- (2 ^ 63) \<le> count * tick" and "count * tick \<noteq> 0"
  shows "\<exists>k u f. readable_time fmt_quot tick count = Inr (int_string k @ u) \<and> (u, f) \<in> set time_units \<and>
    k * f = count * tick \<and> (\<forall>(u', f') \<in> set time_units. f' dvd count * tick \<longrightarrow> f' \<le> f)"
proof -
  define ns where "ns = count * tick"
  have ns: "ns < 60 * 1000000000" "- (2 ^ 63) \<le> ns" "ns \<noteq> 0" using assms by (simp_all add: ns_def)
  have r: "readable_time fmt_quot tick count =
      Inr (if ns mod 1000000000 = 0 then int_string (ns div 1000000000) @ '' s''
           else if ns mod 1000000 = 0 then int_string (ns div 1000000) @ '' ms''
           else if ns mod 1000 = 0 then int_string (ns div 1000) @ '' us''
           else int_string ns @ '' ns'')"
    using ns by (simp add: readable_time_def Let_def ns_def [symmetric])
  consider "1000000000 dvd ns" | "\<not> 1000000000 dvd ns" "1000000 dvd ns"
    | "\<not> 1000000000 dvd ns" "\<not> 1000000 dvd ns" "1000 dvd ns"
    | "\<not> 1000000000 dvd ns" "\<not> 1000000 dvd ns" "\<not> 1000 dvd ns" by blast
  then show ?thesis
  proof cases
    case 1
    then show ?thesis
      using r by (intro exI [of _ "ns div 1000000000"] exI [of _ "'' s''"] exI [of _ 1000000000])
        (simp add: time_units_def dvd_eq_mod_eq_0 ns_def [symmetric])
  next
    case 2
    then show ?thesis
      using r by (intro exI [of _ "ns div 1000000"] exI [of _ "'' ms''"] exI [of _ 1000000])
        (simp add: time_units_def dvd_eq_mod_eq_0 ns_def [symmetric])
  next
    case 3
    then show ?thesis
      using r by (intro exI [of _ "ns div 1000"] exI [of _ "'' us''"] exI [of _ 1000])
        (simp add: time_units_def dvd_eq_mod_eq_0 ns_def [symmetric])
  next
    case 4
    then show ?thesis
      using r by (intro exI [of _ ns] exI [of _ "'' ns''"] exI [of _ 1])
        (simp add: time_units_def dvd_eq_mod_eq_0 ns_def [symmetric])
  qed
qed

lemma readable_time_exact_witness:
  "\<exists>k u f. readable_time (\<lambda>_ _. []) 1000 1500 = Inr (int_string k @ u) \<and> (u, f) \<in> set time_units \<and>
     k * f = 1500 * 1000"
  using readable_time_exact [of 1500 1000 "\<lambda>_ _. []"] by auto

end
