(* ===== verification/Duration_Axis.thy ===== *)
theory Duration_Axis
  imports Complex_Main Readable_Time "HOL-Library.Signed_Division"
begin

text \<open>
  The rest of \<^verbatim>\<open>utils/histogram/chrono_axes.hpp\<close>: the axis that takes durations of any
  period, and \<^verbatim>\<open>dump\<close>, which prints the cells of a histogram that count something.  The
  axis below and the cells of the histogram are Boost.Histogram's and parameters.  A double that is
  not infinite is a rational number.  The counts of the axis are 64-bit integers; \<^verbatim>\<open>dump\<close> is
  modelled for these and for doubles.
\<close>

section \<open>The axis\<close>

abbreviation max_count :: int where "max_count \<equiv> 2 ^ 63 - 1"

definition in_rep :: "int \<Rightarrow> bool" where
  "in_rep n = (- (2 ^ 63) \<le> n \<and> n \<le> max_count)"

text \<open>\<^verbatim>\<open>duration_cast\<close> from ticks of \<open>unit\<close> nanoseconds to ticks of \<open>tick\<close> nanoseconds:
  the ratio of the periods is reduced, the product is a signed 64-bit one, the quotient truncates.\<close>

definition signed_cast :: "int \<Rightarrow> int \<Rightarrow> int \<Rightarrow> int outcome" where
  "signed_cast unit_ns tick n =
     (let g = gcd unit_ns tick; m = n * (unit_ns div g) in
      if in_rep m then Inr (m sdiv (tick div g)) else Inl Undefined)"

text \<open>The constructor of \<^verbatim>\<open>duration_adapter\<close>, and the calls of the base axis with its
  count.\<close>

definition duration_adapter :: "int \<Rightarrow> int \<times> int \<Rightarrow> int outcome" where
  "duration_adapter tick dur = (case dur of (unit_ns, n) \<Rightarrow> signed_cast unit_ns tick n)"

definition axis_index :: "('b \<Rightarrow> int \<Rightarrow> int) \<Rightarrow> int \<Rightarrow> 'b \<Rightarrow> int \<times> int \<Rightarrow> int outcome" where
  "axis_index base_index tick base dur = obind (duration_adapter tick dur) (\<lambda>n. Inr (base_index base n))"

definition axis_update ::
  "('b \<Rightarrow> int \<Rightarrow> ('r \<times> 'b)) \<Rightarrow> int \<Rightarrow> 'b \<Rightarrow> int \<times> int \<Rightarrow> ('r \<times> 'b) outcome" where
  "axis_update base_update tick base dur = obind (duration_adapter tick dur) (\<lambda>n. Inr (base_update base n))"


section \<open>dump\<close>

text \<open>The bounds of a bin; the bins below and above the axis have infinite ones.\<close>

datatype edge =
    Finite rat
  | Infinite bool

record cell =
  cell_index :: int
  cell_lower :: edge
  cell_upper :: edge
  cell_value :: rat

text \<open>\<^verbatim>\<open>static_cast\<close> of a double to a 64-bit integer: truncation, undefined out of
  range.\<close>

definition truncate_rat :: "rat \<Rightarrow> int" where
  "truncate_rat q = (if q < 0 then \<lceil>q\<rceil> else \<lfloor>q\<rfloor>)"

definition to_rep :: "edge \<Rightarrow> int outcome" where
  "to_rep e =
     (case e of
        Infinite _ \<Rightarrow> Inl Undefined
      | Finite q \<Rightarrow> if in_rep (truncate_rat q) then Inr (truncate_rat q) else Inl Undefined)"

type_synonym row = "int \<times> string \<times> int"

text \<open>The representation of the axis' duration.  With doubles the first cast changes nothing, and the
  one to nanoseconds in \<^verbatim>\<open>readable_time\<close> truncates; unless the period is a nanosecond it
  multiplies before, with the rounding \<open>rnd\<close>.\<close>

datatype rep = Integral | Floating

definition edge_time ::
  "(int \<Rightarrow> int \<Rightarrow> string) \<Rightarrow> (rat \<Rightarrow> rat) \<Rightarrow> rep \<Rightarrow> int \<Rightarrow> edge \<Rightarrow> string outcome" where
  "edge_time fmt_quot rnd rep tick e =
     (case rep of
        Integral \<Rightarrow> obind (to_rep e) (readable_time fmt_quot tick)
      | Floating \<Rightarrow>
          obind (to_rep (case e of
                   Infinite b \<Rightarrow> Infinite b
                 | Finite q \<Rightarrow> Finite (if tick = 1 then q else rnd (q * of_int tick))))
            (readable_time fmt_quot 1))"

definition cell_row ::
  "(int \<Rightarrow> int \<Rightarrow> string) \<Rightarrow> (rat \<Rightarrow> rat) \<Rightarrow> rep \<Rightarrow> int \<Rightarrow> cell \<Rightarrow> row outcome" where
  "cell_row fmt_quot rnd rep tick c =
     obind (edge_time fmt_quot rnd rep tick (cell_lower c)) (\<lambda>lower.
     obind (edge_time fmt_quot rnd rep tick (cell_upper c)) (\<lambda>upper.
     obind (to_rep (Finite (cell_value c))) (\<lambda>v.
       Inr (cell_index c, lower @ ''-'' @ upper, v))))"

text \<open>The loop over the cells: the width of the widest time so far, and the rows.\<close>

fun collect_rows ::
  "(int \<Rightarrow> int \<Rightarrow> string) \<Rightarrow> (rat \<Rightarrow> rat) \<Rightarrow> rep \<Rightarrow> int \<Rightarrow> cell list \<Rightarrow> nat \<Rightarrow> row list \<Rightarrow>
   (nat \<times> row list) outcome"
where
  "collect_rows fmt_quot rnd rep tick [] width rows = Inr (width, rows)"
| "collect_rows fmt_quot rnd rep tick (c # cs) width rows =
     (if cell_value c = 0 then collect_rows fmt_quot rnd rep tick cs width rows
      else obind (cell_row fmt_quot rnd rep tick c) (\<lambda>row.
        let w = length (fst (snd row)) in
        collect_rows fmt_quot rnd rep tick cs (if w > width then w else width) (rows @ [row])))"

text \<open>\<^verbatim>\<open>std::setw\<close>: fill on the left.\<close>

definition setw :: "nat \<Rightarrow> string \<Rightarrow> string" where
  "setw w s = replicate (w - length s) (CHR '' '') @ s"

definition row_columns :: "nat \<Rightarrow> nat \<Rightarrow> row \<Rightarrow> string" where
  "row_columns ix_width time_width r =
     setw ix_width (int_string (fst r)) @ '' : [ '' @ setw time_width (fst (snd r)) @ '') : ''"

definition row_line :: "nat \<Rightarrow> nat \<Rightarrow> row \<Rightarrow> string" where
  "row_line ix_width time_width r = row_columns ix_width time_width r @ int_string (snd (snd r))"

definition index_width :: "row list \<Rightarrow> nat" where
  "index_width rows = (if fst (last rows) < 999 then 3 else 5)"

text \<open>\<open>sum_text\<close> is the text of the sum of all values, added as doubles and printed with
  \<^verbatim>\<open>std::fixed\<close>.\<close>

definition dump ::
  "(int \<Rightarrow> int \<Rightarrow> string) \<Rightarrow> (rat \<Rightarrow> rat) \<Rightarrow> rep \<Rightarrow> (rat list \<Rightarrow> string) \<Rightarrow> int \<Rightarrow> cell list \<Rightarrow>
   string outcome"
where
  "dump fmt_quot rnd rep sum_text tick cells =
     obind (collect_rows fmt_quot rnd rep tick cells 0 []) (\<lambda>(time_width, rows).
       if rows = [] then Inr []
       else Inr (concat (map (\<lambda>r. row_line (index_width rows) time_width r @ [newline]) rows) @
                 ''    ---------------'' @ [newline, tab_char] @ sum_text (map cell_value cells) @ [newline]))"


section \<open>Casts\<close>

text \<open>A cast between periods truncates towards zero: the result covers no more time than its argument,
  and less than one tick less.\<close>

lemma sdiv_bounds:
  assumes "0 < (d :: int)"
  shows "\<bar>m sdiv d\<bar> * d \<le> \<bar>m\<bar> \<and> \<bar>m\<bar> < (\<bar>m sdiv d\<bar> + 1) * d"
proof -
  have "\<bar>m sdiv d\<bar> = \<bar>m\<bar> div d"
    using assms by (cases "0 \<le> m") (auto simp: signed_divide_int_def sgn_if abs_mult pos_imp_zdiv_nonneg_iff)
  moreover have "\<bar>m\<bar> div d * d + \<bar>m\<bar> mod d = \<bar>m\<bar>" by simp
  moreover have "0 \<le> \<bar>m\<bar> mod d" "\<bar>m\<bar> mod d < d" using assms by simp_all
  ultimately show ?thesis by (simp only: distrib_right mult_1) linarith
qed

lemma signed_cast_truncates:
  assumes "0 < unit_ns" and "0 < tick" and "signed_cast unit_ns tick n = Inr k"
  shows "\<bar>k\<bar> * tick \<le> \<bar>n\<bar> * unit_ns \<and> \<bar>n\<bar> * unit_ns < (\<bar>k\<bar> + 1) * tick"
proof -
  let ?g = "gcd unit_ns tick"
  have g: "0 < ?g" using assms(1) by simp
  have u: "unit_ns = unit_ns div ?g * ?g" and t: "tick = tick div ?g * ?g" by simp_all
  have pos: "0 < unit_ns div ?g" "0 < tick div ?g"
    using assms(1,2) g u t by (metis mult_pos_pos not_less zero_less_mult_pos2)+
  have k: "k = (n * (unit_ns div ?g)) sdiv (tick div ?g)"
    using assms(3) by (auto simp: signed_cast_def Let_def split: if_splits)
  have b: "\<bar>k\<bar> * (tick div ?g) \<le> \<bar>n\<bar> * (unit_ns div ?g)"
      "\<bar>n\<bar> * (unit_ns div ?g) < (\<bar>k\<bar> + 1) * (tick div ?g)"
    using sdiv_bounds [OF pos(2), of "n * (unit_ns div ?g)"] pos(1) by (simp_all add: k abs_mult)
  have "\<bar>k\<bar> * (tick div ?g) * ?g \<le> \<bar>n\<bar> * (unit_ns div ?g) * ?g"
    using b(1) g by (simp add: mult_right_mono)
  moreover have "\<bar>n\<bar> * (unit_ns div ?g) * ?g < (\<bar>k\<bar> + 1) * (tick div ?g) * ?g"
    using b(2) g by (simp only: mult_strict_right_mono)
  ultimately show ?thesis using u t by (metis mult.assoc)
qed


section \<open>The table\<close>

lemma setw_length: "length (setw w s) = max w (length s)"
  by (simp add: setw_def)

text \<open>The rows of the cells that count, and the width of the widest time.\<close>

lemma collect_rows_rows:
  assumes "\<forall>c \<in> set cs. cell_value c \<noteq> 0 \<longrightarrow> cell_row fmt_quot rnd rep tick c = Inr (row c)"
  shows "collect_rows fmt_quot rnd rep tick cs w rs =
    Inr (Max (insert w ((\<lambda>c. length (fst (snd (row c)))) ` set (filter (\<lambda>c. cell_value c \<noteq> 0) cs))),
      rs @ map row (filter (\<lambda>c. cell_value c \<noteq> 0) cs))"
  using assms
proof (induction cs arbitrary: w rs)
  case (Cons c cs)
  let ?n = "\<lambda>c. length (fst (snd (row c)))"
  have "Max (insert (if ?n c > w then ?n c else w) S) = Max (insert w (insert (?n c) S))"
    if "finite S" for S
    using that by (cases "S = {}") (auto simp: max_def)
  then show ?case
    using Cons.IH Cons.prems by (simp add: Let_def)
qed simp

lemma max_exact: "n = max i l + t + 9 \<Longrightarrow> n = i + t + 9 \<longleftrightarrow> l \<le> i" for n i l t :: nat
  by (simp add: max_def)

lemma Max_insert_0: "Max (insert (0 :: nat) (f ` set xs)) = (if xs = [] then 0 else Max (f ` set xs))"
  by simp

lemma collect_rows_Inl:
  assumes "c \<in> set cs" and "cell_value c \<noteq> 0" and "cell_row f rnd rep tick c = Inl e"
  shows "\<exists>e'. collect_rows f rnd rep tick cs w rs = Inl e'"
  using assms(1)
proof (induction cs arbitrary: w rs)
  case (Cons d cs)
  show ?case
  proof (cases "d = c")
    case True
    then show ?thesis using assms(2,3) by simp
  next
    case False
    then show ?thesis using Cons by (cases "cell_row f rnd rep tick d") (auto simp: Let_def)
  qed
qed simp

lemma dec_string_length: "n < 10 ^ Suc k \<Longrightarrow> length (dec_string n) \<le> Suc k"
proof (induction k arbitrary: n)
  case 0
  then show ?case by (simp add: dec_string_small)
next
  case (Suc k)
  show ?case
  proof (cases "n < 10")
    case False
    have "n div 10 < 10 ^ Suc k" using Suc.prems by (simp add: div_less_iff_less_mult)
    then show ?thesis using Suc.IH [of "n div 10"] False by (simp add: dec_string_step)
  qed (simp add: dec_string_small)
qed

lemma int_string_length:
  assumes "- (10 ^ k) < n" and "n < 10 ^ Suc k" and "0 < k"
  shows "length (int_string n) \<le> Suc k"
proof (cases "n < 0")
  case True
  then have "nat (- n) < 10 ^ Suc (k - 1)" using assms by (simp add: nat_less_iff)
  then show ?thesis using True assms(3) dec_string_length [of "nat (- n)" "k - 1"] by (simp add: int_string_def)
next
  case False
  then have "nat n < 10 ^ Suc k" using assms(2) by (simp add: nat_less_iff)
  then show ?thesis using False dec_string_length by (simp add: int_string_def)
qed

lemma index_fits:
  assumes "sorted (map cell_index cs)" and "c \<in> set cs"
    and "\<forall>c \<in> set cs. - 99 \<le> cell_index c \<and> cell_index c < 100000"
  shows "length (int_string (cell_index c)) \<le> (if cell_index (last cs) < 999 then 3 else 5)"
proof (cases "cell_index (last cs) < 999")
  case True
  have "cs \<noteq> []" using assms(2) by auto
  then obtain us l where cs: "cs = us @ [l]" by (metis append_butlast_last_id)
  then have "cell_index c \<le> cell_index l" using assms(1,2) by (auto simp: sorted_append)
  then have "cell_index c < 10 ^ Suc 2" "- (10 ^ 2) < cell_index c" using True cs assms(2,3) by fastforce+
  then show ?thesis using True int_string_length [of 2 "cell_index c"] by simp
next
  case False
  have "- (10 ^ 4) < cell_index c" "cell_index c < 10 ^ Suc 4" using assms(2,3) by fastforce+
  then show ?thesis using False int_string_length [of 4 "cell_index c"] by simp
qed


text \<open>The text of the table, when every cell that counts has its row.\<close>

lemma dump_table:
  assumes "\<forall>c \<in> set cells. cell_value c \<noteq> 0 \<longrightarrow>
    cell_row fmt_quot rnd rep tick c = Inr (cell_index c, time c, count c)"
  shows "dump fmt_quot rnd rep sum_text tick cells =
    (let counted = filter (\<lambda>c. cell_value c \<noteq> 0) cells;
         iw = (if cell_index (last counted) < 999 then 3 else 5);
         tw = Max ((\<lambda>c. length (time c)) ` set counted)
     in Inr (if counted = [] then []
        else concat (map (\<lambda>c. row_columns iw tw (cell_index c, time c, count c) @ int_string (count c) @ [newline])
               counted) @
             ''    ---------------'' @ [newline, tab_char] @ sum_text (map cell_value cells) @ [newline]))"
proof -
  let ?counted = "filter (\<lambda>c. cell_value c \<noteq> 0) cells"
  let ?row = "\<lambda>c. (cell_index c, time c, count c)"
  let ?iw = "if cell_index (last ?counted) < 999 then 3 else 5 :: nat"
  have coll: "collect_rows fmt_quot rnd rep tick cells 0 [] =
      Inr (if ?counted = [] then 0 else Max ((\<lambda>c. length (time c)) ` set ?counted), map ?row ?counted)"
    using collect_rows_rows [OF assms, of 0 "[]"] unfolding Max_insert_0 by (simp add: filter_empty_conv)
  show ?thesis
  proof (cases "?counted = []")
    case True
    then show ?thesis using coll by (simp add: dump_def)
  next
    case False
    then have "index_width (map ?row ?counted) = ?iw" by (simp add: index_width_def last_map)
    then show ?thesis unfolding dump_def coll Let_def using False by (simp add: row_line_def comp_def)
  qed
qed


section \<open>What is printed\<close>

text \<open>What a cast of a double has to give, and the text a bound has to have.\<close>

definition truncates_to :: "rat \<Rightarrow> int \<Rightarrow> bool" where
  "truncates_to q n \<longleftrightarrow> \<bar>of_int n\<bar> \<le> \<bar>q\<bar> \<and> \<bar>q\<bar> < \<bar>of_int n\<bar> + 1 \<and> 0 \<le> of_int n * q"

definition shows_edge ::
  "(int \<Rightarrow> int \<Rightarrow> string) \<Rightarrow> (rat \<Rightarrow> rat) \<Rightarrow> rep \<Rightarrow> int \<Rightarrow> edge \<Rightarrow> string \<Rightarrow> bool" where
  "shows_edge fmt_quot rnd rep tick e t \<longleftrightarrow>
     (\<exists>q n. e = Finite q \<and> in_rep n \<and>
        (if rep = Integral then truncates_to q n \<and> readable_time fmt_quot tick n = Inr t
         else truncates_to (if tick = 1 then q else rnd (q * of_int tick)) n \<and>
              readable_time fmt_quot 1 n = Inr t))"

lemma truncate_rat_unique: "truncates_to q n \<Longrightarrow> truncate_rat q = n"
proof (cases "q < 0")
  case True
  assume t: "truncates_to q n"
  have "of_int n \<le> (0 :: rat)" using t True by (auto simp: truncates_to_def zero_le_mult_iff)
  then have "of_int n - 1 < q" "q \<le> of_int n" using t True by (auto simp: truncates_to_def)
  then show ?thesis using True by (simp add: truncate_rat_def ceiling_unique)
next
  case False
  assume t: "truncates_to q n"
  have "0 \<le> (of_int n :: rat)" using t False by (auto simp: truncates_to_def zero_le_mult_iff)
  then have "of_int n \<le> q" "q < of_int n + 1" using t False by (auto simp: truncates_to_def)
  then show ?thesis using False by (simp add: truncate_rat_def floor_unique)
qed

lemma shows_edge_time:
  "shows_edge fmt_quot rnd rep tick e t \<Longrightarrow> edge_time fmt_quot rnd rep tick e = Inr t"
  by (cases rep) (auto simp: shows_edge_def edge_time_def to_rep_def dest: truncate_rat_unique)

text \<open>C38: \<^verbatim>\<open>dump\<close> prints one line for every cell that counts something, in the order of
  the axis: the index, the readable times of the lower and then the upper bound, truncated to ticks
  (or, with doubles, to nanoseconds), and the truncated count, index and times filled up on the
  left; then the sum; nothing if no cell counts.  The counts stand in one column in exactly the lines
  whose index fits its column of 3 or 5 characters, so in all lines while the indices lie from -99 to
  99999; an index of six digits moves its line.\<close>

theorem dump_columns:
  assumes "\<forall>c \<in> set cells. cell_value c \<noteq> 0 \<longrightarrow>
      shows_edge fmt_quot rnd rep tick (cell_lower c) (lower c) \<and>
      shows_edge fmt_quot rnd rep tick (cell_upper c) (upper c) \<and>
      truncates_to (cell_value c) (count c) \<and> in_rep (count c)"
  shows "let counted = filter (\<lambda>c. cell_value c \<noteq> 0) cells;
       fill = (\<lambda>w s. replicate (w - length s) (CHR '' '') @ s);
       iw = (if cell_index (last counted) < 999 then 3 else 5);
       tw = Max ((\<lambda>c. length (lower c @ ''-'' @ upper c)) ` set counted);
       columns = (\<lambda>c. fill iw (int_string (cell_index c)) @ '' : [ '' @
         fill tw (lower c @ ''-'' @ upper c) @ '') : '')
    in dump fmt_quot rnd rep sum_text tick cells =
         Inr (if counted = [] then []
              else concat (map (\<lambda>c. columns c @ int_string (count c) @ [newline]) counted) @
                ''    ---------------'' @ [newline, tab_char] @ sum_text (map cell_value cells) @ [newline]) \<and>
       (\<forall>c \<in> set counted. length (columns c) = iw + tw + 9 \<longleftrightarrow> length (int_string (cell_index c)) \<le> iw) \<and>
       (sorted (map cell_index cells) \<and> (\<forall>c \<in> set cells. - 99 \<le> cell_index c \<and> cell_index c < 100000) \<longrightarrow>
         (\<forall>c \<in> set counted. length (columns c) = iw + tw + 9))"
proof -
  let ?counted = "filter (\<lambda>c. cell_value c \<noteq> 0) cells"
  let ?row = "\<lambda>c. (cell_index c, lower c @ ''-'' @ upper c, count c)"
  let ?iw = "if cell_index (last ?counted) < 999 then 3 else 5 :: nat"
  let ?tw = "Max ((\<lambda>c. length (lower c @ ''-'' @ upper c)) ` set ?counted)"
  have "\<forall>c \<in> set cells. cell_value c \<noteq> 0 \<longrightarrow> cell_row fmt_quot rnd rep tick c = Inr (?row c)"
    using assms by (auto simp: cell_row_def shows_edge_time to_rep_def dest!: truncate_rat_unique)
  note table = dump_table [OF this, of sum_text]
  have len: "length (row_columns ?iw ?tw (?row c)) = max ?iw (length (int_string (cell_index c))) + ?tw + 9"
    if "c \<in> set ?counted" for c
  proof -
    have "length (lower c @ ''-'' @ upper c) \<le> ?tw" using that by (intro Max_ge) auto
    then show ?thesis
      by (simp only: row_columns_def setw_length length_append fst_conv snd_conv max_absorb1) simp
  qed
  have exact: "\<forall>c \<in> set ?counted. length (row_columns ?iw ?tw (?row c)) = ?iw + ?tw + 9 \<longleftrightarrow>
      length (int_string (cell_index c)) \<le> ?iw"
    by (intro ballI max_exact [OF len])
  have "length (int_string (cell_index c)) \<le> ?iw"
    if "c \<in> set ?counted" "sorted (map cell_index cells)"
      "\<forall>c \<in> set cells. - 99 \<le> cell_index c \<and> cell_index c < 100000" for c
    using that by (intro index_fits) (auto simp: sorted_filter)
  then have all: "sorted (map cell_index cells) \<and> (\<forall>c \<in> set cells. - 99 \<le> cell_index c \<and> cell_index c < 100000) \<longrightarrow>
      (\<forall>c \<in> set ?counted. length (row_columns ?iw ?tw (?row c)) = ?iw + ?tw + 9)"
    using exact by blast
  show ?thesis
    using table exact all unfolding Let_def row_columns_def setw_def fst_conv snd_conv by blast
qed

lemma dump_columns_witness:
  "dump (\<lambda>a b. int_string (a div b)) (\<lambda>q. q) Floating (\<lambda>_. ''3.000000'') 1
      [\<lparr>cell_index = 0, cell_lower = Finite (- 1), cell_upper = Finite (1399999 + 1 / 5), cell_value = 2\<rparr>,
       \<lparr>cell_index = 1, cell_lower = Finite (1399999 + 1 / 5), cell_upper = Finite 2800000, cell_value = 0\<rparr>,
       \<lparr>cell_index = 135714, cell_lower = Finite 189998628599, cell_upper = Finite 190000028600, cell_value = 1\<rparr>] =
    Inr (''    0 : [ -1 ns-1399999 ns) : 2'' @ [newline] @ ''135714 : [      189 s-190 s) : 1'' @ [newline] @
      ''    ---------------'' @ [newline, tab_char] @ ''3.000000'' @ [newline])"
proof -
  let ?cells = "[\<lparr>cell_index = 0, cell_lower = Finite (- 1), cell_upper = Finite (1399999 + 1 / 5), cell_value = 2\<rparr>,
       \<lparr>cell_index = 1, cell_lower = Finite (1399999 + 1 / 5), cell_upper = Finite 2800000, cell_value = 0\<rparr>,
       \<lparr>cell_index = 135714, cell_lower = Finite 189998628599, cell_upper = Finite 190000028600, cell_value = 1\<rparr>]"
  let ?f = "\<lambda>a b. int_string (a div b)"
  have times: "readable_time ?f 1 (- 1) = Inr ''-1 ns''" "readable_time ?f 1 1399999 = Inr ''1399999 ns''"
    "readable_time ?f 1 189998628599 = Inr ''189 s''" "readable_time ?f 1 190000028600 = Inr ''190 s''"
    by (simp_all add: readable_time_def Let_def int_string_def dec_string_step dec_string_small digit_char_def)
      code_simp+
  have ints: "int_string 0 = ''0''" "int_string 1 = ''1''" "int_string 2 = ''2''" "int_string 135714 = ''135714''"
    by (simp_all add: int_string_def dec_string_step dec_string_small digit_char_def)
      code_simp+
  have edge: "shows_edge ?f (\<lambda>q. q) Floating 1 (Finite q) t"
    if "in_rep n" "truncates_to q n" "readable_time ?f 1 n = Inr t" for n q t
    using that by (auto simp: shows_edge_def)
  have edges: "shows_edge ?f (\<lambda>q. q) Floating 1 (Finite (- 1)) ''-1 ns''"
    "shows_edge ?f (\<lambda>q. q) Floating 1 (Finite (1399999 + 1 / 5)) ''1399999 ns''"
    "shows_edge ?f (\<lambda>q. q) Floating 1 (Finite 189998628599) ''189 s''"
    "shows_edge ?f (\<lambda>q. q) Floating 1 (Finite 190000028600) ''190 s''"
    by (rule edge [OF _ _ times(1)] edge [OF _ _ times(2)] edge [OF _ _ times(3)] edge [OF _ _ times(4)];
        simp add: in_rep_def truncates_to_def)+
  have "\<forall>c \<in> set ?cells. cell_value c \<noteq> 0 \<longrightarrow>
      shows_edge ?f (\<lambda>q. q) Floating 1 (cell_lower c) (if cell_index c = 0 then ''-1 ns'' else ''189 s'') \<and>
      shows_edge ?f (\<lambda>q. q) Floating 1 (cell_upper c) (if cell_index c = 0 then ''1399999 ns'' else ''190 s'') \<and>
      truncates_to (cell_value c) (if cell_index c = 0 then 2 else 1) \<and>
      in_rep (if cell_index c = 0 then 2 else 1)"
    using edges by (simp add: truncates_to_def in_rep_def)
  from dump_columns [OF this] show ?thesis
    by (simp add: Let_def ints eval_nat_numeral)
qed

text \<open>A bin below or above the axis has an infinite bound; if it counts something, the cast of the
  bound to the representation of the duration is undefined.\<close>

lemma dump_infinite:
  assumes "c \<in> set cells" and "cell_value c \<noteq> 0" and "cell_lower c = Infinite b"
  shows "\<exists>e. dump fmt_quot rnd rep sum_text tick cells = Inl e"
proof -
  have "cell_row fmt_quot rnd rep tick c = Inl Undefined"
    using assms(3) by (cases rep) (simp_all add: cell_row_def edge_time_def to_rep_def)
  from collect_rows_Inl [OF assms(1,2) this, of 0 "[]"] show ?thesis by (auto simp: dump_def)
qed

end
