(* ===== verification/Rte_Log.thy ===== *)
theory Rte_Log
  imports Fb_Prelude
begin

text \<open>
  The logger of \<^verbatim>\<open>utils/log.hpp\<close>: the levels, the member functions that name one, and
  \<^verbatim>\<open>rtexx::log\<close> with its thread-local buffer.  The numbers of the levels, the question
  whether a message is to be logged, \<^verbatim>\<open>std::vformat\<close>'s text or error, and how much of
  an entry the stream takes are parameters.
\<close>

datatype log_level =
    Emergancy | Alert | Critical | Error | Warning | Notice | Info | Debug

text \<open>The levels in the order of their declaration, from the most severe on.\<close>

primrec log_rank :: "log_level \<Rightarrow> nat" where
  "log_rank Emergancy = 0"
| "log_rank Alert = 1"
| "log_rank Critical = 2"
| "log_rank Error = 3"
| "log_rank Warning = 4"
| "log_rank Notice = 5"
| "log_rank Info = 6"
| "log_rank Debug = 7"

lemma log_rank_eq: "log_rank a = log_rank b \<longleftrightarrow> a = b"
  by (cases a; cases b) simp_all

instantiation log_level :: linorder
begin

definition less_eq_log_level :: "log_level \<Rightarrow> log_level \<Rightarrow> bool" where
  "less_eq_log_level a b = (log_rank a \<le> log_rank b)"

definition less_log_level :: "log_level \<Rightarrow> log_level \<Rightarrow> bool" where
  "less_log_level a b = (log_rank a < log_rank b)"

instance
  by standard (auto simp: less_eq_log_level_def less_log_level_def log_rank_eq)

end

text \<open>The member functions of \<^verbatim>\<open>rte_logger\<close> and the level each logs with.\<close>

datatype log_member =
    M_Trace | M_Debug | M_Info | M_Warn | M_Error | M_Critical | M_Alert | M_Emergency

definition member_level :: "log_member \<Rightarrow> log_level" where
  "member_level m =
     (case m of M_Trace \<Rightarrow> Debug | M_Debug \<Rightarrow> Debug | M_Info \<Rightarrow> Info | M_Warn \<Rightarrow> Warning
      | M_Error \<Rightarrow> Error | M_Critical \<Rightarrow> Critical | M_Alert \<Rightarrow> Alert | M_Emergency \<Rightarrow> Emergancy)"

text \<open>What \<^verbatim>\<open>fwrite\<close> does with the stream: \<open>dev out b\<close> says how many characters of \<open>b\<close>
  it takes when the stream has \<open>out\<close>.  The code does not look at the number.\<close>

type_synonym device = "string \<Rightarrow> string \<Rightarrow> nat"

definition fwrite :: "device \<Rightarrow> string \<Rightarrow> string \<Rightarrow> string" where
  "fwrite dev b out = out @ take (dev out b) b"

text \<open>\<open>formatted\<close> is what formatting appends to the buffer, with the error it ends in, if it does; the
  state is the thread's buffer and the stream.\<close>

definition log_write ::
  "(nat \<Rightarrow> nat \<Rightarrow> bool) \<Rightarrow> (log_level \<Rightarrow> nat) \<Rightarrow> device \<Rightarrow> nat \<Rightarrow> log_level \<Rightarrow> string \<times> string option \<Rightarrow>
   string \<times> string \<Rightarrow> string \<times> string"
where
  "log_write can_log number dev logtype level formatted st =
     (case st of (buffer, out) \<Rightarrow>
      if \<not> can_log logtype (number level) then (buffer, out)
      else
        let cleared = [] in
        (case formatted of
           (appended, None) \<Rightarrow> (let b = cleared @ appended @ [newline] in (b, fwrite dev b out))
         | (appended, Some what) \<Rightarrow>
             (let b = ''unable format log entry : '' @ what in (b, fwrite dev b out))))"

definition member_write ::
  "(nat \<Rightarrow> nat \<Rightarrow> bool) \<Rightarrow> (log_level \<Rightarrow> nat) \<Rightarrow> device \<Rightarrow> nat \<Rightarrow> log_member \<Rightarrow> string \<times> string option \<Rightarrow>
   string \<times> string \<Rightarrow> string \<times> string"
where
  "member_write can_log number dev logtype m formatted st =
     log_write can_log number dev logtype (member_level m) formatted st"

text \<open>The functions of \<^verbatim>\<open>null_logger\<close> take anything and do nothing.\<close>

definition null_write :: "'args \<Rightarrow> string \<times> string \<Rightarrow> string \<times> string" where
  "null_write args st = st"

text \<open>The calls of the member functions of one logger, on one thread.\<close>

fun member_calls ::
  "(nat \<Rightarrow> nat \<Rightarrow> bool) \<Rightarrow> (log_level \<Rightarrow> nat) \<Rightarrow> device \<Rightarrow> nat \<Rightarrow> (log_member \<times> string \<times> string option) list \<Rightarrow>
   string \<times> string \<Rightarrow> string \<times> string"
where
  "member_calls can_log number dev logtype [] st = st"
| "member_calls can_log number dev logtype ((m, formatted) # calls) st =
     member_calls can_log number dev logtype calls (member_write can_log number dev logtype m formatted st)"


section \<open>What the stream gets\<close>

text \<open>The entry of one call by itself, and entries one behind the other on a stream.\<close>

definition entry_text :: "string \<times> string option \<Rightarrow> string" where
  "entry_text formatted =
     (case snd formatted of
        None \<Rightarrow> fst formatted @ [newline] | Some what \<Rightarrow> ''unable format log entry : '' @ what)"

fun deliver :: "device \<Rightarrow> string list \<Rightarrow> string \<Rightarrow> string" where
  "deliver dev [] out = out"
| "deliver dev (e # es) out = deliver dev es (out @ take (dev out e) e)"

lemma deliver_whole: "(\<And>out e. length e \<le> dev out e) \<Longrightarrow> deliver dev es out = out @ concat es"
  by (induction es arbitrary: out) simp_all

lemma log_write_out:
  "log_write can_log number dev logtype level formatted (buffer, out) =
     (if can_log logtype (number level) then (entry_text formatted, fwrite dev (entry_text formatted) out)
      else (buffer, out))"
  by (cases formatted) (auto simp: log_write_def entry_text_def Let_def split: option.split)

text \<open>The thread-local buffer carries nothing from one call to the next: the stream gets, in
  order, the entries of the calls whose level is logged, each formatted text with its newline, and
  for a text that cannot be formatted the error in place of what was formatted before it.\<close>

theorem log_entries:
  "snd (member_calls can_log number dev logtype calls (buffer, out)) =
     deliver dev (map (\<lambda>(m, formatted). entry_text formatted)
       (filter (\<lambda>(m, formatted). can_log logtype (number (member_level m))) calls)) out"
proof (induction calls arbitrary: buffer out)
  case (Cons c calls)
  obtain m formatted where "c = (m, formatted)" by (cases c)
  then show ?case using Cons.IH by (simp add: member_write_def log_write_out fwrite_def)
qed simp

text \<open>A logger whose levels are all off is a \<^verbatim>\<open>null_logger\<close>.\<close>

lemma null_write_off: "log_write (\<lambda>_ _. False) number dev logtype level formatted = null_write formatted"
  by (simp add: log_write_def null_write_def fun_eq_iff)

text \<open>The functions that write when the limit is at a level: those of this severity and above, by
  their names.\<close>

primrec members_at :: "log_level \<Rightarrow> log_member list" where
  "members_at Emergancy = [M_Emergency]"
| "members_at Alert = [M_Emergency, M_Alert]"
| "members_at Critical = [M_Emergency, M_Alert, M_Critical]"
| "members_at Error = [M_Emergency, M_Alert, M_Critical, M_Error]"
| "members_at Warning = [M_Emergency, M_Alert, M_Critical, M_Error, M_Warn]"
| "members_at Notice = [M_Emergency, M_Alert, M_Critical, M_Error, M_Warn]"
| "members_at Info = [M_Emergency, M_Alert, M_Critical, M_Error, M_Warn, M_Info]"
| "members_at Debug = [M_Emergency, M_Alert, M_Critical, M_Error, M_Warn, M_Info, M_Debug, M_Trace]"

lemma member_level_limit: "member_level m \<le> limit \<longleftrightarrow> m \<in> set (members_at limit)"
  by (cases m; cases limit) (simp_all add: member_level_def less_eq_log_level_def)

text \<open>C39: with numbers that grow from \<^verbatim>\<open>emergancy\<close> to \<^verbatim>\<open>debug\<close> and a system
  that logs a message if its number is not above the one of the level \<open>limit\<close>, exactly the calls of the
  functions \<open>members_at limit\<close> write, one entry each, in order.  What the stream takes of an entry is
  its beginning, as much as \<^verbatim>\<open>fwrite\<close> writes; the rest is lost, as the result is not looked
  at, and the next entry follows.  With a stream that takes everything the entries are complete.\<close>

theorem log_threshold:
  assumes "strict_mono number" and "\<forall>n. can_log logtype n \<longleftrightarrow> n \<le> number limit"
  shows "let entries = map (\<lambda>(m, formatted). entry_text formatted)
           (filter (\<lambda>(m, formatted). m \<in> set (members_at limit)) calls);
         written = snd (member_calls can_log number dev logtype calls (buffer, out))
    in written = deliver dev entries out \<and>
      ((\<forall>out e. length e \<le> dev out e) \<longrightarrow> written = out @ concat entries)"
proof -
  have "can_log logtype (number level) \<longleftrightarrow> level \<le> limit" for level
    using assms by (simp add: strict_mono_less_eq)
  then show ?thesis by (simp add: log_entries member_level_limit deliver_whole)
qed

lemma log_threshold_witness:
  "snd (member_calls (\<lambda>_ n. n \<le> 5) (\<lambda>l. Suc (log_rank l)) (\<lambda>_ e. length e) 7
     [(M_Info, ''a'', None), (M_Error, ''b'', None), (M_Warn, ''c'', Some ''bad'')] ([], [])) =
   ''b'' @ [newline] @ ''unable format log entry : bad'' \<and>
   snd (member_calls (\<lambda>_ n. n \<le> 5) (\<lambda>l. Suc (log_rank l)) (\<lambda>_ e. 3) 7
     [(M_Alert, ''disk full'', None), (M_Warn, ''c'', None)] ([], [])) = ''disc'' @ [newline]"
proof -
  have "strict_mono (\<lambda>l. Suc (log_rank l))" by (simp add: strict_mono_def less_log_level_def)
  note log_threshold [OF this, of "\<lambda>_ n. n \<le> 5" 7 Warning]
  from this [where dev = "\<lambda>_ e. length e"] this [where dev = "\<lambda>_ e. 3"] show ?thesis
    by (simp add: entry_text_def Let_def del: member_calls.simps)
qed

end
