(* ===== verification/Console_Sink.thy ===== *)
theory Console_Sink
  imports Fb_Prelude "HOL-Library.Multiset"
begin

text \<open>
  \<^verbatim>\<open>utils/program_options/console_sink.cpp\<close>: the factory that makes sinks writing to
  \<^verbatim>\<open>std::clog\<close> and remembers the last one by a weak pointer.  A sink is its number; the
  strong pointers that its users hold are a multiset, so a sink lives while its number is in it.
  The parsers of filters and formatters are Boost.Log's and parameters.
\<close>

section \<open>The factory\<close>

text \<open>The settings of a section of the configuration, and what a sink is set up with.  A sink
  without a filter takes everything; without a format it keeps the library's formatter.\<close>

type_synonym settings = "string \<Rightarrow> string option"

record ('f, 'g) sink =
  sink_filter :: "'f option"
  sink_formatter :: "'g option"

text \<open>\<open>weak_sink\<close> is the member \<^verbatim>\<open>console_sink_\<close>; \<open>made\<close> lists the sinks made so far, the
  number of a sink being its place in it; \<open>factory\<close> says whether the function-local static is
  initialised, \<open>registered\<close> whether the library knows the factory as \<^verbatim>\<open>Console\<close>.\<close>

record ('f, 'g) console =
  factory :: bool
  registered :: bool
  weak_sink :: "nat option"
  made :: "('f, 'g) sink list"
  held :: "nat multiset"

definition console_init :: "('f, 'g) console" where
  "console_init = \<lparr>factory = False, registered = False, weak_sink = None, made = [], held = {#}\<rparr>"

definition get_console_sink_factory :: "('f, 'g) console \<Rightarrow> ('f, 'g) console" where
  "get_console_sink_factory c = (if factory c then c else c\<lparr>factory := True, weak_sink := None\<rparr>)"

definition register_console_sink_factory :: "('f, 'g) console \<Rightarrow> ('f, 'g) console" where
  "register_console_sink_factory c = (get_console_sink_factory c)\<lparr>registered := True\<rparr>"

text \<open>The filter is parsed before the sink is made, the format behind it: an error there destroys the
  new sink, whose only pointer is the local variable.\<close>

definition optional_setting :: "(string \<Rightarrow> 'a outcome) \<Rightarrow> string option \<Rightarrow> 'a option outcome" where
  "optional_setting read s = (case s of None \<Rightarrow> Inr None | Some text \<Rightarrow> obind (read text) (\<lambda>x. Inr (Some x)))"

definition create_sink ::
  "(string \<Rightarrow> 'f outcome) \<Rightarrow> (string \<Rightarrow> 'g outcome) \<Rightarrow> settings \<Rightarrow> ('f, 'g) console \<Rightarrow>
   nat outcome \<times> ('f, 'g) console"
where
  "create_sink parse_filter parse_formatter params c =
     (case optional_setting parse_filter (params ''Filter'') of
        Inl e \<Rightarrow> (Inl e, c)
      | Inr filt \<Rightarrow>
          let sid = length (made c);
              c1 = c\<lparr>made := made c @ [\<lparr>sink_filter = None, sink_formatter = None\<rparr>], held := add_mset sid (held c)\<rparr>
          in case optional_setting parse_formatter (params ''Format'') of
               Inl e \<Rightarrow> (Inl e, c1\<lparr>held := held c1 - {#sid#}\<rparr>)
             | Inr fmt \<Rightarrow>
                 (Inr sid, c1\<lparr>made := (made c1)[sid := \<lparr>sink_filter = filt, sink_formatter = fmt\<rparr>],
                             weak_sink := Some sid\<rparr>))"

text \<open>\<^verbatim>\<open>lock()\<close>: a new strong pointer to the sink, if it still lives.\<close>

definition lock_sink :: "('f, 'g) console \<Rightarrow> nat option \<times> ('f, 'g) console" where
  "lock_sink c =
     (case weak_sink c of
        None \<Rightarrow> (None, c)
      | Some sid \<Rightarrow>
          if sid \<in># held c then (Some sid, c\<lparr>held := add_mset sid (held c)\<rparr>) else (None, c))"

definition console_sink :: "('f, 'g) console \<Rightarrow> nat option \<times> ('f, 'g) console" where
  "console_sink c = lock_sink (get_console_sink_factory c)"


section \<open>Histories\<close>

text \<open>What the program may do: set up sinks from settings, once the factory is registered; ask for the
  console sink; drop a pointer it holds.  The answers are the sinks given out.\<close>

datatype event =
    Register
  | Create settings
  | Ask
  | Drop nat

datatype answer =
    Made nat
  | Failed fault
  | Found nat
  | Nothing

fun answer_event ::
  "(string \<Rightarrow> 'f outcome) \<Rightarrow> (string \<Rightarrow> 'g outcome) \<Rightarrow> event \<Rightarrow> ('f, 'g) console \<Rightarrow> answer \<times> ('f, 'g) console"
where
  "answer_event pf pg Register c = (Nothing, register_console_sink_factory c)"
| "answer_event pf pg (Create params) c =
     (if registered c then
        (case create_sink pf pg params c of (Inr sid, c') \<Rightarrow> (Made sid, c') | (Inl e, c') \<Rightarrow> (Failed e, c'))
      else (Nothing, c))"
| "answer_event pf pg Ask c =
     (case console_sink c of (Some sid, c') \<Rightarrow> (Found sid, c') | (None, c') \<Rightarrow> (Nothing, c'))"
| "answer_event pf pg (Drop sid) c = (Nothing, c\<lparr>held := held c - {#sid#}\<rparr>)"

fun history ::
  "(string \<Rightarrow> 'f outcome) \<Rightarrow> (string \<Rightarrow> 'g outcome) \<Rightarrow> event list \<Rightarrow> ('f, 'g) console \<Rightarrow>
   answer list \<times> ('f, 'g) console"
where
  "history pf pg [] c = ([], c)"
| "history pf pg (e # es) c =
     (let (a, c1) = answer_event pf pg e c; (as, c2) = history pf pg es c1 in (a # as, c2))"

text \<open>Read off the answers: the sink made last, and the pointers given out.\<close>

fun last_made :: "answer list \<Rightarrow> nat option" where
  "last_made [] = None"
| "last_made (a # as) =
     (case last_made as of Some n \<Rightarrow> Some n | None \<Rightarrow> (case a of Made n \<Rightarrow> Some n | _ \<Rightarrow> None))"

definition given :: "answer list \<Rightarrow> nat multiset" where
  "given as = mset (List.map_filter (\<lambda>a. case a of Made n \<Rightarrow> Some n | Found n \<Rightarrow> Some n | _ \<Rightarrow> None) as)"

definition dropped :: "event list \<Rightarrow> nat multiset" where
  "dropped es = mset (List.map_filter (\<lambda>e. case e of Drop n \<Rightarrow> Some n | _ \<Rightarrow> None) es)"

text \<open>A program drops only pointers it holds.\<close>

fun drops_held ::
  "(string \<Rightarrow> 'f outcome) \<Rightarrow> (string \<Rightarrow> 'g outcome) \<Rightarrow> event list \<Rightarrow> ('f, 'g) console \<Rightarrow> bool" where
  "drops_held pf pg [] c = True"
| "drops_held pf pg (e # es) c =
     ((case e of Drop sid \<Rightarrow> sid \<in># held c | _ \<Rightarrow> True) \<and> drops_held pf pg es (snd (answer_event pf pg e c)))"


section \<open>The bookkeeping of pointers\<close>

definition factory_ok :: "('f, 'g) console \<Rightarrow> bool" where
  "factory_ok c \<longleftrightarrow> (registered c \<longrightarrow> factory c) \<and> (\<not> factory c \<longrightarrow> weak_sink c = None)"

definition given_by :: "answer \<Rightarrow> nat multiset" where
  "given_by a = (case a of Made n \<Rightarrow> {#n#} | Found n \<Rightarrow> {#n#} | _ \<Rightarrow> {#})"

definition dropped_by :: "event \<Rightarrow> nat multiset" where
  "dropped_by e = (case e of Drop n \<Rightarrow> {#n#} | _ \<Rightarrow> {#})"

lemma given_simps [simp]: "given [] = {#}" "given (a # as) = given_by a + given as"
  by (simp_all add: given_def given_by_def List.map_filter_simps split: answer.split)

lemma dropped_simps [simp]: "dropped [] = {#}" "dropped (e # es) = dropped_by e + dropped es"
  by (simp_all add: dropped_def dropped_by_def List.map_filter_simps split: event.split)

lemma console_init_ok [simp]: "factory_ok console_init"
  by (simp add: factory_ok_def console_init_def)

lemma console_sink_run:
  assumes "factory_ok c"
  shows "console_sink c =
    (case weak_sink c of
       Some n \<Rightarrow> if n \<in># held c then (Some n, c\<lparr>held := add_mset n (held c)\<rparr>) else (None, c)
     | None \<Rightarrow> (None, get_console_sink_factory c))"
  using assms
  by (cases "factory c") (auto simp: console_sink_def lock_sink_def get_console_sink_factory_def factory_ok_def
      split: option.split)

lemma create_sink_run:
  "create_sink pf pg params c =
     (case optional_setting pf (params ''Filter'') of
        Inl e \<Rightarrow> (Inl e, c)
      | Inr filt \<Rightarrow>
          (case optional_setting pg (params ''Format'') of
             Inl e \<Rightarrow> (Inl e, c\<lparr>made := made c @ [\<lparr>sink_filter = None, sink_formatter = None\<rparr>]\<rparr>)
           | Inr fmt \<Rightarrow>
               (Inr (length (made c)),
                c\<lparr>made := made c @ [\<lparr>sink_filter = filt, sink_formatter = fmt\<rparr>],
                  held := add_mset (length (made c)) (held c), weak_sink := Some (length (made c))\<rparr>)))"
  by (simp add: create_sink_def Let_def split: sum.split)

lemma answer_event_keeps:
  assumes "answer_event pf pg e c = (a, c')" and "factory_ok c"
    and "case e of Drop sid \<Rightarrow> sid \<in># held c | _ \<Rightarrow> True"
  shows "factory_ok c' \<and> held c' + dropped_by e = held c + given_by a \<and>
    weak_sink c' = (case a of Made n \<Rightarrow> Some n | _ \<Rightarrow> weak_sink c)"
proof (cases e)
  case Register
  then show ?thesis using assms
    by (auto simp: register_console_sink_factory_def get_console_sink_factory_def factory_ok_def
        given_by_def dropped_by_def)
next
  case (Create params)
  then show ?thesis using assms
    by (auto simp: create_sink_run factory_ok_def given_by_def dropped_by_def
        split: if_splits sum.splits)
next
  case Ask
  then show ?thesis using assms
    by (auto simp: console_sink_run get_console_sink_factory_def factory_ok_def given_by_def dropped_by_def
        split: option.splits if_splits)
next
  case (Drop sid)
  then show ?thesis using assms by (auto simp: factory_ok_def given_by_def dropped_by_def)
qed

lemma history_keeps:
  assumes "history pf pg es c = (as, c')" and "factory_ok c" and "drops_held pf pg es c"
  shows "factory_ok c' \<and> held c' + dropped es = held c + given as \<and>
    weak_sink c' = (case last_made as of None \<Rightarrow> weak_sink c | Some n \<Rightarrow> Some n)"
  using assms
proof (induction es arbitrary: c as)
  case (Cons e es)
  obtain a c1 where e: "answer_event pf pg e c = (a, c1)" by (cases "answer_event pf pg e c")
  obtain bs where as: "as = a # bs" and rest: "history pf pg es c1 = (bs, c')"
    using Cons.prems(1) e by (auto simp: Let_def split: prod.splits)
  have step: "factory_ok c1 \<and> held c1 + dropped_by e = held c + given_by a \<and>
      weak_sink c1 = (case a of Made n \<Rightarrow> Some n | _ \<Rightarrow> weak_sink c)"
    using answer_event_keeps [OF e Cons.prems(2)] Cons.prems(3) by simp
  then have IH: "factory_ok c'" "held c' + dropped es = held c1 + given bs"
      "weak_sink c' = (case last_made bs of None \<Rightarrow> weak_sink c1 | Some n \<Rightarrow> Some n)"
    using Cons.IH [OF rest] Cons.prems(3) e by simp_all
  have "held c' + dropped (e # es) = (held c' + dropped es) + dropped_by e" by (simp add: ac_simps)
  also have "\<dots> = (held c1 + dropped_by e) + given bs" by (simp only: IH(2) ac_simps)
  also have "\<dots> = held c + given as" using step by (simp add: as ac_simps)
  finally show ?case using IH step by (auto simp: as split: option.split answer.split)
qed simp


section \<open>The console sink\<close>

text \<open>C24: \<^verbatim>\<open>console_sink()\<close> returns the sink that was made last, exactly as long as
  somebody holds a pointer to it: the factory itself keeps no sink alive, asking for the sink counts
  as a new pointer, and settings whose filter or format cannot be parsed change nothing.\<close>

theorem console_sink_last:
  assumes "history parse_filter parse_formatter es console_init = (as, c)"
    and "drops_held parse_filter parse_formatter es console_init"
  shows "held c + dropped es = given as \<and>
    fst (console_sink c) =
      (case last_made as of
         None \<Rightarrow> None
       | Some n \<Rightarrow> if count (dropped es) n < count (given as) n then Some n else None)"
proof -
  have init: "held (console_init :: ('a, 'b) console) = {#}" "weak_sink (console_init :: ('a, 'b) console) = None"
    by (simp_all add: console_init_def)
  have keeps: "factory_ok c" "held c + dropped es = given as" "weak_sink c = last_made as"
    using history_keeps [OF assms(1) console_init_ok assms(2)] init by (simp_all split: option.splits)
  have "count (held c) n + count (dropped es) n = count (given as) n" for n
    using arg_cong [OF keeps(2), of "\<lambda>m. count m n"] by simp
  then have "n \<in># held c \<longleftrightarrow> count (dropped es) n < count (given as) n" for n
    by (metis count_greater_zero_iff less_add_same_cancel2)
  then show ?thesis
    using keeps by (simp add: console_sink_run split: option.split)
qed

lemma console_sink_last_witness:
  "let es = [Register, Create [''Filter'' \<mapsto> ''bad''], Create Map.empty, Ask, Drop 0, Drop 0];
       (as, c) = history (\<lambda>_. Inl (Runtime_Error ''filter'') :: unit outcome) (\<lambda>_. Inr ()) es console_init
   in fst (console_sink c) = None"
  using console_sink_last
    [of "\<lambda>_. Inl (Runtime_Error ''filter'') :: unit outcome" "\<lambda>_. Inr ()"
        "[Register, Create [''Filter'' \<mapsto> ''bad''], Create Map.empty, Ask, Drop 0, Drop 0]"]
  by (simp add: console_init_def register_console_sink_factory_def get_console_sink_factory_def
      create_sink_run optional_setting_def console_sink_def lock_sink_def dropped_by_def given_by_def)

end
