(* ===== verification/Step_Systems.thy ===== *)
theory Step_Systems
  imports Main
begin

text \<open>
  Contracts of step relations: one that keeps an invariant and makes, seen through an abstraction,
  steps of another relation or none; and one that moreover always comes to an end.
\<close>

locale simulation =
  fixes step :: "'s \<Rightarrow> 's \<Rightarrow> bool"
    and Inv :: "'s \<Rightarrow> bool"
    and abs :: "'s \<Rightarrow> 'a"
    and astep :: "'a \<Rightarrow> 'a \<Rightarrow> bool"
  assumes step_inv: "step s s' \<Longrightarrow> Inv s \<Longrightarrow> Inv s'"
    and step_abs: "step s s' \<Longrightarrow> Inv s \<Longrightarrow> abs s' = abs s \<or> astep (abs s) (abs s')"
begin

lemma run_inv: "step\<^sup>*\<^sup>* s s' \<Longrightarrow> Inv s \<Longrightarrow> Inv s'"
  by (induction rule: rtranclp_induct) (auto intro: step_inv)

lemma run_abs: "step\<^sup>*\<^sup>* s s' \<Longrightarrow> Inv s \<Longrightarrow> astep\<^sup>*\<^sup>* (abs s) (abs s')"
proof (induction rule: rtranclp_induct)
  case (step t u)
  then have "Inv t" using run_inv by blast
  from step_abs [OF step.hyps(2) this] step show ?case by (auto intro: rtranclp.rtrancl_into_rtrancl)
qed simp

end

text \<open>Every step takes off at least one unit of the work that is left, and only final states have no
  step: so every run ends, in a final state.\<close>

locale ending_simulation = simulation step Inv abs astep
  for step :: "'s \<Rightarrow> 's \<Rightarrow> bool" and Inv :: "'s \<Rightarrow> bool"
    and abs :: "'s \<Rightarrow> 'a" and astep :: "'a \<Rightarrow> 'a \<Rightarrow> bool" +
  fixes work :: "'s \<Rightarrow> nat"
    and final :: "'s \<Rightarrow> bool"
  assumes step_work: "step s s' \<Longrightarrow> Inv s \<Longrightarrow> work s' < work s"
    and step_enabled: "Inv s \<Longrightarrow> (\<exists>s'. step s s') \<longleftrightarrow> \<not> final s"
begin

lemma run_work:
  assumes "(step ^^ k) s s'" and "Inv s"
  shows "Inv s' \<and> k + work s' \<le> work s"
  using assms(1)
proof (induction k arbitrary: s')
  case 0
  then show ?case using assms(2) by simp
next
  case (Suc k)
  then obtain t where "(step ^^ k) s t" and last: "step t s'" by auto
  with Suc.IH have "Inv t" "k + work t \<le> work s" by blast+
  then show ?case using step_work [OF last] step_inv [OF last] by simp
qed

lemma run_ends: "Inv s \<Longrightarrow> \<exists>k s'. (step ^^ k) s s' \<and> final s'"
proof (induction "work s" arbitrary: s rule: less_induct)
  case less
  show ?case
  proof (cases "final s")
    case True
    then show ?thesis by (intro exI [of _ 0] exI [of _ s]) simp
  next
    case False
    then obtain t where t: "step s t" using step_enabled less.prems by blast
    with less obtain k s' where "(step ^^ k) t s'" "final s'"
      using step_work step_inv by blast
    then show ?thesis using t relpowp_Suc_I2 [of step s t k s'] by blast
  qed
qed

end

end
