(* ===== verification/Circular_Refinement.thy ===== *)
theory Circular_Refinement
  imports Circular_Properties Step_Systems
begin

text \<open>
  What the two threads of a \<^verbatim>\<open>circular_memory\<close> promise together, as an abstract queue: the
  steps of the threads refine it, with the end of \<^verbatim>\<open>allocate\<close> and of
  \<^verbatim>\<open>release\<close> as the places where an operation takes effect; and both threads always come to
  the end of what they began.
\<close>

section \<open>The queue\<close>

text \<open>The abstract state is the queue of live blocks.  A block can be put at its end if it lies in the
  buffer, apart from the blocks of the queue; the first block can be taken.\<close>

inductive fifo_step :: "address \<Rightarrow> nat \<Rightarrow> block list \<Rightarrow> block list \<Rightarrow> bool" for B N where
  Enqueue: "0 < blk_len b \<Longrightarrow> B + 8 \<le> blk_at b \<Longrightarrow> blk_at b + blk_len b \<le> B + N \<Longrightarrow>
    \<forall>d \<in> set live. extent b \<inter> extent d = {} \<Longrightarrow> fifo_step B N live (live @ [b])"
| Dequeue: "fifo_step B N (b # live) live"

text \<open>The buffer does not move.\<close>

lemma ring_step_buffer:
  "ring_step r r' \<Longrightarrow> cm_begin (r_cm r') = cm_begin (r_cm r) \<and> cm_size (r_cm r') = cm_size (r_cm r)"
  by (induction rule: ring_step.induct)
     (auto simp: load_counter_def check_counter_def place_header_def take_counter_def return_block_def
        read_header_def add_counter_def write_header_def take_free_def move_tail_def give_free_def
        client_write_def Let_def split: option.split)

lemma ring_init_buffer [simp]:
  "cm_begin (r_cm (ring_init buffer n m)) = buffer" "cm_size (r_cm (ring_init buffer n m)) = n"
  "r_live (ring_init buffer n m) = []"
  by (simp_all add: ring_init_def circular_memory_init_def)

text \<open>Every step leaves the queue or makes a step of it.\<close>

lemma pending_enqueue:
  assumes "pending (unat (cm_free c) + unat (blk_used b)) c live b"
  shows "fifo_step (cm_begin c) (unat (cm_size c)) live (live @ [b])"
proof (rule fifo_step.Enqueue)
  have at: "block_at (cm_begin c) (unat (cm_size c)) (unat (cm_tail c)) b"
    and ch: "chain (cm_begin c) (unat (cm_size c))
      (unat (cm_tail c) + (unat (cm_free c) + unat (blk_used b))) live"
    and sum: "unat (cm_free c) + unat (blk_used b) + used_sum live = unat (cm_size c)"
    and blk: "unat (blk_used b) \<le> unat (cm_free c) + unat (blk_used b)"
    using assms by (auto simp: pending_def)
  show "\<forall>d \<in> set live. extent b \<inter> extent d = {}"
    by (intro ballI block_chain_disjoint [OF at ch]) (use sum blk in linarith)+
  show "0 < blk_len b" "cm_begin c + 8 \<le> blk_at b" "blk_at b + blk_len b \<le> cm_begin c + unat (cm_size c)"
    using at by (auto simp: block_at_def)
qed

lemma ring_step_fifo:
  assumes "ring_step r r'" and "ring_inv r"
  shows "r_live r' = r_live r \<or>
    fifo_step (cm_begin (r_cm r)) (unat (cm_size (r_cm r))) (r_live r) (r_live r')"
  using assms
proof (induction rule: ring_step.induct)
  case (Return r b)
  then have "pending (unat (cm_free (r_cm r)) + unat (blk_used b)) (r_cm r) (r_live r) b"
    by (simp add: ring_inv_def producer_inv_def)
  from pending_enqueue [OF this] show ?case by (auto simp: return_block_def Let_def)
next
  case (Add r k)
  then show ?case
    by (cases "r_live r") (auto simp: add_counter_def intro: fifo_step.Dequeue)
qed (auto simp: load_counter_def check_counter_def place_header_def take_counter_def read_header_def
    split: option.split)

text \<open>The invariant, with the place and size of the buffer: what every step keeps.\<close>

definition ring_inv_in :: "address \<Rightarrow> size_t \<Rightarrow> ring \<Rightarrow> bool" where
  "ring_inv_in buffer n r \<longleftrightarrow> ring_inv r \<and> cm_begin (r_cm r) = buffer \<and> cm_size (r_cm r) = n"

lemma ring_init_inv_in: "0 < n \<Longrightarrow> unat n < 2 ^ 63 \<Longrightarrow> ring_inv_in buffer n (ring_init buffer n m)"
  by (simp add: ring_inv_in_def ring_init_inv)

lemma ring_reach_run: "ring_reach r0 r \<Longrightarrow> ring_step\<^sup>*\<^sup>* r0 r"
  by (induction rule: ring_reach.induct) (auto intro: rtranclp.rtrancl_into_rtrancl)

interpretation ring: simulation ring_step "ring_inv_in buffer n" r_live "fifo_step buffer (unat n)"
  for buffer n
proof unfold_locales
  fix r r' assume step: "ring_step r r'" and inv: "ring_inv_in buffer n r"
  show "ring_inv_in buffer n r'"
    using ring_step_inv [OF step] ring_step_buffer [OF step] inv by (simp add: ring_inv_in_def)
  show "r_live r' = r_live r \<or> fifo_step buffer (unat n) (r_live r) (r_live r')"
    using ring_step_fifo [OF step] inv by (auto simp: ring_inv_in_def)
qed


section \<open>Coming to an end\<close>

text \<open>The steps of the two threads when no new allocation is begun: the producer goes on with the one
  it is in, the consumer releases block after block.\<close>

inductive quiet_step :: "ring \<Rightarrow> ring \<Rightarrow> bool" where
  Q_Check: "r_prod r = P_Loaded f sz al \<Longrightarrow> quiet_step r (check_counter f sz al r)"
| Q_Place: "r_prod r = P_Checked f sz al \<Longrightarrow> quiet_step r (place_header f sz al r)"
| Q_Take: "r_prod r = P_Written b \<Longrightarrow> quiet_step r (take_counter b r)"
| Q_Return: "r_prod r = P_Taken b \<Longrightarrow> quiet_step r (return_block b r)"
| Q_Read: "r_cons r = C_Idle \<Longrightarrow> r_live r = b # rest \<Longrightarrow> quiet_step r (read_header b r)"
| Q_Add: "r_cons r = C_Read n \<Longrightarrow> quiet_step r (add_counter n r)"

lemma quiet_ring_step: "quiet_step r r' \<Longrightarrow> ring_step r r'"
  by (induction rule: quiet_step.induct) (auto intro: ring_step.intros)

text \<open>The steps that are left at most.\<close>

definition producer_work :: "producer \<Rightarrow> nat" where
  "producer_work p =
     (case p of P_Idle \<Rightarrow> 0 | P_Loaded _ _ _ \<Rightarrow> 6 | P_Checked _ _ _ \<Rightarrow> 5 | P_Written _ \<Rightarrow> 4 | P_Taken _ \<Rightarrow> 3
      | P_Failed \<Rightarrow> 0)"

definition work :: "ring \<Rightarrow> nat" where
  "work r = producer_work (r_prod r) + 2 * length (r_live r) - (if r_cons r = C_Idle then 0 else 1)"

definition drained :: "ring \<Rightarrow> bool" where
  "drained r \<longleftrightarrow> r_live r = [] \<and> r_prod r = P_Idle \<and> r_cons r = C_Idle"

lemma quiet_step_work:
  assumes "quiet_step r r'" and "ring_inv r"
  shows "Suc (work r') \<le> work r"
  using assms
proof (induction rule: quiet_step.induct)
  case (Q_Add r n)
  then show ?case by (cases "r_live r") (auto simp: work_def add_counter_def ring_inv_def consumer_inv_def)
qed (auto simp: work_def producer_work_def ring_inv_def consumer_inv_def check_counter_def place_header_def
    take_counter_def return_block_def read_header_def Let_def Suc_diff_le
    split: option.split consumer.splits)

lemma quiet_step_enabled:
  assumes "ring_inv r"
  shows "(\<exists>r'. quiet_step r r') \<longleftrightarrow> \<not> drained r"
proof
  assume "\<not> drained r"
  then consider "r_prod r \<noteq> P_Idle" | "r_live r \<noteq> []" | "r_cons r \<noteq> C_Idle" by (auto simp: drained_def)
  then show "\<exists>r'. quiet_step r r'"
  proof cases
    case 1
    then show ?thesis
      using assms by (cases "r_prod r") (auto simp: ring_inv_def producer_inv_def intro: quiet_step.intros)
  next
    case 2
    then show ?thesis by (cases "r_cons r"; cases "r_live r") (auto intro: quiet_step.intros)
  next
    case 3
    then show ?thesis by (cases "r_cons r") (auto intro: quiet_step.intros)
  qed
next
  assume "\<exists>r'. quiet_step r r'"
  then show "\<not> drained r" by (auto simp: drained_def elim: quiet_step.cases)
qed

interpretation quiet: ending_simulation quiet_step "ring_inv_in buffer n" r_live "fifo_step buffer (unat n)"
    work drained for buffer n
proof unfold_locales
  fix r r' assume step: "quiet_step r r'" and inv: "ring_inv_in buffer n r"
  note rstep = quiet_ring_step [OF step]
  show "ring_inv_in buffer n r'" by (rule ring.step_inv [OF rstep inv])
  show "r_live r' = r_live r \<or> fifo_step buffer (unat n) (r_live r) (r_live r')"
    by (rule ring.step_abs [OF rstep inv])
  show "work r' < work r" using quiet_step_work [OF step] inv by (simp add: ring_inv_in_def)
next
  fix r assume "ring_inv_in buffer n r"
  then show "(\<exists>r'. quiet_step r r') \<longleftrightarrow> \<not> drained r"
    by (intro quiet_step_enabled) (simp add: ring_inv_in_def)
qed

lemma drained_empty:
  assumes "ring_inv r" and "drained r"
  shows "cm_empty (r_cm r)"
  using assms
  by (auto simp: ring_inv_def producer_inv_def drained_def cm_inv_def cm_empty_def word_unat_eq_iff)

section \<open>The bytes of the buffer\<close>

text \<open>A header is written into the extent of a block that lies in the buffer, apart from the live
  ones.\<close>

lemma pending_header:
  assumes "pending F c live b"
  shows "{blk_at b - 8 ..< blk_at b} \<subseteq> {cm_begin c ..< cm_begin c + unat (cm_size c)}"
    and "d \<in> set live \<Longrightarrow> {blk_at b - 8 ..< blk_at b} \<inter> payload d = {}"
proof -
  have at: "block_at (cm_begin c) (unat (cm_size c)) (unat (cm_tail c)) b"
    and ch: "chain (cm_begin c) (unat (cm_size c)) (unat (cm_tail c) + F) live"
    and sum: "F + used_sum live = unat (cm_size c)" and le: "unat (blk_used b) \<le> F"
    using assms by (auto simp: pending_def)
  show "{blk_at b - 8 ..< blk_at b} \<subseteq> {cm_begin c ..< cm_begin c + unat (cm_size c)}"
    using at by (auto simp: block_at_def)
  assume "d \<in> set live"
  then have "extent b \<inter> extent d = {}"
    by (rule block_chain_disjoint [OF at ch]) (use sum le in linarith)+
  then show "{blk_at b - 8 ..< blk_at b} \<inter> payload d = {}"
    by (force simp: extent_def payload_def)
qed

text \<open>So a step changes a byte only if it writes a header there, in the buffer and outside of the
  payloads, or is the client's write.\<close>

lemma ring_step_bytes:
  assumes "ring_step r r'" and "ring_inv r" and "cm_mem (r_cm r') x \<noteq> cm_mem (r_cm r) x"
  shows "cm_begin (r_cm r) \<le> x \<and> x < cm_begin (r_cm r) + unat (cm_size (r_cm r)) \<and>
    ((\<exists>v. r' = r\<lparr>r_cm := client_write x v (r_cm r)\<rparr>) \<or> (\<forall>b \<in> set (r_live r). x \<notin> payload b))"
  using assms
proof (induction rule: ring_step.induct)
  case (Place r f sz al)
  then obtain res used where p: "place (r_cm r) f sz al = Some (res, used)"
    by (auto simp: place_header_def split: option.splits)
  let ?b = "\<lparr>blk_at = res, blk_len = unat sz, blk_used = used\<rparr>"
  have "\<not> (x < res - 8 \<or> res - 8 + 8 \<le> x)"
    using Place.prems(2) p store_size_other by (auto simp: place_header_def write_header_def)
  moreover have pend: "pending (unat (cm_free (write_header res used (r_cm r))))
      (write_header res used (r_cm r)) (r_live r) ?b"
    using Place p by (intro place_pending) (auto simp: ring_inv_defs)
  moreover from pend have "8 \<le> res" by (auto simp: pending_def block_at_def)
  ultimately have x: "x \<in> {blk_at ?b - 8 ..< blk_at ?b}" by auto
  from pending_header [OF pend] x show ?case by (fastforce simp: write_header_def)
next
  case (Write b r y v)
  obtain w where "chain (cm_begin (r_cm r)) (unat (cm_size (r_cm r))) w (r_live r)"
    using ring_inv_chain(1) [OF Write.prems(1)] by blast
  from chain_inside [OF this Write.hyps(1)]
  have "y \<in> {cm_begin (r_cm r) ..< cm_begin (r_cm r) + unat (cm_size (r_cm r))}"
    using Write.hyps(2) by (auto simp: payload_def extent_def)
  moreover have "y = x" using Write.prems(2) by (auto simp: client_write_def split: if_splits)
  ultimately show ?case by auto
qed (auto simp: load_counter_def check_counter_def take_counter_def return_block_def read_header_def
    add_counter_def take_free_def move_tail_def give_free_def Let_def split: if_splits)

lemma ring_run_outside:
  assumes "ring_step\<^sup>*\<^sup>* r0 r" and "ring_inv_in buffer n r0" and "\<not> (buffer \<le> x \<and> x < buffer + unat n)"
  shows "cm_mem (r_cm r) x = cm_mem (r_cm r0) x"
  using assms
proof (induction rule: rtranclp_induct)
  case (step r r')
  from ring.run_inv [OF step.hyps(1) step.prems(1)] have "ring_inv_in buffer n r" .
  with ring_step_bytes [OF step.hyps(2), of x] step show ?case by (auto simp: ring_inv_in_def)
qed simp


section \<open>Undisturbed runs\<close>

text \<open>The steps of a call that has begun: the producer's behind its first load of the counter, and the
  consumer's behind its read of the header.\<close>

inductive allocating :: "ring \<Rightarrow> ring \<Rightarrow> bool" where
  A_Check: "r_prod r = P_Loaded f sz al \<Longrightarrow> allocating r (check_counter f sz al r)"
| A_Place: "r_prod r = P_Checked f sz al \<Longrightarrow> allocating r (place_header f sz al r)"
| A_Take: "r_prod r = P_Written b \<Longrightarrow> allocating r (take_counter b r)"
| A_Return: "r_prod r = P_Taken b \<Longrightarrow> allocating r (return_block b r)"

inductive releasing :: "ring \<Rightarrow> ring \<Rightarrow> bool" where
  R_Add: "r_cons r = C_Read n \<Longrightarrow> releasing r (add_counter n r)"

inductive_simps allocating_iff: "allocating r r'"
inductive_simps releasing_iff: "releasing r r'"

text \<open>With the two beginnings and the client's writes these are the steps of the threads.\<close>

lemma ring_step_parts:
  "ring_step r r' \<longleftrightarrow>
     r_prod r = P_Idle \<and> (\<exists>sz al. request_ok sz al \<and> r' = load_counter sz al r) \<or> allocating r r' \<or>
     r_cons r = C_Idle \<and> r_live r \<noteq> [] \<and> r' = read_header (hd (r_live r)) r \<or> releasing r r' \<or>
     (\<exists>b \<in> set (r_live r). \<exists>x \<in> payload b. \<exists>v. r' = r\<lparr>r_cm := client_write x v (r_cm r)\<rparr>)"
    (is "?step \<longleftrightarrow> ?parts")
proof
  show "?step \<Longrightarrow> ?parts"
    by (erule ring_step.cases; simp add: allocating_iff releasing_iff; blast)
  show "?parts \<Longrightarrow> ?step"
    by (elim disjE conjE exE bexE allocating.cases releasing.cases)
       (auto simp: neq_Nil_conv intro: ring_step.intros)
qed

lemma allocating_done: "r_prod r = P_Idle \<Longrightarrow> \<not> allocating r r'"
  by (simp add: allocating_iff)

lemma releasing_done: "r_cons r = C_Idle \<Longrightarrow> \<not> releasing r r'"
  by (simp add: releasing_iff)

text \<open>A thread by itself is deterministic, so one finished run is every finished run.\<close>

lemma finished_run:
  assumes det: "\<And>x y z. R x y \<Longrightarrow> R x z \<Longrightarrow> y = z"
    and run: "R\<^sup>*\<^sup>* a t" and last: "\<And>y. \<not> R t y"
  shows "R\<^sup>*\<^sup>* a r \<and> (\<nexists>y. R r y) \<longleftrightarrow> r = t"
proof
  assume r: "R\<^sup>*\<^sup>* a r \<and> (\<nexists>y. R r y)"
  from run r show "r = t"
  proof (induction rule: converse_rtranclp_induct)
    case base
    then show ?case using last by (metis converse_rtranclpE)
  next
    case (step x y)
    then show ?case using det by (metis converse_rtranclpE)
  qed
qed (use run last in auto)

lemma allocating_run:
  assumes inv: "cm_inv (r_cm r) live" and idle: "r_prod r = P_Idle" and req: "request_ok sz al"
  shows "allocating\<^sup>*\<^sup>* (load_counter sz al r)
    (case place (r_cm r) (cm_free (r_cm r)) sz al of
       None \<Rightarrow> r
     | Some (res, used) \<Rightarrow>
         r\<lparr>r_cm := move_tail used (take_free used (write_header res used (r_cm r))),
           r_live := r_live r @ [\<lparr>blk_at = res, blk_len = unat sz, blk_used = used\<rparr>]\<rparr>)"
proof -
  let ?c = "r_cm r" and ?f = "cm_free (r_cm r)"
  let ?r2 = "r\<lparr>r_prod := P_Checked ?f sz al\<rparr>"
  have sz: "sz \<noteq> 0" "unat sz + 8 < 2 ^ 64" "0 < al" using req by (auto simp: request_ok_def)
  have "load_counter sz al r = r\<lparr>r_prod := P_Loaded ?f sz al\<rparr>"
    using sz(1) cm_inv_tail_le [OF inv] by (simp add: load_counter_def)
  moreover have "check_counter ?f sz al (r\<lparr>r_prod := P_Loaded ?f sz al\<rparr>) = ?r2"
    using inv cm_inv_free_le [OF inv] split_space_sum [of ?c ?f] by (simp add: check_counter_def cm_inv_def)
  ultimately have start: "allocating\<^sup>*\<^sup>* (load_counter sz al r) (place_header ?f sz al ?r2)"
    using A_Check [of "load_counter sz al r" ?f sz al] A_Place [of ?r2 ?f sz al]
    by (simp add: rtranclp.rtrancl_into_rtrancl)
  show ?thesis
  proof (cases "place ?c ?f sz al")
    case None
    then have "place_header ?f sz al ?r2 = r" using idle by (cases r) (simp add: place_header_def)
    then show ?thesis using start None by simp
  next
    case (Some p)
    obtain res used where p: "place ?c ?f sz al = Some (res, used)" using Some by (cases p) auto
    let ?b = "\<lparr>blk_at = res, blk_len = unat sz, blk_used = used\<rparr>"
    let ?r3 = "r\<lparr>r_cm := write_header res used ?c, r_prod := P_Written ?b\<rparr>"
    let ?r4 = "r\<lparr>r_cm := take_free used (write_header res used ?c), r_prod := P_Taken ?b\<rparr>"
    let ?r5 = "r\<lparr>r_cm := move_tail used (take_free used (write_header res used ?c)), r_live := r_live r @ [?b]\<rparr>"
    have "place_header ?f sz al ?r2 = ?r3" using p by (simp add: place_header_def)
    moreover have "allocating ?r3 ?r4"
      using A_Take [of ?r3 ?b] by (simp add: take_counter_def)
    moreover have "allocating ?r4 ?r5"
      using A_Return [of ?r4 ?b] cm_inv_tail_le [OF allocate_inv [OF inv sz p]] idle
      by (cases r) (simp add: return_block_def Let_def)
    ultimately show ?thesis using start p by (simp add: rtranclp.rtrancl_into_rtrancl)
  qed
qed

lemma releasing_run:
  assumes "cm_inv (r_cm r) (b # bs)" and "r_cons r = C_Idle" and "r_live r = b # bs"
  shows "releasing\<^sup>*\<^sup>* (read_header b r) (r\<lparr>r_cm := give_free (blk_used b) (r_cm r), r_live := bs\<rparr>)"
proof -
  have "read_header b r = r\<lparr>r_cons := C_Read (blk_used b)\<rparr>"
    using used_memory_live [OF assms(1), of b] by (simp add: read_header_def)
  then have "releasing (read_header b r) (r\<lparr>r_cm := give_free (blk_used b) (r_cm r), r_live := bs\<rparr>)"
    using R_Add [of "read_header b r" "blk_used b"] assms(2,3) by (cases r) (simp add: add_counter_def)
  then show ?thesis by (rule r_into_rtranclp)
qed


section \<open>Properties\<close>

text \<open>C9: the memory under two threads: in every reachable state the bytes outside the buffer are what
  they were at first, and no step changes a byte of the payload of a live block but the client's own
  write to it: headers of later allocations, and releases, leave the data alone.\<close>

theorem ring_payloads:
  assumes "0 < n" and "unat n < 2 ^ 63" and "ring_reach (ring_init buffer n m) r"
  shows "(\<forall>x. \<not> (buffer \<le> x \<and> x < buffer + unat n) \<longrightarrow> cm_mem (r_cm r) x = m x) \<and>
    (\<forall>r' b x. ring_step r r' \<and> b \<in> set (r_live r) \<and> x \<in> payload b \<longrightarrow>
       cm_mem (r_cm r') x = cm_mem (r_cm r) x \<or> (\<exists>v. r' = r\<lparr>r_cm := client_write x v (r_cm r)\<rparr>))"
proof -
  note run = ring_reach_run [OF assms(3)] and init = ring_init_inv_in [OF assms(1,2), of buffer m]
  have "ring_inv r" using ring.run_inv [OF run init] by (simp add: ring_inv_in_def)
  moreover have "cm_mem (r_cm (ring_init buffer n m)) = m"
    by (simp add: ring_init_def circular_memory_init_def)
  ultimately show ?thesis using ring_run_outside [OF run init] ring_step_bytes by metis
qed

theorem ring_payloads_witness:
  "cm_mem (r_cm (load_counter 8 8 (ring_init 4096 256 (\<lambda>_. 7)))) 100 = 7"
proof -
  have "ring_reach (ring_init 4096 256 (\<lambda>_. 7)) (load_counter 8 8 (ring_init 4096 256 (\<lambda>_. 7)))"
    by (rule ring_reach.Step [OF ring_reach.Start ring_step.Load])
       (simp_all add: ring_init_def request_ok_def)
  from ring_payloads [OF _ _ this] show ?thesis by simp
qed

text \<open>C7: in every interleaving of an allocating and a releasing thread over a buffer of fewer than 2^63
  bytes, the blocks that were returned and not released are the content of a first-in first-out queue of
  disjoint blocks inside the buffer: every step of either thread leaves the queue as it is, or puts one
  such block at its end, or takes its first.\<close>

theorem ring_refines_fifo:
  assumes "0 < n" and "unat n < 2 ^ 63" and "ring_reach (ring_init buffer n m) r"
  shows "(fifo_step buffer (unat n))\<^sup>*\<^sup>* [] (r_live r) \<and>
    (\<forall>r'. ring_step r r' \<longrightarrow> r_live r' = r_live r \<or> fifo_step buffer (unat n) (r_live r) (r_live r'))"
proof -
  note run = ring_reach_run [OF assms(3)] and init = ring_init_inv_in [OF assms(1,2), of buffer m]
  show ?thesis using ring.run_abs [OF run init] ring.step_abs ring.run_inv [OF run init] by auto
qed

theorem ring_refines_fifo_witness:
  "(fifo_step 4096 256)\<^sup>*\<^sup>* [] (r_live (load_counter 8 8 (ring_init 4096 256 (\<lambda>_. 0))))"
proof -
  have "ring_reach (ring_init 4096 256 (\<lambda>_. 0)) (load_counter 8 8 (ring_init 4096 256 (\<lambda>_. 0)))"
    by (rule ring_reach.Step [OF ring_reach.Start ring_step.Load])
       (simp_all add: ring_init_def request_ok_def)
  from ring_refines_fifo [OF _ _ this] show ?thesis by simp
qed

text \<open>C8: both threads come to an end: from every state that an interleaving of allocating and releasing
  can reach, when no new allocation is begun, any order of the remaining steps (the started allocation,
  the releases) ends after at most \<open>work\<close> of them, and can always be carried on to the end; there
  every block is released and every byte of the buffer is free again.\<close>

theorem ring_drains:
  assumes "0 < n" and "unat n < 2 ^ 63" and "ring_reach (ring_init buffer n m) r"
    and "(quiet_step ^^ k) r r'"
  shows "k \<le> work r \<and> (\<exists>i r''. (quiet_step ^^ i) r' r'' \<and> drained r'') \<and>
    ((\<nexists>r''. quiet_step r' r'') \<longrightarrow> drained r' \<and> cm_free (r_cm r') = n)"
proof -
  have "ring_inv_in buffer n r"
    by (rule ring.run_inv [OF ring_reach_run [OF assms(3)] ring_init_inv_in [OF assms(1,2)]])
  from quiet.run_work [OF assms(4) this] have inv: "ring_inv_in buffer n r'" and "k + work r' \<le> work r"
    by auto
  then show ?thesis
    using quiet.run_ends [OF inv] quiet.step_enabled [OF inv] drained_empty [of r']
    by (auto simp: ring_inv_in_def cm_empty_def)
qed

theorem ring_drains_witness:
  "\<exists>i r. (quiet_step ^^ i) (load_counter 8 8 (ring_init 4096 256 (\<lambda>_. 0))) r \<and> drained r"
proof -
  let ?l = "load_counter 8 8 (ring_init 4096 256 (\<lambda>_. 0))"
  have "ring_reach (ring_init 4096 256 (\<lambda>_. 0)) ?l"
    by (rule ring_reach.Step [OF ring_reach.Start ring_step.Load])
       (simp_all add: ring_init_def request_ok_def)
  from ring_drains [OF _ _ this, of 0 ?l] show ?thesis by simp
qed

text \<open>C30: the pieces are the functions: when the producer, from an idle state, begins a call and only
  its own steps follow, every run that comes to its end has the effect of \<^verbatim>\<open>allocate\<close>, and
  there is one: its memory, its tail and its counter, and its block, with the size asked for, behind
  the live ones; or, when there is no room, nothing is changed.  No such run ends in a failing assert.
  In the same way the consumer's own steps on the oldest block are \<^verbatim>\<open>release\<close>.\<close>

theorem runs_are_calls:
  assumes "cm_inv (r_cm r) (r_live r)" and "r_prod r = P_Idle" and "r_cons r = C_Idle"
    and "request_ok sz al"
  shows "(allocating\<^sup>*\<^sup>* (load_counter sz al r) r' \<and> (\<nexists>r''. allocating r' r'') \<longleftrightarrow>
      (case allocate sz al (r_cm r) of
         Inr (Some res, c') \<Rightarrow> r' = r\<lparr>r_cm := c', r_live := r_live r @
           [\<lparr>blk_at = res, blk_len = unat sz, blk_used = used_memory c' res\<rparr>]\<rparr>
       | Inr (None, c') \<Rightarrow> r' = r\<lparr>r_cm := c'\<rparr>
       | Inl _ \<Rightarrow> False)) \<and>
    (\<forall>b bs. r_live r = b # bs \<longrightarrow>
      (releasing\<^sup>*\<^sup>* (read_header b r) r' \<and> (\<nexists>r''. releasing r' r'') \<longleftrightarrow>
        (case release (blk_at b) (r_cm r) of
           Inr c' \<Rightarrow> r' = r\<lparr>r_cm := c', r_live := bs\<rparr>
         | Inl _ \<Rightarrow> False)))"
proof (intro conjI allI impI)
  have sz: "sz \<noteq> 0" using assms(4) by (simp add: request_ok_def)
  have header: "used_memory (move_tail used (take_free used (write_header res used c))) res = used" for res used c
    by (simp add: used_memory_def move_tail_def take_free_def write_header_def)
  show "allocating\<^sup>*\<^sup>* (load_counter sz al r) r' \<and> (\<nexists>r''. allocating r' r'') \<longleftrightarrow>
      (case allocate sz al (r_cm r) of
         Inr (Some res, c') \<Rightarrow> r' = r\<lparr>r_cm := c', r_live := r_live r @
           [\<lparr>blk_at = res, blk_len = unat sz, blk_used = used_memory c' res\<rparr>]\<rparr>
       | Inr (None, c') \<Rightarrow> r' = r\<lparr>r_cm := c'\<rparr>
       | Inl _ \<Rightarrow> False)"
    by (subst finished_run [OF _ allocating_run [OF assms(1,2,4)]])
       (auto simp: allocating_iff assms(2) allocate_place [OF assms(1) sz] header split: option.splits)
next
  fix b bs assume live: "r_live r = b # bs"
  then have inv: "cm_inv (r_cm r) (b # bs)" using assms(1) by simp
  show "releasing\<^sup>*\<^sup>* (read_header b r) r' \<and> (\<nexists>r''. releasing r' r'') \<longleftrightarrow>
      (case release (blk_at b) (r_cm r) of
         Inr c' \<Rightarrow> r' = r\<lparr>r_cm := c', r_live := bs\<rparr>
       | Inl _ \<Rightarrow> False)"
    by (subst finished_run [OF _ releasing_run [OF inv assms(3) live]])
       (auto simp: releasing_iff assms(3) release_oldest [OF inv])
qed

lemma runs_are_calls_witness:
  "allocating\<^sup>*\<^sup>* (load_counter 16 8 (ring_init 1000 64 (\<lambda>_. 0)))
     ((ring_init 1000 64 (\<lambda>_. 0))\<lparr>r_cm := move_tail 24 (take_free 24 (write_header 1008 24 small_ring)),
        r_live := [\<lparr>blk_at = 1008, blk_len = 16, blk_used = 24\<rparr>]\<rparr>)"
proof -
  have start: "cm_inv (r_cm (ring_init 1000 64 (\<lambda>_. 0))) (r_live (ring_init 1000 64 (\<lambda>_. 0)))"
    "r_prod (ring_init 1000 64 (\<lambda>_. 0)) = P_Idle" "r_cons (ring_init 1000 64 (\<lambda>_. 0)) = C_Idle" "request_ok 16 8"
    using small_ring_inv by (simp_all add: ring_init_def small_ring_def request_ok_def)
  have "r_cm (ring_init 1000 64 (\<lambda>_. 0)) = small_ring" by (simp add: ring_init_def small_ring_def)
  moreover have "used_memory (move_tail 24 (take_free 24 (write_header 1008 24 small_ring))) 1008 = 24"
    by (simp add: used_memory_def move_tail_def take_free_def write_header_def)
  ultimately show ?thesis
    using runs_are_calls [OF start, of "(ring_init 1000 64 (\<lambda>_. 0))\<lparr>r_cm :=
        move_tail 24 (take_free 24 (write_header 1008 24 small_ring)),
        r_live := [\<lparr>blk_at = 1008, blk_len = 16, blk_used = 24\<rparr>]\<rparr>"] allocate_small_ring by simp
qed

end
