(* ===== verification/Circular_Starvation.thy ===== *)
theory Circular_Starvation
  imports Circular_Properties
begin

text \<open>
  What an empty \<^verbatim>\<open>circular_memory\<close> still serves.  Neither
  \<^verbatim>\<open>release\<close> nor \<^verbatim>\<open>allocate\<close> puts the tail back when the last block
  is gone, so the free bytes of an empty buffer are two pieces, behind the tail and in front of it,
  and a block has to fit into one of them: half of the buffer is always served, more than half may
  be refused, and a refused request changes nothing, so it is refused for ever.
\<close>

section \<open>Placement in a piece of the free bytes\<close>

lemma align_up_less: "0 < a \<Longrightarrow> align_up a p < p + a"
proof -
  assume "0 < a"
  have "align_up a p \<le> p + a - 1" by (simp add: align_up_def)
  then show ?thesis using \<open>0 < a\<close> by linarith
qed

text \<open>No room, with the padding written out.\<close>

lemma no_room_iff:
  assumes "0 < al"
  shows "no_room start space sz al \<longleftrightarrow> start + space < align_up al (start + 8) + sz"
proof
  assume "no_room start space sz al"
  then show "start + space < align_up al (start + 8) + sz"
    using assms align_up_ge align_up_mod unfolding no_room_def by blast
next
  assume r: "start + space < align_up al (start + 8) + sz"
  have "start + space < q + sz" if "start + 8 \<le> q" "al dvd q" for q
    using align_up_least [OF that(2,1)] r by linarith
  then show "no_room start space sz al" by (simp add: no_room_def)
qed

lemma no_room_large: "0 < al \<Longrightarrow> space < sz + 8 \<Longrightarrow> no_room start space sz al"
  unfolding no_room_def by auto

lemma pad_n_align_no_room:
  assumes "unat sz + 8 < 2 ^ 64" and "0 < al"
    and "no_room p (unat space) (unat sz) (unat al)"
  shows "pad_n_align al sz p space = None"
proof (cases "pad_n_align al sz p space")
  case (Some q)
  show ?thesis
    using pad_n_align_Some [OF Some assms(1,2)] assms(3) unfolding no_room_def by fastforce
qed

text \<open>With \<open>place_None\<close>: a request has no place exactly when neither piece has room for it.\<close>

lemma place_None_iff:
  assumes "in_range c" "free \<le> cm_size c" and "unat sz + 8 < 2 ^ 64" "0 < al"
  shows "place c free sz al = None \<longleftrightarrow>
    no_room (cm_begin c + unat (cm_tail c)) (min (unat free) (unat (cm_size c) - unat (cm_tail c)))
      (unat sz) (unat al) \<and>
    no_room (cm_begin c) (unat (cm_tail c) + unat free - unat (cm_size c)) (unat sz) (unat al)"
    (is "_ \<longleftrightarrow> ?none")
proof
  assume "place c free sz al = None"
  then show ?none using place_None [OF assms] by blast
next
  assume none: ?none
  obtain a b where ab: "split_space c free = (a, b)" by (cases "split_space c free")
  have "pad_n_align al sz (cm_begin c + unat (cm_tail c)) a = None"
    and "pad_n_align al sz (cm_begin c) b = None"
    using none split_space_nat [OF assms(1,2)] ab pad_n_align_no_room [OF assms(3,4)] by auto
  then show "place c free sz al = None" using ab by (simp add: place_def Let_def)
qed


section \<open>An empty allocator\<close>

lemma cm_inv_empty:
  assumes "cm_inv c []"
  shows "in_range c" and "cm_free c = cm_size c" and "cm_empty c"
  using assms by (auto simp: cm_inv_def used_sum_def cm_empty_def word_unat_eq_iff)

lemma larger_piece: "2 * m \<le> n \<Longrightarrow> m \<le> max t (n - t)" for m n t :: nat
  by (cases "m \<le> t") (auto simp: le_max_iff_disj)

text \<open>The two pieces of an empty buffer.\<close>

lemma empty_allocate_None:
  assumes "cm_inv c []" and "request_ok sz al"
  shows "allocate sz al c = Inr (None, c) \<longleftrightarrow>
    no_room (cm_begin c + unat (cm_tail c)) (unat (cm_size c) - unat (cm_tail c)) (unat sz) (unat al) \<and>
    no_room (cm_begin c) (unat (cm_tail c)) (unat sz) (unat al)"
proof -
  have sz: "sz \<noteq> 0" "unat sz + 8 < 2 ^ 64" "0 < al" using assms(2) by (auto simp: request_ok_def)
  have "allocate sz al c = Inr (None, c) \<longleftrightarrow> place c (cm_free c) sz al = None"
    using allocate_place [OF assms(1) sz(1), of al] by (auto split: option.splits)
  then show ?thesis
    using place_None_iff [OF _ cm_inv_free_le [OF assms(1)] sz(2,3)] cm_inv_empty [OF assms(1)]
    by simp
qed

lemma empty_allocate_cases:
  assumes "cm_inv c []" and "request_ok sz al"
  shows "allocate sz al c = Inr (None, c) \<or> (\<exists>res c'. allocate sz al c = Inr (Some res, c'))"
proof -
  have "sz \<noteq> 0" using assms(2) by (simp add: request_ok_def)
  then show ?thesis using allocate_place [OF assms(1), of sz al] by (auto split: option.splits)
qed

lemma empty_allocate_Some:
  assumes "cm_inv c []" and "request_ok sz al"
    and "unat sz + unat al + 7 \<le> max (unat (cm_tail c)) (unat (cm_size c) - unat (cm_tail c))"
  shows "\<exists>res c'. allocate sz al c = Inr (Some res, c')"
proof -
  have al: "0 < unat al" using assms(2) by (simp add: request_ok_def word_less_nat_alt)
  have room: "\<not> no_room p space (unat sz) (unat al)" if "unat sz + unat al + 7 \<le> space" for p space
    using no_room_iff [OF al, of p space "unat sz"] align_up_less [OF al, of "p + 8"] that
    by linarith
  have "allocate sz al c \<noteq> Inr (None, c)"
    using empty_allocate_None [OF assms(1,2)] room assms(3) by (auto simp: max_def split: if_splits)
  then show ?thesis using empty_allocate_cases [OF assms(1,2)] by blast
qed

lemma empty_allocate_refused:
  assumes "cm_inv c []" and "request_ok sz al"
    and "max (unat (cm_tail c)) (unat (cm_size c) - unat (cm_tail c)) < unat sz + 8"
  shows "allocate sz al c = Inr (None, c)"
proof -
  have "0 < unat al" using assms(2) by (simp add: request_ok_def word_less_nat_alt)
  then show ?thesis
    using empty_allocate_None [OF assms(1,2)] assms(3) no_room_large by auto
qed


text \<open>A fresh allocator has all its bytes in one piece.\<close>

lemma fresh_place:
  assumes "cm_tail c = 0" and "cm_inv c []" and "unat sz + 8 \<le> unat (cm_size c)"
  shows "place c (cm_free c) sz 1 = Some (cm_begin c + 8, sz + 8)"
proof -
  have rng: "in_range c" "cm_free c = cm_size c" using cm_inv_empty [OF assms(2)] by auto
  have sum: "unat (8 + sz) = 8 + unat sz"
    using assms(3) rng(1) by (subst unat_add_lem [THEN iffD1]) (auto simp: in_range_def)
  then have fit: "\<not> cm_size c < 8 + sz" using assms(3) by (simp add: word_less_nat_alt)
  have "unat (cm_size c - 8) = unat (cm_size c) - 8"
    using assms(3) by (simp add: unat_sub word_le_nat_alt)
  moreover have "unat sz \<le> unat (cm_size c) - 8" using assms(3) by linarith
  ultimately have "pad_n_align 1 sz (cm_begin c) (cm_size c) = Some (cm_begin c + 8)"
    using fit by (simp add: pad_n_align_def std_align_def align_up_def Let_def)
  then show ?thesis
    using rng(2) assms(1) by (simp add: place_def split_space_def Let_def)
qed

lemma fresh_allocate:
  assumes "cm_tail c = 0" and "cm_inv c []" and "sz \<noteq> 0" and "unat sz + 8 \<le> unat (cm_size c)"
  shows "allocate sz 1 c = Inr (Some (cm_begin c + 8),
    move_tail (sz + 8) (take_free (sz + 8) (write_header (cm_begin c + 8) (sz + 8) c)))"
  using allocate_place [OF assms(2,3), of 1] fresh_place [OF assms(1,2,4)] by simp

text \<open>A client that only asks for what is refused stays where it is.\<close>

lemma serve_refused:
  assumes "cm_inv c []"
  shows "requests_ok (\<lambda>r. request_ok (fst r) (snd r) \<and>
      max (unat (cm_tail c)) (unat (cm_size c) - unat (cm_tail c)) < unat (fst r) + 8) cmds \<Longrightarrow>
    serve allocate_request release cmds c [] = Inr (c, [])"
proof (induction cmds)
  case (Cons cmd cmds)
  then show ?case
    using empty_allocate_refused [OF assms]
    by (cases cmd) (auto simp: allocate_request_def)
qed simp


section \<open>Properties of an empty allocator\<close>

text \<open>C13: an empty allocator, wherever its tail stands, serves every request that with its
  header and the padding of its alignment fits into half of the buffer.\<close>

theorem empty_serves_half:
  assumes "cm_inv c []" and "request_ok sz al" and "2 * (unat sz + unat al + 7) \<le> unat (cm_size c)"
  shows "\<exists>res c'. allocate sz al c = Inr (Some res, c')"
  by (rule empty_allocate_Some [OF assms(1,2)]) (rule larger_piece [OF assms(3)])

lemma empty_serves_half_witness:
  "\<exists>res c'. allocate 17 8 small_ring = Inr (Some res, c')"
  by (rule empty_serves_half [OF small_ring_inv])
     (simp_all add: request_ok_def small_ring_def circular_memory_init_def)

text \<open>C12: no more than half is sure: after one block of half the buffer has come and gone,
  the allocator is empty, and refuses every larger block, however often the client asks;
  a fresh allocator of this size has room for all of it.\<close>

theorem empty_starves:
  assumes "unat n = 2 * k" and "8 < k" and "unat n < 2 ^ 63"
  shows "(\<exists>c'. allocate (n - 8) 1 (circular_memory_init buffer n m) = Inr (Some (buffer + 8), c')) \<and>
    (\<exists>c1 c2. allocate (of_nat k - 8) 1 (circular_memory_init buffer n m) = Inr (Some (buffer + 8), c1) \<and>
       release (buffer + 8) c1 = Inr c2 \<and> cm_empty c2 \<and>
       (\<forall>cmds. requests_ok (\<lambda>r. request_ok (fst r) (snd r) \<and> k < unat (fst r) + 8) cmds \<longrightarrow>
          serve allocate_request release cmds c2 [] = Inr (c2, [])))"
proof -
  let ?c = "circular_memory_init buffer n m" and ?s = "of_nat k - 8 :: size_t"
  let ?c1 = "move_tail (?s + 8) (take_free (?s + 8) (write_header (buffer + 8) (?s + 8) ?c))"
  let ?b = "\<lparr>blk_at = buffer + 8, blk_len = unat ?s, blk_used = ?s + 8\<rparr>"
  let ?c2 = "give_free (?s + 8) ?c1"
  have c: "cm_tail ?c = 0" "cm_begin ?c = buffer" "cm_size ?c = n" "cm_free ?c = n"
    by (simp_all add: circular_memory_init_def)
  have "unat (0 :: size_t) < unat n" using assms(1,2) by simp
  then have inv: "cm_inv ?c []" by (intro cm_inv_init assms(3)) (simp only: word_less_nat_alt)
  have k: "unat (of_nat k :: size_t) = k"
    using assms(1,3) by (simp add: unat_of_nat)
  then have s: "unat ?s = k - 8" using assms(2) by (simp add: unat_sub word_le_nat_alt)
  then have s0: "?s \<noteq> 0" using assms(2) by auto
  have n: "unat (n - 8) = unat n - 8" using assms(1,2) by (simp add: unat_sub word_le_nat_alt)
  then have "n - 8 \<noteq> 0" using assms(1,2) by auto
  then have whole: "\<exists>c'. allocate (n - 8) 1 ?c = Inr (Some (buffer + 8), c')"
    using fresh_allocate [OF c(1) inv, of "n - 8"] n assms(1,2) c by auto
  have a1: "allocate ?s 1 ?c = Inr (Some (buffer + 8), ?c1)"
    using fresh_allocate [OF c(1) inv s0] s assms(1,2) c by simp
  have p: "place ?c (cm_free ?c) ?s 1 = Some (buffer + 8, ?s + 8)"
    using fresh_place [OF c(1) inv, of ?s] s assms(1,2) c by simp
  have "unat ?s + 8 < 2 ^ 64" using s assms by simp
  from allocate_inv [OF inv s0 this _ p] have inv1: "cm_inv ?c1 [?b]" by simp
  have rel: "release (buffer + 8) ?c1 = Inr ?c2" using release_oldest [OF inv1] by simp
  have inv2: "cm_inv ?c2 []" using give_free_inv [OF inv1] by simp
  have "unat (cm_tail ?c2) = k" "unat (cm_size ?c2) = 2 * k"
    using assms k by (simp_all add: give_free_def move_tail_def take_free_def write_header_def
        circular_memory_init_def unat_mod_distrib)
  then have starve: "serve allocate_request release cmds ?c2 [] = Inr (?c2, [])"
    if "requests_ok (\<lambda>r. request_ok (fst r) (snd r) \<and> k < unat (fst r) + 8) cmds" for cmds
    using serve_refused [OF inv2] that by simp
  show ?thesis
    using whole a1 rel cm_inv_empty(3) [OF inv2] starve by blast
qed

lemma empty_starves_witness:
  "\<exists>c1 c2. allocate 24 1 small_ring = Inr (Some 1008, c1) \<and> release 1008 c1 = Inr c2 \<and> cm_empty c2 \<and>
     serve allocate_request release [Get (40, 8), Get (25, 1), Put, Get (56, 1)] c2 [] = Inr (c2, [])"
proof -
  have "requests_ok (\<lambda>r. request_ok (fst r) (snd r) \<and> 32 < unat (fst r) + 8)
      [Get (40, 8), Get (25, 1), Put, Get (56, 1)]"
    by (simp add: request_ok_def)
  then show ?thesis
    using empty_starves [of 64 32 1000 "\<lambda>_. 0"] unfolding small_ring_def by fastforce
qed

end
