(* ===== verification/Spec2Isabelle.thy ===== *)
theory Spec2Isabelle
  imports Ini_Errors Circular_Properties Flags_Properties Options_Properties Huge_Calls
    Nic_Properties Thread_Properties Sys_Properties Net_Properties Duration_Axis Rte_Log
    Console_Sink Circular_Refinement Circular_Starvation
begin

text \<open>
  A model of \<^verbatim>\<open>fb_utils\<close>, a C++ library of utilities for network programs, and the
  theorems about it.  File names are relative to \<^verbatim>\<open>src/utils\<close>.

  \<^bold>\<open>Parts and theories.\<close>  Each part has a theory of its definitions, in the order of the code, and
  one of its properties; the theories between them hold the lemmas.

  \<^item> \<^verbatim>\<open>ini_parser/ini_parser.cpp\<close>: \<open>Ini_Tokenizer\<close> (\<open>trim\<close>, \<open>find_quote\<close>,
    \<open>process_quoted_value\<close>, \<open>process_key\<close>, \<open>tokenize\<close> with its searches and indices) and
    \<open>Ini_Parser\<close> (the class \<^verbatim>\<open>ini_parser\<close>: \<open>ini_state\<close> is its members, \<open>ini_parse\<close> its
    \<^verbatim>\<open>operator()\<close>, \<open>parse_stream\<close> and \<open>parse_file\<close> the two \<^verbatim>\<open>parse\<close>).
    \<open>Fs_Path\<close> is what it uses of \<^verbatim>\<open>std::filesystem\<close>.  \<open>Ini_Scanner\<close> has the reference
    lexer, \<open>Ini_Tokens\<close> the shape of token lists, \<open>Ini_Contract\<close> the contract of a nested call,
    \<open>Ini_Document\<close> the printer of documents, \<open>Ini_Properties\<close> the theorems, \<open>Ini_Semantics\<close> a
    big-step semantics of ini files and the parser as its implementation, \<open>Ini_Errors\<close> what the
    message of an error says.
  \<^item> \<^verbatim>\<open>flags/flags.hpp\<close>, \<^verbatim>\<open>flags/parser/flags.hpp\<close>: \<open>Flags\<close>, \<open>Flags_Properties\<close>; a
    value of the integral type is a word of any length, \<open>sg\<close> says whether the type is signed.
  \<^item> \<^verbatim>\<open>circular_memory.hpp\<close>: \<open>Circular_Memory\<close> (the allocator over a byte store),
    \<open>Circular_Blocks\<close> (the chain of live blocks and the invariant), \<open>Circular_Threads\<close> (one producer
    and one consumer, their accesses one at a time), \<open>Circular_Properties\<close>, \<open>Circular_Refinement\<close>
    (the threads as a queue, their end, and the bytes they write; over \<open>Step_Systems\<close>, contracts of
    step relations), \<open>Circular_Starvation\<close> (what an empty allocator serves and refuses).
  \<^item> \<^verbatim>\<open>program_options/ini_parser.cpp\<close>: \<open>Options_Ini\<close>, \<open>Options_Properties\<close>; it calls the
    ini parser.
  \<^item> \<^verbatim>\<open>program_options/{net,chrono}.hpp\<close>, \<^verbatim>\<open>program_options/validators\<close> and
    \<^verbatim>\<open>program_options/log.cpp\<close>: \<open>X3_Grammar\<close> (the combinators of Boost.Spirit X3 the
    grammars are written with, and the laws assumed of them), \<open>Net_Options\<close>, \<open>Net_Properties\<close>; the
    last function reads the options that \<open>Options_Ini\<close> makes.
  \<^item> \<^verbatim>\<open>program_options/console_sink.cpp\<close>: \<open>Console_Sink\<close>; the state is the factory with its
    weak pointer, the sinks made so far and the strong pointers that are held.
  \<^item> \<^verbatim>\<open>memory.hpp\<close>, \<^verbatim>\<open>huge_pages.hpp\<close> and their \<^verbatim>\<open>win\<close> and
    \<^verbatim>\<open>posix\<close> sources: \<open>Huge_Pages\<close>, \<open>Huge_Properties\<close>, \<open>Huge_Calls\<close>; code in the state
    monad over the trace of system calls and the function-local statics, which the last theory follows
    over any sequence of operations.
  \<^item> \<^verbatim>\<open>nic_addresses.hpp\<close> and its sources: \<open>Nic_Addresses\<close>, \<open>Nic_Properties\<close>.
  \<^item> \<^verbatim>\<open>thread.hpp\<close> and its sources: \<open>Thread_Affinity\<close>, \<open>Thread_Properties\<close>.
  \<^item> \<^verbatim>\<open>sysinfo.hpp\<close> and its sources, \<^verbatim>\<open>win/experimental/sysinfo.hpp\<close>, and
    \<^verbatim>\<open>buffer.hpp\<close>: \<open>Sys_Info\<close>, \<open>Sys_Properties\<close>.
  \<^item> \<^verbatim>\<open>histogram/chrono_axes.hpp\<close>: \<open>Readable_Time\<close>, \<open>Duration_Axis\<close> (the axis and
    \<^verbatim>\<open>dump\<close>); \<^verbatim>\<open>log.hpp\<close>: \<open>Rte_Log\<close>.

  The last section of this theory follows a configuration through three of the parts: from the text of
  an ini file to its options, their typed values and the settings of the log.

  \<open>Fb_Prelude\<close> is shared: \<open>outcome\<close> with the \<open>fault\<close>s a call can end in (a thrown
  \<^verbatim>\<open>runtime_error\<close> with its text, another exception, a failing \<^verbatim>\<open>assert\<close>, undefined
  behaviour, fuel), the searches of \<^verbatim>\<open>std::string_view\<close>, \<open>getline\<close>, decimal numbers.

  \<^bold>\<open>Conventions.\<close>  \<^verbatim>\<open>std::size_t\<close> is \<open>64 word\<close> where its wrap-around matters (the
  allocators), a natural number for positions in a string.  Every index or \<^verbatim>\<open>substr\<close> whose
  range the code does not check is checked in the model and is \<open>Undefined\<close> outside.  An assert is
  a check that ends in \<open>Assert_Failed\<close>, as in a build without \<^verbatim>\<open>NDEBUG\<close>.

  \<^bold>\<open>Parameters.\<close>  The operating system (calls and their answers, the file system), Boost and the
  formatting of DPDK messages are arguments of the definitions.  The laws assumed of X3 are the
  locale \<open>x3_parser\<close>, which \<open>peg\<close>, a parser for the combinators, satisfies.  Named hypotheses state documented behaviour of the system:
  that canonical paths are absolute (\<open>canonical_absolute\<close>) and name the same file
  (\<open>canonical_names\<close>), and how a buffer that is too small is refused (\<open>lp_documented\<close>,
  \<open>cs_documented\<close>, \<open>selected_documented\<close>, \<open>gaa_documented\<close>).  A division by a page size of 0, undefined in the source,
  has the word 0 as its result in the model; the system does not answer such a size.

  \<^bold>\<open>Fuel and termination.\<close>  Only \<open>ini_parse\<close> has fuel, for the depth of includes: an open file is
  never included again, so fuel above the number of canonical paths is enough (\<open>parse_file_total\<close>).
  The loops of the tokenizer are recursive functions with proved termination.  The loops that
  depend on the system's answers and may run for ever (\<open>lp_loop\<close>, \<open>walk\<close>) are partial functions,
  where \<open>None\<close> is that they do.

  \<^bold>\<open>Interfaces.\<close>  \<open>nested_parser\<close> (what a parser of an included file must keep; interpreted by
  \<open>ini_parse\<close>), \<open>fifo_allocator\<close> (allocation and release in order; interpreted by the circular
  memory), \<open>simulation\<close> and \<open>ending_simulation\<close> (steps that refine other steps and come to an end;
  interpreted by the steps of the two threads), \<open>prefix_set\<close> (a set of prefixes none of which begins
  another; interpreted by the sorted list), \<open>x3_parser\<close> (interpreted by \<open>peg\<close>).

  \<^bold>\<open>What the theorems show.\<close>  The tokenizer equals a lexer that reads from left to right and never
  leaves its input; printing a document and parsing it gives its pairs, through nested includes;
  the parser returns exactly the pairs a big-step semantics gives a file; errors name a
  line in each file down to the one that fails; include cycles of any length are errors, and reading a file ends.  Allocations of the
  circular memory are aligned and disjoint and fail only for lack of room; with another thread
  releasing, the live blocks are a first-in first-out queue, payloads change only by their client,
  and both threads always come to an end with all bytes free; empty, it serves every block that fits
  half of the buffer.  Flags are read back from what is
  printed.  The check of wildcard names is complete.  A strict allocation has huge pages, what
  is reported is what was allocated and what the system answered, and over the life of a process every allocation asks for whole
  pages of the size the system answered once.  The topology queries end and return every record, also
  while processors come and go.  The walks and the grouping of interfaces lose nothing; the
  list of adapters is whole unless it grew before every attempt.
  Endpoints, credentials and durations are read as their parts, and no other texts are accepted.  The console sink is the one made last, while somebody holds it.  The table of a histogram
  has a line for each cell that counts, with its bounds and count, aligned while the indices
  fit.  The log has the entries of the levels that are on, as far as the stream takes them.  Some theorems show where the code goes wrong: sums that wrap around, a relative
  name that fails an assert, a message that names the wrong option, an unread sign bit, writes and
  reads out of bounds, a cache that ignores its key, casts of infinite bounds, a core id without a
  bit in its mask, ids behind a set that shrank between two calls, an empty buffer that refuses for
  ever a block it has the bytes for, a column too narrow for six digits, log entries that are cut.

  \<^bold>\<open>Not modelled.\<close>  \<^verbatim>\<open>workarounds.hpp\<close> (a constructor call of the standard library); \<^verbatim>\<open>this_thread\<close>,
  \<^verbatim>\<open>getcpu_id\<close> on POSIX (the results of single calls of the system); \<^verbatim>\<open>make_logger\<close>
  (it only calls a constructor that the repository does not define); what Boost.Log does with the
  settings and sinks it is given.  Memory orders weaker than sequential consistency are not
  modelled: the code uses the defaults of \<^verbatim>\<open>std::atomic\<close>.
\<close>

section \<open>From the text of a file to the settings of a program\<close>

lemma parse_file_print_doc:
  assumes "open_file fs filename = Some (print_doc ds)" and "canonical fs filename = Inr canon"
    and "is_absolute canon" and "doc_ok fs [canon] ds" and "doc_depth ds < fuel"
  shows "parse_file fuel fs filename = Inr (doc_pairs [] ds)"
  using assms ini_parse_print_doc [of canon fs empty_state ds fuel]
  by (simp add: parse_file_def parse_impl_def empty_state_def)

lemma configuration_pairs:
  assumes pairs: "parse_file fuel fs filename = Inr kvs"
    and reg: "register_options ns no_options = Inr a" and x3: "x3_parser parse"
  shows "\<exists>opts. parse_ini fuel fs filename ns True = Inr opts \<and>
    map (\<lambda>opt. (string_key opt, opt_value opt)) opts = map (\<lambda>(k, v). (k, [v])) kvs \<and>
    (\<forall>opt \<in> set opts. \<forall>host port. opt_value opt = [host @ colon # dec_string port] \<and> host \<noteq> [] \<and>
        colon \<notin> set host \<and> port < 65536 \<longrightarrow>
      validate_endpoint parse None (opt_value opt) = Inr \<lparr>ep_host = host, ep_port = port\<rparr>) \<and>
    init_log_from_options parse opts m =
      (let free = filter (\<lambda>kv. \<not> is_registered a (fst kv)) kvs;
           logs = filter (\<lambda>kv. is_log_name parse (fst kv)) free;
           others = filter (\<lambda>kv. \<not> is_log_name parse (fst kv)) free
       in (logs, logs \<noteq> [], map_of others ++ m))"
proof -
  obtain opts where opts: "parse_ini fuel fs filename ns True = Inr opts"
      "opts = map (\<lambda>(k, v). \<lparr>string_key = k, opt_value = [v], unregistered = \<not> is_registered a k,
         original_tokens = [k, v]\<rparr>) kvs"
    using reg pairs by (simp add: parse_ini_def make_options_eq)
  show ?thesis
    using opts unregistered_options_split [OF reg pairs opts(1), of parse m] endpoint_value [OF x3]
    by (intro exI [of _ opts]) (auto simp: split_def)
qed

text \<open>C10: the way of a configuration: when \<^verbatim>\<open>parse_ini\<close> reads a file that means some
  pairs for a description, unknown keys allowed, it returns an option for every pair, in order; the
  value of an option that is the text of an endpoint is read as this endpoint by the validator; and
  \<^verbatim>\<open>init_log_from_unrecognized_program_options\<close> gives the log exactly the pairs with unknown
  keys that are log settings, and the map of values the other ones, the first of equal keys.\<close>

theorem configuration_file:
  assumes "finite (canonical_paths fs)" and "canonical_absolute fs" and "card (canonical_paths fs) < fuel"
    and "file_means fs filename kvs"
    and "register_options ns no_options = Inr a" and "x3_parser parse"
  shows "\<exists>opts. parse_ini fuel fs filename ns True = Inr opts \<and>
    map (\<lambda>opt. (string_key opt, opt_value opt)) opts = map (\<lambda>(k, v). (k, [v])) kvs \<and>
    (\<forall>opt \<in> set opts. \<forall>host port. opt_value opt = [host @ colon # dec_string port] \<and> host \<noteq> [] \<and>
        colon \<notin> set host \<and> port < 65536 \<longrightarrow>
      validate_endpoint parse None (opt_value opt) = Inr \<lparr>ep_host = host, ep_port = port\<rparr>) \<and>
    init_log_from_options parse opts m =
      (let free = filter (\<lambda>kv. \<not> is_registered a (fst kv)) kvs;
           logs = filter (\<lambda>kv. is_log_name parse (fst kv)) free;
           others = filter (\<lambda>kv. \<not> is_log_name parse (fst kv)) free
       in (logs, logs \<noteq> [], map_of others ++ m))"
proof (rule configuration_pairs [OF _ assms(5,6)])
  show "parse_file fuel fs filename = Inr kvs" using parse_file_means [OF assms(1-3)] assms(4) by blast
qed

lemma configuration_file_witness:
  "\<exists>opts. parse_ini 2 (flat_fs [(''/c'', print_doc [Entry ''listen'' (''host'' @ colon # dec_string 80),
       Section ''Core'', Entry ''Filter'' ''on'', Section ''x'', Entry ''y'' ''z''])]) ''/c'' [''listen''] True =
     Inr opts \<and>
   validate_endpoint peg None (opt_value (hd opts)) = Inr \<lparr>ep_host = ''host'', ep_port = 80\<rparr> \<and>
   init_log_from_options peg opts Map.empty =
     ([(''Core.Filter'', ''on'')], True, [''x.y'' \<mapsto> ''z''])"
proof -
  let ?ds = "[Entry ''listen'' (''host'' @ colon # dec_string 80), Section ''Core'', Entry ''Filter'' ''on'',
     Section ''x'', Entry ''y'' ''z'']"
  let ?a = "\<lparr>allowed_options = [''listen''], allowed_prefixes = []\<rparr>"
  have digits: "newline \<notin> set (dec_string 80)" by code_simp
  have pairs: "doc_pairs [] ?ds =
      [(''listen'', ''host'' @ colon # dec_string 80), (''Core.Filter'', ''on''), (''x.y'', ''z'')]"
    by (simp add: with_dot_def)
  have known: "is_registered ?a k \<longleftrightarrow> k = ''listen''" for k
    by (simp add: is_registered_def lower_bound_def)
  have logs: "is_log_name peg ''Core.Filter''" "\<not> is_log_name peg ''x.y''"
    using x3_parser.is_log_name_core [OF x3_parser_peg, of "''Filter''"]
    by (simp_all add: is_log_name_def parse_all_def log_name_grammar_def)
  let ?fs = "flat_fs [(''/c'', print_doc ?ds)]"
  have doc: "doc_ok ?fs [''/c''] ?ds"
    using digits by (simp add: trim_eq is_space_eq skip_space_def)
  have reg: "register_options [''listen''] no_options = Inr ?a"
    by (simp add: register_option_def no_options_def)
  have path: "open_file ?fs ''/c'' = Some (print_doc ?ds)" "canonical ?fs ''/c'' = Inr ''/c''"
      "is_absolute ''/c''"
    by (simp_all add: is_absolute_def)
  have "parse_file 2 ?fs ''/c'' = Inr (doc_pairs [] ?ds)"
    by (rule parse_file_print_doc [OF path(1-3) doc]) simp
  moreover have files: "finite (canonical_paths ?fs)" "canonical_absolute ?fs" "card (canonical_paths ?fs) < 2"
    by (simp_all add: canonical_paths_flat_fs canonical_absolute_def is_absolute_def)
  ultimately have means: "file_means ?fs ''/c'' (doc_pairs [] ?ds)" using parse_file_means by blast
  obtain opts where opts: "parse_ini 2 ?fs ''/c'' [''listen''] True = Inr opts"
      "map (\<lambda>opt. (string_key opt, opt_value opt)) opts = map (\<lambda>(k, v). (k, [v])) (doc_pairs [] ?ds)"
      "\<forall>opt \<in> set opts. \<forall>host port. opt_value opt = [host @ colon # dec_string port] \<and> host \<noteq> [] \<and>
        colon \<notin> set host \<and> port < 65536 \<longrightarrow>
        validate_endpoint peg None (opt_value opt) = Inr \<lparr>ep_host = host, ep_port = port\<rparr>"
    and split: "init_log_from_options peg opts Map.empty =
      (let free = filter (\<lambda>kv. \<not> is_registered ?a (fst kv)) (doc_pairs [] ?ds);
           logs = filter (\<lambda>kv. is_log_name peg (fst kv)) free;
           others = filter (\<lambda>kv. \<not> is_log_name peg (fst kv)) free
       in (logs, logs \<noteq> [], map_of others ++ Map.empty))"
    using configuration_file [OF files means reg x3_parser_peg, of Map.empty] by blast
  have "init_log_from_options peg opts Map.empty = ([(''Core.Filter'', ''on'')], True, [''x.y'' \<mapsto> ''z''])"
    unfolding split pairs by (simp add: known logs)
  note opts = opts this
  have "opts \<noteq> []" "opt_value (hd opts) = [''host'' @ colon # dec_string 80]"
    using opts(2) unfolding pairs by (cases opts; simp)+
  then have "validate_endpoint peg None (opt_value (hd opts)) = Inr \<lparr>ep_host = ''host'', ep_port = 80\<rparr>"
    using opts(3) [rule_format, of "hd opts" "''host''" 80] by simp
  with opts(1,4) show ?thesis by blast
qed

text \<open>The same for the printed text of a document, with fuel for its depth only.\<close>

theorem configuration_document:
  assumes "open_file fs filename = Some (print_doc ds)" and "canonical fs filename = Inr canon"
    and "is_absolute canon" and "doc_ok fs [canon] ds" and "doc_depth ds < fuel"
    and "register_options ns no_options = Inr a" and "x3_parser parse"
  shows "\<exists>opts. parse_ini fuel fs filename ns True = Inr opts \<and>
    map (\<lambda>opt. (string_key opt, opt_value opt)) opts = map (\<lambda>(k, v). (k, [v])) (doc_pairs [] ds) \<and>
    (\<forall>opt \<in> set opts. \<forall>host port. opt_value opt = [host @ colon # dec_string port] \<and> host \<noteq> [] \<and>
        colon \<notin> set host \<and> port < 65536 \<longrightarrow>
      validate_endpoint parse None (opt_value opt) = Inr \<lparr>ep_host = host, ep_port = port\<rparr>) \<and>
    init_log_from_options parse opts m =
      (let free = filter (\<lambda>kv. \<not> is_registered a (fst kv)) (doc_pairs [] ds);
           logs = filter (\<lambda>kv. is_log_name parse (fst kv)) free;
           others = filter (\<lambda>kv. \<not> is_log_name parse (fst kv)) free
       in (logs, logs \<noteq> [], map_of others ++ m))"
  by (rule configuration_pairs [OF parse_file_print_doc [OF assms(1-5)] assms(6,7)])

end
